(* ===== verification/Prelude.thy ===== *)
theory Prelude
  imports Main "HOL-Library.Word" "HOL-Library.Monad_Syntax" "HOL-Library.Sublist"
begin

text \<open>
  Shared vocabulary of the development: the machine integers and byte strings of the Go
  sources, the big-endian encoders of \<^verbatim>\<open>encoding/binary\<close>, the reader that
  \<^verbatim>\<open>bufio.Reader\<close> and \<^verbatim>\<open>io.ReadFull\<close> present to a decoder, and the generic
  facts on lists and words that the component theories rest on.
\<close>

unbundle bit_operations_syntax

named_theorems handler_defs \<open>definitions of the handlers, for evaluating concrete runs\<close>

section \<open>Machine integers, bytes, strings\<close>

type_synonym u8 = "8 word"
type_synonym u16 = "16 word"
type_synonym u32 = "32 word"
type_synonym u64 = "64 word"
type_synonym bytes = "u8 list"

text \<open>A Go string is a byte sequence; a HOL \<^typ>\<open>char\<close> is a byte.\<close>

definition byte_of_char :: "char \<Rightarrow> u8" where
  "byte_of_char c = of_nat (of_char c)"

definition char_of_byte :: "u8 \<Rightarrow> char" where
  "char_of_byte b = char_of (unat b)"

definition string_bytes :: "string \<Rightarrow> bytes" where
  "string_bytes s = map byte_of_char s"

definition bytes_string :: "bytes \<Rightarrow> string" where
  "bytes_string bs = map char_of_byte bs"

lemma char_of_byte_of_char [simp]: "char_of_byte (byte_of_char c) = c"
  by (simp add: char_of_byte_def byte_of_char_def unat_of_nat)

lemma byte_of_char_of_byte [simp]: "byte_of_char (char_of_byte b) = b"
proof -
  have "unat b < 256" using unsigned_less [of b] by simp
  then show ?thesis by (simp add: char_of_byte_def byte_of_char_def)
qed

lemma bytes_string_bytes [simp]: "bytes_string (string_bytes s) = s"
  by (simp add: bytes_string_def string_bytes_def comp_def)

lemma string_bytes_string [simp]: "string_bytes (bytes_string bs) = bs"
  by (simp add: bytes_string_def string_bytes_def comp_def)

lemma length_string_bytes [simp]: "length (string_bytes s) = length s"
  by (simp add: string_bytes_def)

lemma length_bytes_string [simp]: "length (bytes_string bs) = length bs"
  by (simp add: bytes_string_def)

section \<open>Big-endian integers (encoding/binary)\<close>

text \<open>
  \<^verbatim>\<open>PutUintN\<close> stores the byte \<^verbatim>\<open>v >> (8 * (n - 1 - i))\<close> at index \<open>i\<close>;
  \<^verbatim>\<open>UintN\<close> ors the shifted bytes together.
\<close>

fun be_put :: "nat \<Rightarrow> 'a::len word \<Rightarrow> bytes" where
  "be_put 0 v = []"
| "be_put (Suc n) v = ucast (drop_bit (8 * n) v) # be_put n v"

definition be_push :: "'a::len word \<Rightarrow> u8 \<Rightarrow> 'a word" where
  "be_push a b = push_bit 8 a OR ucast b"

definition be_get :: "bytes \<Rightarrow> 'a::len word" where
  "be_get bs = foldl be_push 0 bs"

lemma length_be_put [simp]: "length (be_put n v) = n"
  by (induction n) simp_all

lemma foldl_be_push_put:
  "foldl be_push a (be_put n v) = push_bit (8 * n) a OR take_bit (8 * n) (v :: 'a::len word)"
proof (induction n arbitrary: a)
  case 0
  show ?case by simp
next
  case (Suc n)
  have "push_bit (8 * n) (be_push a (ucast (drop_bit (8 * n) v))) OR take_bit (8 * n) v
      = push_bit (8 * Suc n) a OR take_bit (8 * Suc n) v"
    by (rule bit_word_eqI) (auto simp: be_push_def bit_simps add.commute)
  then show ?case by (simp add: Suc.IH)
qed

lemma be_get_put: "LENGTH('a) \<le> 8 * n \<Longrightarrow> be_get (be_put n (v :: 'a::len word)) = v"
  by (simp add: be_get_def foldl_be_push_put take_bit_word_eq_self)

lemma be_get_put_bytes [simp]:
  "be_get (be_put 2 (v :: u16)) = v"
  "be_get (be_put 4 (w :: u32)) = w"
  "be_get (be_put 8 (x :: u64)) = x"
  by (simp_all add: be_get_put)

lemma be_put_push:
  assumes "8 * Suc n \<le> LENGTH('a)"
  shows "be_put (Suc n) (be_push x b :: 'a::len word) = be_put n x @ [b]"
  using assms
proof (induction n)
  case 0
  then have "ucast (be_push x b) = b"
    by (intro bit_word_eqI) (auto simp: be_push_def bit_simps)
  then show ?case by simp
next
  case (Suc n)
  have "ucast (drop_bit (8 * Suc n) (be_push x b)) = (ucast (drop_bit (8 * n) x) :: u8)"
    using Suc.prems bit_imp_le_length [of b] by (intro bit_word_eqI) (fastforce simp: be_push_def bit_simps)
  moreover have "be_put (Suc n) (be_push x b) = be_put n x @ [b]"
    using Suc by simp
  ultimately show ?case by (metis append_Cons be_put.simps(2))
qed

lemma be_put_foldl:
  "8 * length bs \<le> LENGTH('a) \<Longrightarrow> be_put (length bs) (foldl be_push a bs :: 'a::len word) = bs"
proof (induction bs rule: rev_induct)
  case Nil
  show ?case by simp
next
  case (snoc b bs)
  then show ?case by (simp add: be_put_push del: be_put.simps)
qed

lemma be_put_get:
  "length bs = n \<Longrightarrow> 8 * n \<le> LENGTH('a) \<Longrightarrow> be_put n (be_get bs :: 'a::len word) = bs"
  using be_put_foldl by (auto simp: be_get_def)

section \<open>Fallible computations\<close>

text \<open>An error return is \<^const>\<open>Inl\<close>; \<open>bindE\<close> is the early return \<^verbatim>\<open>if err != nil { return err }\<close>.\<close>

definition bindE :: "'e + 'a \<Rightarrow> ('a \<Rightarrow> 'e + 'b) \<Rightarrow> 'e + 'b" where
  "bindE m f = (case m of Inl e \<Rightarrow> Inl e | Inr x \<Rightarrow> f x)"

lemma bindE_simps [simp]: "bindE (Inl e) f = Inl e" "bindE (Inr x) f = f x"
  by (simp_all add: bindE_def)

lemma bindE_Inr_iff: "bindE m f = Inr y \<longleftrightarrow> (\<exists>x. m = Inr x \<and> f x = Inr y)"
  by (cases m) simp_all

section \<open>Readers\<close>

text \<open>
  A decoder reads from a \<^verbatim>\<open>bufio.Reader\<close>: the bytes that still arrive on the
  connection, and the error the connection reports once they are used up (\<open>EOF\<close> for an
  orderly close, another error for a reset or an expired read deadline).
\<close>

datatype read_error = EOF | UnexpectedEOF | NetError

record reader =
  avail :: bytes
  final :: read_error

text \<open>\<^verbatim>\<open>bufio.Reader.ReadByte\<close>\<close>

definition ReadByte :: "reader \<Rightarrow> read_error + (u8 \<times> reader)" where
  "ReadByte r = (case avail r of [] \<Rightarrow> Inl (final r) | b # bs \<Rightarrow> Inr (b, r\<lparr>avail := bs\<rparr>))"

text \<open>
  \<^verbatim>\<open>io.ReadFull\<close> of an \<open>n\<close>-byte buffer: a zero-length read succeeds, an
  end of input after at least one byte is \<^verbatim>\<open>io.ErrUnexpectedEOF\<close>, any other
  error is passed on.
\<close>

definition ReadFull :: "nat \<Rightarrow> reader \<Rightarrow> read_error + (bytes \<times> reader)" where
  "ReadFull n r =
     (if n \<le> length (avail r) then Inr (take n (avail r), r\<lparr>avail := drop n (avail r)\<rparr>)
      else Inl (if avail r \<noteq> [] \<and> final r = EOF then UnexpectedEOF else final r))"

text \<open>The reader \<open>r\<close> with its remaining input replaced.\<close>

abbreviation on_bytes :: "bytes \<Rightarrow> reader \<Rightarrow> reader" where
  "on_bytes bs r \<equiv> r\<lparr>avail := bs\<rparr>"

lemma ReadByte_on_bytes [simp]: "ReadByte (on_bytes (b # bs) r) = Inr (b, on_bytes bs r)"
  by (simp add: ReadByte_def)

lemma ReadFull_on_bytes [simp]:
  "length bs = n \<Longrightarrow> ReadFull n (on_bytes (bs @ cs) r) = Inr (bs, on_bytes cs r)"
  by (simp add: ReadFull_def)

text \<open>\<open>reads r bs r'\<close>: reading \<open>bs\<close> off \<open>r\<close> leaves \<open>r'\<close>.\<close>

definition reads :: "reader \<Rightarrow> bytes \<Rightarrow> reader \<Rightarrow> bool" where
  "reads r bs r' \<longleftrightarrow> avail r = bs @ avail r' \<and> final r = final r'"

lemma reads_trans: "reads r bs r1 \<Longrightarrow> reads r1 cs r2 \<Longrightarrow> reads r (bs @ cs) r2"
  by (simp add: reads_def)

lemma reads_iff: "reads r bs r' \<longleftrightarrow> r = on_bytes (bs @ avail r') r'"
  by (cases r; cases r') (auto simp: reads_def)

lemma ReadByte_InrD: "ReadByte r = Inr (b, r') \<Longrightarrow> reads r [b] r'"
  by (auto simp: ReadByte_def reads_def split: list.splits)

lemma ReadFull_InrD: "ReadFull n r = Inr (bs, r') \<Longrightarrow> reads r bs r' \<and> length bs = n"
  by (auto simp: ReadFull_def reads_def split: if_splits)

end
