(* ===== verification/Wire.thy ===== *)
theory Wire
  imports Prelude
begin

text \<open>
  The frame codec of \<^verbatim>\<open>internal/tunnel/wire.go\<close>: the frame union, the encoder
  onto a buffered writer, the decoder from a buffered reader, and the connection's
  \<^verbatim>\<open>WriteFrame\<close>/\<^verbatim>\<open>ReadFrame\<close>. The lemmas relate the writer to the plain
  byte string of a frame, and the decoder to its inverse.
\<close>

section \<open>Frames\<close>

definition TypeHello :: u8 where [simp]: "TypeHello = 1"
definition TypeOpen :: u8 where [simp]: "TypeOpen = 2"
definition TypeAttach :: u8 where [simp]: "TypeAttach = 3"
definition TypeAttachOK :: u8 where [simp]: "TypeAttachOK = 4"
definition TypeData :: u8 where [simp]: "TypeData = 5"
definition TypeAck :: u8 where [simp]: "TypeAck = 6"
definition TypeClose :: u8 where [simp]: "TypeClose = 7"
definition TypePing :: u8 where [simp]: "TypePing = 8"
definition TypePong :: u8 where [simp]: "TypePong = 9"

definition DirUp :: u8 where [simp]: "DirUp = 1"
definition DirDown :: u8 where [simp]: "DirDown = 2"

definition MaxPayload :: nat where "MaxPayload = 256 * 1024"
definition maxString :: nat where "maxString = 4096"

record frame =
  ftype :: u8
  ActorID :: string
  SessionID :: u64
  Target :: string
  Offset :: u64
  Payload :: bytes
  Dir :: u8
  Reason :: string
  Nonce :: u64

text \<open>The zero value of the struct, of which a literal sets some fields.\<close>

definition zero_frame :: frame where
  "zero_frame = \<lparr>ftype = 0, ActorID = [], SessionID = 0, Target = [], Offset = 0,
     Payload = [], Dir = 0, Reason = [], Nonce = 0\<rparr>"

datatype wire_error =
    ReadErr read_error
  | PayloadExceeds nat
  | StringExceeds nat
  | CannotEncode u8
  | UnknownType u8
  | WriteErr

section \<open>The buffered writer of a connection\<close>

text \<open>
  \<^verbatim>\<open>bufio.Writer\<close> over the connection: bytes handed to the network, bytes still
  buffered, and the sticky error. \<open>alive\<close> says whether the network takes a write; a
  write it refuses sets the sticky error.
\<close>

record bufw =
  out :: bytes
  pend :: bytes
  stuck :: bool

definition bufSize :: nat where "bufSize = 64 * 1024"

definition bw_flush :: "bool \<Rightarrow> bufw \<Rightarrow> bufw \<times> bool" where
  "bw_flush alive w =
     (if stuck w then (w, False)
      else if pend w = [] then (w, True)
      else if alive then (w\<lparr>out := out w @ pend w, pend := []\<rparr>, True)
      else (w\<lparr>stuck := True\<rparr>, False))"

definition bw_direct :: "bool \<Rightarrow> bufw \<Rightarrow> bytes \<Rightarrow> bufw \<times> bool" where
  "bw_direct alive w p =
     (if alive then (w\<lparr>out := out w @ p\<rparr>, True) else (w\<lparr>stuck := True\<rparr>, False))"

definition bw_write :: "bool \<Rightarrow> bufw \<Rightarrow> bytes \<Rightarrow> bufw \<times> bool" where
  "bw_write alive w p =
     (if stuck w then (w, False)
      else if length p \<le> bufSize - length (pend w) then (w\<lparr>pend := pend w @ p\<rparr>, True)
      else if pend w = [] then bw_direct alive w p
      else
        (let k = bufSize - length (pend w);
             (w1, ok) = bw_flush alive (w\<lparr>pend := pend w @ take k p\<rparr>);
             p1 = drop k p
         in if \<not> ok then (w1, False)
            else if length p1 \<le> bufSize then (w1\<lparr>pend := p1\<rparr>, True)
            else bw_direct alive w1 p1))"

definition putU32 :: "bool \<Rightarrow> bufw \<Rightarrow> u32 \<Rightarrow> bufw" where
  "putU32 alive w v = fst (bw_write alive w (be_put 4 v))"

definition putU64 :: "bool \<Rightarrow> bufw \<Rightarrow> u64 \<Rightarrow> bufw" where
  "putU64 alive w v = fst (bw_write alive w (be_put 8 v))"

definition err_of :: "bool \<Rightarrow> wire_error option" where
  "err_of ok = (if ok then None else Some WriteErr)"

definition putString :: "bool \<Rightarrow> bufw \<Rightarrow> string \<Rightarrow> bufw \<times> wire_error option" where
  "putString alive w s =
     (if length s > maxString then (w, Some (StringExceeds (length s)))
      else
        (let (w1, ok) = bw_write alive w (be_put 2 (of_nat (length s) :: u16))
         in if \<not> ok then (w1, Some WriteErr)
            else (let (w2, ok2) = bw_write alive w1 (string_bytes s) in (w2, err_of ok2))))"

definition encodeFrame :: "bool \<Rightarrow> bufw \<Rightarrow> frame \<Rightarrow> bufw \<times> wire_error option" where
  "encodeFrame alive w0 f =
     (let (w, ok) = bw_write alive w0 [ftype f]
      in if \<not> ok then (w, Some WriteErr)
         else if ftype f = TypeHello then putString alive w (ActorID f)
         else if ftype f = TypeOpen then putString alive (putU64 alive w (SessionID f)) (Target f)
         else if ftype f = TypeAttach then
           putString alive (putU64 alive (putU64 alive w (SessionID f)) (Offset f)) (Target f)
         else if ftype f = TypeAttachOK \<or> ftype f = TypeData \<or> ftype f = TypeAck then
           (let w1 = putU64 alive (putU64 alive w (SessionID f)) (Offset f)
            in if ftype f = TypeData then
                 (if length (Payload f) > MaxPayload then (w1, Some (PayloadExceeds (length (Payload f))))
                  else (let (w2, ok2) = bw_write alive
                              (putU32 alive w1 (of_nat (length (Payload f)))) (Payload f)
                        in (w2, err_of ok2)))
               else (w1, None))
         else if ftype f = TypeClose then
           (let (w1, ok1) = bw_write alive (putU64 alive w (SessionID f)) [Dir f]
            in if \<not> ok1 then (w1, Some WriteErr) else putString alive w1 (Reason f))
         else if ftype f = TypePing \<or> ftype f = TypePong then (putU64 alive w (Nonce f), None)
         else (w, Some (CannotEncode (ftype f))))"

definition WriteFrame :: "bool \<Rightarrow> bufw \<Rightarrow> frame \<Rightarrow> bufw \<times> wire_error option" where
  "WriteFrame alive w f =
     (case encodeFrame alive w f of
        (w1, Some e) \<Rightarrow> (w1, Some e)
      | (w1, None) \<Rightarrow> (let (w2, ok) = bw_flush alive w1 in (w2, err_of ok)))"

definition NewConn :: bufw where
  "NewConn = \<lparr>out = [], pend = [], stuck = False\<rparr>"

section \<open>The decoder\<close>

definition rdErr :: "read_error + 'a \<Rightarrow> wire_error + 'a" where
  "rdErr m = (case m of Inl e \<Rightarrow> Inl (ReadErr e) | Inr x \<Rightarrow> Inr x)"

lemma rdErr_simps [simp]: "rdErr (Inl e) = Inl (ReadErr e)" "rdErr (Inr x) = Inr x"
  by (simp_all add: rdErr_def)

definition getU32 :: "reader \<Rightarrow> wire_error + (u32 \<times> reader)" where
  "getU32 r = bindE (rdErr (ReadFull 4 r)) (\<lambda>(b, r1). Inr (be_get b, r1))"

definition getU64 :: "reader \<Rightarrow> wire_error + (u64 \<times> reader)" where
  "getU64 r = bindE (rdErr (ReadFull 8 r)) (\<lambda>(b, r1). Inr (be_get b, r1))"

definition getString :: "reader \<Rightarrow> wire_error + (string \<times> reader)" where
  "getString r = bindE (rdErr (ReadFull 2 r)) (\<lambda>(b, r1).
     bindE (rdErr (ReadFull (unat (be_get b :: u16)) r1)) (\<lambda>(s, r2). Inr (bytes_string s, r2)))"

text \<open>The switch of \<^verbatim>\<open>decodeFrame\<close> on the type byte \<open>t\<close>, with the rest of the input.\<close>

definition decodeBody :: "u8 \<Rightarrow> reader \<Rightarrow> wire_error + (frame \<times> reader)" where
  "decodeBody t r =
    (if t = TypeHello then
       bindE (getString r) (\<lambda>(a, r). Inr (zero_frame\<lparr>ftype := t, ActorID := a\<rparr>, r))
     else if t = TypeOpen then
       bindE (getU64 r) (\<lambda>(sid, r). bindE (getString r) (\<lambda>(tg, r).
         Inr (zero_frame\<lparr>ftype := t, SessionID := sid, Target := tg\<rparr>, r)))
     else if t = TypeAttach then
       bindE (getU64 r) (\<lambda>(sid, r). bindE (getU64 r) (\<lambda>(off, r). bindE (getString r) (\<lambda>(tg, r).
         Inr (zero_frame\<lparr>ftype := t, SessionID := sid, Offset := off, Target := tg\<rparr>, r))))
     else if t = TypeAttachOK \<or> t = TypeAck then
       bindE (getU64 r) (\<lambda>(sid, r). bindE (getU64 r) (\<lambda>(off, r).
         Inr (zero_frame\<lparr>ftype := t, SessionID := sid, Offset := off\<rparr>, r)))
     else if t = TypeData then
       bindE (getU64 r) (\<lambda>(sid, r). bindE (getU64 r) (\<lambda>(off, r). bindE (getU32 r) (\<lambda>(n, r).
         if unat n > MaxPayload then Inl (PayloadExceeds (unat n))
         else bindE (rdErr (ReadFull (unat n) r)) (\<lambda>(p, r).
           Inr (zero_frame\<lparr>ftype := t, SessionID := sid, Offset := off, Payload := p\<rparr>, r)))))
     else if t = TypeClose then
       bindE (getU64 r) (\<lambda>(sid, r). bindE (rdErr (ReadByte r)) (\<lambda>(d, r). bindE (getString r) (\<lambda>(rs, r).
         Inr (zero_frame\<lparr>ftype := t, SessionID := sid, Dir := d, Reason := rs\<rparr>, r))))
     else if t = TypePing \<or> t = TypePong then
       bindE (getU64 r) (\<lambda>(n, r). Inr (zero_frame\<lparr>ftype := t, Nonce := n\<rparr>, r))
     else Inl (UnknownType t))"

definition decodeFrame :: "reader \<Rightarrow> wire_error + (frame \<times> reader)" where
  "decodeFrame r0 = bindE (rdErr (ReadByte r0)) (\<lambda>(t, r). decodeBody t r)"

definition ReadFrame :: "reader \<Rightarrow> wire_error + (frame \<times> reader)" where
  "ReadFrame r = decodeFrame r"

section \<open>The byte string of a frame\<close>

definition str_bytes :: "string \<Rightarrow> bytes" where
  "str_bytes s = be_put 2 (of_nat (length s) :: u16) @ string_bytes s"

definition frame_bytes :: "frame \<Rightarrow> bytes" where
  "frame_bytes f = ftype f #
     (if ftype f = TypeHello then str_bytes (ActorID f)
      else if ftype f = TypeOpen then be_put 8 (SessionID f) @ str_bytes (Target f)
      else if ftype f = TypeAttach then
        be_put 8 (SessionID f) @ be_put 8 (Offset f) @ str_bytes (Target f)
      else if ftype f = TypeAttachOK \<or> ftype f = TypeAck then
        be_put 8 (SessionID f) @ be_put 8 (Offset f)
      else if ftype f = TypeData then
        be_put 8 (SessionID f) @ be_put 8 (Offset f)
          @ be_put 4 (of_nat (length (Payload f)) :: u32) @ Payload f
      else if ftype f = TypeClose then be_put 8 (SessionID f) @ Dir f # str_bytes (Reason f)
      else be_put 8 (Nonce f))"

definition known_type :: "frame \<Rightarrow> bool" where
  "known_type f \<longleftrightarrow> ftype f \<in> {1, 2, 3, 4, 5, 6, 7, 8, 9}"

text \<open>Frames the encoder accepts, and the wider set of frames the decoder can return.\<close>

definition encodable :: "frame \<Rightarrow> bool" where
  "encodable f \<longleftrightarrow> known_type f \<and>
     (ftype f = TypeHello \<longrightarrow> length (ActorID f) \<le> maxString) \<and>
     (ftype f = TypeOpen \<or> ftype f = TypeAttach \<longrightarrow> length (Target f) \<le> maxString) \<and>
     (ftype f = TypeData \<longrightarrow> length (Payload f) \<le> MaxPayload) \<and>
     (ftype f = TypeClose \<longrightarrow> length (Reason f) \<le> maxString)"

declare zero_frame_def [handler_defs] known_type_def [handler_defs] encodable_def [handler_defs]
  MaxPayload_def [handler_defs] maxString_def [handler_defs]

definition decodable :: "frame \<Rightarrow> bool" where
  "decodable f \<longleftrightarrow> known_type f \<and>
     (ftype f = TypeHello \<longrightarrow> length (ActorID f) < 2 ^ 16) \<and>
     (ftype f = TypeOpen \<or> ftype f = TypeAttach \<longrightarrow> length (Target f) < 2 ^ 16) \<and>
     (ftype f = TypeData \<longrightarrow> length (Payload f) \<le> MaxPayload) \<and>
     (ftype f = TypeClose \<longrightarrow> length (Reason f) < 2 ^ 16)"

text \<open>The fields a frame's type makes meaningful; the others are dropped on the wire.\<close>

definition norm_frame :: "frame \<Rightarrow> frame" where
  "norm_frame f = (let z = zero_frame\<lparr>ftype := ftype f\<rparr> in
     if ftype f = TypeHello then z\<lparr>ActorID := ActorID f\<rparr>
     else if ftype f = TypeOpen then z\<lparr>SessionID := SessionID f, Target := Target f\<rparr>
     else if ftype f = TypeAttach then
       z\<lparr>SessionID := SessionID f, Target := Target f, Offset := Offset f\<rparr>
     else if ftype f = TypeAttachOK \<or> ftype f = TypeAck then
       z\<lparr>SessionID := SessionID f, Offset := Offset f\<rparr>
     else if ftype f = TypeData then
       z\<lparr>SessionID := SessionID f, Offset := Offset f, Payload := Payload f\<rparr>
     else if ftype f = TypeClose then
       z\<lparr>SessionID := SessionID f, Dir := Dir f, Reason := Reason f\<rparr>
     else z\<lparr>Nonce := Nonce f\<rparr>)"

lemma encodable_decodable: "encodable f \<Longrightarrow> decodable f"
  by (auto simp: encodable_def decodable_def maxString_def)

subsection \<open>Decoding what was encoded\<close>

lemma getU32_put [simp]: "getU32 (on_bytes (be_put 4 v @ cs) r) = Inr (v, on_bytes cs r)"
  by (simp add: getU32_def)

lemma getU64_put [simp]: "getU64 (on_bytes (be_put 8 v @ cs) r) = Inr (v, on_bytes cs r)"
  by (simp add: getU64_def)

lemma unat_of_nat_less: "n < 2 ^ LENGTH('a) \<Longrightarrow> unat (of_nat n :: 'a::len word) = n"
  by (simp add: unat_of_nat)

lemma getString_put [simp]:
  assumes "length s < 2 ^ 16"
  shows "getString (on_bytes (str_bytes s @ cs) r) = Inr (s, on_bytes cs r)"
proof -
  have "unat (of_nat (length s) :: u16) = length (string_bytes s)"
    using assms by (simp add: unat_of_nat_less)
  then show ?thesis by (simp add: getString_def str_bytes_def)
qed

lemma payload_length [simp]: "n \<le> MaxPayload \<Longrightarrow> unat (of_nat n :: u32) = n"
  by (simp add: unat_of_nat_less MaxPayload_def)

lemma decode_frame_bytes:
  assumes "decodable f"
  shows "decodeFrame (on_bytes (frame_bytes f @ cs) r) = Inr (norm_frame f, on_bytes cs r)"
proof -
  have "ftype f \<in> {1, 2, 3, 4, 5, 6, 7, 8, 9}"
    using assms by (simp add: decodable_def known_type_def)
  then show ?thesis
    using assms
    by (auto simp: decodable_def decodeFrame_def decodeBody_def frame_bytes_def norm_frame_def zero_frame_def)
qed

lemma rdErr_Inr_iff: "rdErr m = Inr x \<longleftrightarrow> m = Inr x"
  by (cases m) simp_all

lemma getU32_InrD: "getU32 r = Inr (v, r') \<Longrightarrow> reads r (be_put 4 v) r'"
  by (auto simp: getU32_def bindE_Inr_iff rdErr_Inr_iff be_put_get dest!: ReadFull_InrD)

lemma getU64_InrD: "getU64 r = Inr (v, r') \<Longrightarrow> reads r (be_put 8 v) r'"
  by (auto simp: getU64_def bindE_Inr_iff rdErr_Inr_iff be_put_get dest!: ReadFull_InrD)

lemma getString_InrD:
  assumes "getString r = Inr (s, r')"
  shows "reads r (str_bytes s) r' \<and> length s < 2 ^ 16"
proof -
  obtain b r1 t where 1: "ReadFull 2 r = Inr (b, r1)"
    and 2: "ReadFull (unat (be_get b :: u16)) r1 = Inr (t, r')" and s: "s = bytes_string t"
    using assms by (auto simp: getString_def bindE_Inr_iff rdErr_Inr_iff)
  from ReadFull_InrD [OF 1] have r: "reads r b r1" and b: "length b = 2" by auto
  from ReadFull_InrD [OF 2] have r1: "reads r1 t r'" and t: "length t = unat (be_get b :: u16)"
    by auto
  have "be_put 2 (of_nat (length s) :: u16) = b"
    using t b s be_put_get [of b 2, where 'a = 16] by simp
  moreover have "length s < 2 ^ 16"
    using t s unsigned_less [of "be_get b :: u16"] by simp
  ultimately show ?thesis using reads_trans [OF r r1] s by (simp add: str_bytes_def)
qed

lemmas getD = getU32_InrD getU64_InrD getString_InrD ReadByte_InrD ReadFull_InrD

lemma bindE_InrE:
  assumes "bindE m f = Inr y" obtains x where "m = Inr x" "f x = Inr y"
  using assms by (auto simp: bindE_Inr_iff)

lemma decodeBody_sound:
  assumes "decodeBody t r = Inr (f, r')"
  shows "t # avail r = frame_bytes f @ avail r' \<and> final r = final r'
         \<and> decodable f \<and> norm_frame f = f"
proof -
  have "t \<in> {1, 2, 3, 4, 5, 6, 7, 8, 9}"
    using assms by (auto simp: decodeBody_def split: if_splits)
  then consider "t = 1" | "t = 2" | "t = 3" | "t = 4" | "t = 5" | "t = 6" | "t = 7" | "t = 8" | "t = 9"
    by blast
  then show ?thesis
    by cases (use assms in \<open>auto simp: decodeBody_def rdErr_Inr_iff frame_bytes_def decodable_def
      known_type_def norm_frame_def zero_frame_def reads_def
      split: if_splits elim!: bindE_InrE dest!: getD\<close>)
qed

lemma decode_sound:
  assumes "decodeFrame r = Inr (f, r')"
  shows "reads r (frame_bytes f) r' \<and> decodable f \<and> norm_frame f = f"
proof -
  obtain t r1 where 1: "ReadByte r = Inr (t, r1)" and 2: "decodeBody t r1 = Inr (f, r')"
    using assms by (auto simp: decodeFrame_def bindE_Inr_iff rdErr_Inr_iff)
  show ?thesis using ReadByte_InrD [OF 1] decodeBody_sound [OF 2] by (simp add: reads_def)
qed

lemma decode_consumes:
  "decodeFrame r = Inr (f, r') \<Longrightarrow> length (avail r') < length (avail r)"
  by (drule decode_sound) (simp add: reads_def frame_bytes_def)

subsection \<open>The writer emits the frame's bytes\<close>

text \<open>
  A healthy writer: no sticky error, and the buffered bytes fit the buffer. Writing to a
  live network keeps it healthy and extends its content by exactly the bytes written.
\<close>

definition healthy :: "bufw \<Rightarrow> bool" where
  "healthy w \<longleftrightarrow> \<not> stuck w \<and> length (pend w) \<le> bufSize"

definition content :: "bufw \<Rightarrow> bytes" where
  "content w = out w @ pend w"

definition wrote :: "bufw \<Rightarrow> bytes \<Rightarrow> bufw \<Rightarrow> bool" where
  "wrote w bs w' \<longleftrightarrow> healthy w' \<and> content w' = content w @ bs"

lemma bw_write_live:
  assumes "healthy w"
  obtains w' where "bw_write True w p = (w', True)" and "wrote w p w'"
proof -
  have "snd (bw_write True w p) \<and> wrote w p (fst (bw_write True w p))"
    using assms
    by (auto simp: bw_write_def bw_flush_def bw_direct_def wrote_def healthy_def content_def
          Let_def bufSize_def split: if_splits)
  then show ?thesis using that by (cases "bw_write True w p") auto
qed

lemma bw_flush_live: "healthy w \<Longrightarrow> bw_flush True w = (w\<lparr>out := content w, pend := []\<rparr>, True)"
  by (cases w) (auto simp: bw_flush_def healthy_def content_def)

lemma wrote_trans: "wrote w bs w1 \<Longrightarrow> wrote w1 cs w2 \<Longrightarrow> wrote w (bs @ cs) w2"
  by (simp add: wrote_def)

lemma wrote_healthy: "wrote w bs w' \<Longrightarrow> healthy w'"
  by (simp add: wrote_def)

lemma putU64_live: "healthy w \<Longrightarrow> wrote w (be_put 8 v) (putU64 True w v)"
  by (erule bw_write_live [of w "be_put 8 v"]) (simp add: putU64_def)

lemma putU32_live: "healthy w \<Longrightarrow> wrote w (be_put 4 v) (putU32 True w v)"
  by (erule bw_write_live [of w "be_put 4 v"]) (simp add: putU32_def)

lemma putString_live:
  assumes "healthy w" and "length s \<le> maxString"
  obtains w' where "putString True w s = (w', None)" and "wrote w (str_bytes s) w'"
proof -
  obtain w1 where 1: "bw_write True w (be_put 2 (of_nat (length s) :: u16)) = (w1, True)"
    and 2: "wrote w (be_put 2 (of_nat (length s) :: u16)) w1"
    using bw_write_live [OF assms(1)] by blast
  obtain w2 where 3: "bw_write True w1 (string_bytes s) = (w2, True)"
    and 4: "wrote w1 (string_bytes s) w2"
    using bw_write_live [OF wrote_healthy [OF 2]] by blast
  show ?thesis
    using that wrote_trans [OF 2 4] 1 3 assms(2)
    by (simp add: putString_def str_bytes_def err_of_def)
qed

lemma wrote_write:
  assumes "wrote w bs x" and "bw_write True x p = (y, ok)"
  shows "ok \<and> wrote w (bs @ p) y"
  using bw_write_live [OF wrote_healthy [OF assms(1)], of p] assms wrote_trans by fastforce

lemma wrote_U64: "wrote w bs x \<Longrightarrow> wrote w (bs @ be_put 8 v) (putU64 True x v)"
  using wrote_trans putU64_live wrote_healthy by blast

lemma wrote_U32: "wrote w bs x \<Longrightarrow> wrote w (bs @ be_put 4 v) (putU32 True x v)"
  using wrote_trans putU32_live wrote_healthy by blast

text \<open>An encoder call that succeeds, having appended \<open>bs\<close> to \<open>w\<close>.\<close>

definition emits :: "bufw \<times> wire_error option \<Rightarrow> bufw \<Rightarrow> bytes \<Rightarrow> bool" where
  "emits res w bs \<longleftrightarrow> snd res = None \<and> wrote w bs (fst res)"

lemma emits_string:
  "wrote w bs x \<Longrightarrow> length s \<le> maxString \<Longrightarrow> emits (putString True x s) w (bs @ str_bytes s)"
  by (rule putString_live [OF wrote_healthy, of w bs x s])
     (auto simp: emits_def dest: wrote_trans)

lemma encodeFrame_live:
  assumes "healthy w" and "encodable f"
  shows "emits (encodeFrame True w f) w (frame_bytes f)"
proof -
  obtain x where x: "bw_write True w [ftype f] = (x, True)" and w: "wrote w [ftype f] x"
    using bw_write_live [OF assms(1)] by blast
  note u64 = wrote_U64 [OF w, of "SessionID f"]
  note off = wrote_U64 [OF u64, of "Offset f"]
  note len = wrote_U32 [OF off, of "of_nat (length (Payload f))"]
  have "ftype f \<in> {1, 2, 3, 4, 5, 6, 7, 8, 9}"
    using assms(2) by (simp add: encodable_def known_type_def)
  then consider "ftype f = 1" | "ftype f = 2" | "ftype f = 3" | "ftype f = 4 \<or> ftype f = 6"
    | "ftype f = 5" | "ftype f = 7" | "ftype f = 8 \<or> ftype f = 9" by blast
  then show ?thesis
  proof cases
    case 1
    then show ?thesis using x assms(2) emits_string [OF w, of "ActorID f"]
      by (simp add: encodeFrame_def frame_bytes_def encodable_def)
  next
    case 2
    then show ?thesis using x assms(2) emits_string [OF u64, of "Target f"]
      by (simp add: encodeFrame_def frame_bytes_def encodable_def)
  next
    case 3
    then show ?thesis using x assms(2) emits_string [OF off, of "Target f"]
      by (simp add: encodeFrame_def frame_bytes_def encodable_def)
  next
    case 4
    then show ?thesis using x off
      by (auto simp: encodeFrame_def frame_bytes_def emits_def)
  next
    case 5
    then show ?thesis using x assms(2) wrote_write [OF len]
      by (auto simp: encodeFrame_def frame_bytes_def encodable_def emits_def err_of_def split: prod.splits)
  next
    case 6
    obtain y where y: "bw_write True (putU64 True x (SessionID f)) [Dir f] = (y, True)"
      and yw: "wrote w (([ftype f] @ be_put 8 (SessionID f)) @ [Dir f]) y"
      using wrote_write [OF u64] by (metis surj_pair)
    show ?thesis using 6 x y assms(2) emits_string [OF yw, of "Reason f"]
      by (simp add: encodeFrame_def frame_bytes_def encodable_def)
  next
    case 7
    then show ?thesis using x wrote_U64 [OF w, of "Nonce f"]
      by (auto simp: encodeFrame_def frame_bytes_def emits_def)
  qed
qed

lemma WriteFrame_live:
  assumes "healthy w" and "encodable f"
  shows "WriteFrame True w f = (w\<lparr>out := content w @ frame_bytes f, pend := []\<rparr>, None)"
proof -
  obtain w' where 1: "encodeFrame True w f = (w', None)" and 2: "wrote w (frame_bytes f) w'"
    using encodeFrame_live [OF assms] by (cases "encodeFrame True w f") (auto simp: emits_def)
  have "bw_flush True w' = (w\<lparr>out := content w @ frame_bytes f, pend := []\<rparr>, True)"
    using 2 assms(1) by (cases w; cases w') (simp add: bw_flush_live wrote_def healthy_def)
  then show ?thesis using 1 by (simp add: WriteFrame_def err_of_def)
qed

lemma not_encodable_cases:
  assumes "\<not> encodable f"
  obtains "\<not> known_type f"
    | "ftype f = 1" "maxString < length (ActorID f)"
    | "ftype f = 2" "maxString < length (Target f)"
    | "ftype f = 3" "maxString < length (Target f)"
    | "ftype f = 5" "MaxPayload < length (Payload f)"
    | "ftype f = 7" "maxString < length (Reason f)"
  using assms unfolding encodable_def by fastforce

lemma WriteFrame_rejected:
  assumes "healthy w" and "\<not> encodable f"
  shows "snd (WriteFrame True w f) \<noteq> None"
proof -
  obtain x where x: "bw_write True w [ftype f] = (x, True)" and w: "wrote w [ftype f] x"
    using bw_write_live [OF assms(1)] by blast
  obtain y where y: "bw_write True (putU64 True x (SessionID f)) [Dir f] = (y, True)"
    using wrote_write [OF wrote_U64 [OF w]] by (metis surj_pair)
  have "snd (encodeFrame True w f) \<noteq> None"
    using assms(2)
    by (cases rule: not_encodable_cases)
       (use x y in \<open>simp_all add: encodeFrame_def known_type_def putString_def\<close>)
  then show ?thesis by (cases "encodeFrame True w f") (auto simp: WriteFrame_def)
qed

subsection \<open>Frame loops\<close>

text \<open>
  Both ends run \<^verbatim>\<open>for { f, err := ReadFrame(); if err != nil { return err }; ... }\<close>:
  the frames a connection yields, and the error that ends the loop.
\<close>

function readFrames :: "reader \<Rightarrow> frame list \<times> wire_error" where
  "readFrames r =
     (case ReadFrame r of
        Inl e \<Rightarrow> ([], e)
      | Inr (f, r') \<Rightarrow> (let (fs, e) = readFrames r' in (f # fs, e)))"
  by pat_completeness auto
termination
  by (relation "measure (\<lambda>r. length (avail r))") (auto simp: ReadFrame_def dest: decode_consumes)

declare readFrames.simps [simp del]

fun writeFrames :: "bufw \<Rightarrow> frame list \<Rightarrow> bufw \<times> wire_error option" where
  "writeFrames w [] = (w, None)"
| "writeFrames w (f # fs) =
     (case WriteFrame True w f of (w1, Some e) \<Rightarrow> (w1, Some e) | (w1, None) \<Rightarrow> writeFrames w1 fs)"

lemma writeFrames_live:
  "healthy w \<Longrightarrow> pend w = [] \<Longrightarrow> \<forall>f \<in> set fs. encodable f \<Longrightarrow>
   writeFrames w fs = (w\<lparr>out := out w @ concat (map frame_bytes fs)\<rparr>, None)"
proof (induction fs arbitrary: w)
  case Nil
  then show ?case by simp
next
  case (Cons f fs)
  have w: "WriteFrame True w f = (w\<lparr>out := out w @ frame_bytes f\<rparr>, None)"
    using Cons.prems by (cases w) (simp add: WriteFrame_live content_def)
  have "healthy (w\<lparr>out := out w @ frame_bytes f\<rparr>)" using Cons.prems(1) by (simp add: healthy_def)
  then show ?case using Cons w by simp
qed

lemma readFrames_bytes:
  "\<forall>f \<in> set fs. decodable f \<Longrightarrow>
   readFrames (on_bytes (concat (map frame_bytes fs)) r) = (map norm_frame fs, ReadErr (final r))"
proof (induction fs)
  case Nil
  show ?case by (subst readFrames.simps) (simp add: ReadFrame_def decodeFrame_def ReadByte_def)
next
  case (Cons f fs)
  then show ?case by (subst readFrames.simps) (simp add: ReadFrame_def decode_frame_bytes)
qed

section \<open>Properties\<close>

text \<open>
  C19. Frames written one after the other on a fresh tunnel connection are all accepted, and
  the peer's frame loop reads back exactly those frames in order (each with the fields its
  type carries), then ends with the connection's final error. No frame is lost, split,
  merged or reordered by the codec.
\<close>

theorem conn_roundtrip:
  assumes "\<forall>f \<in> set fs. encodable f"
  shows "snd (writeFrames NewConn fs) = None \<and>
    readFrames \<lparr>avail = out (fst (writeFrames NewConn fs)), final = e\<rparr> = (map norm_frame fs, ReadErr e)"
proof -
  have "healthy NewConn" and "pend NewConn = []" and "out NewConn = []"
    by (simp_all add: NewConn_def healthy_def)
  then have "writeFrames NewConn fs = (NewConn\<lparr>out := concat (map frame_bytes fs)\<rparr>, None)"
    using writeFrames_live assms by simp
  then show ?thesis
    using readFrames_bytes [of fs "\<lparr>avail = [], final = e\<rparr>"] assms encodable_decodable by simp
qed

theorem conn_roundtrip_witness:
  "snd (writeFrames NewConn [zero_frame\<lparr>ftype := 8, Nonce := 42\<rparr>]) = None \<and>
    readFrames \<lparr>avail = out (fst (writeFrames NewConn [zero_frame\<lparr>ftype := 8, Nonce := 42\<rparr>])), final = EOF\<rparr>
      = ([zero_frame\<lparr>ftype := 8, Nonce := 42\<rparr>], ReadErr EOF)"
  using conn_roundtrip [of "[zero_frame\<lparr>ftype := 8, Nonce := 42\<rparr>]" EOF]
  by (simp add: encodable_def known_type_def norm_frame_def zero_frame_def)

text \<open>
  On a live connection \<^verbatim>\<open>WriteFrame\<close> succeeds exactly for the frames within the
  protocol's limits (a known type, strings of at most 4096 bytes, a payload of at most
  256 KiB), and a successful write hands the network the frame's bytes and leaves nothing
  buffered.
\<close>

lemma WriteFrame_ok_iff:
  assumes "healthy w"
  shows "(snd (WriteFrame True w f) = None \<longleftrightarrow> encodable f) \<and>
    (encodable f \<longrightarrow> out (fst (WriteFrame True w f)) = out w @ pend w @ frame_bytes f
       \<and> pend (fst (WriteFrame True w f)) = [])"
  using WriteFrame_live [OF assms, of f] WriteFrame_rejected [OF assms, of f]
  by (cases "encodable f") (simp_all add: content_def)

subsection \<open>Frames over the size limit\<close>

text \<open>
  The encoder checks the payload limit after it has buffered the type, session and offset.
  The error leaves these 17 bytes in the writer, and the next frame follows them.
\<close>

definition data_header :: "frame \<Rightarrow> bytes" where
  "data_header f = ftype f # be_put 8 (SessionID f) @ be_put 8 (Offset f)"

lemma WriteFrame_oversize:
  assumes "healthy w" and "pend w = []" and "ftype f = TypeData" and "length (Payload f) > MaxPayload"
  shows "WriteFrame True w f = (w\<lparr>pend := data_header f\<rparr>, Some (PayloadExceeds (length (Payload f))))"
  using assms
  by (simp add: WriteFrame_def encodeFrame_def bw_write_def putU64_def healthy_def bufSize_def
      data_header_def)

lemma be_get_high:
  assumes "length bs = 4" and "hd bs \<noteq> 0"
  shows "MaxPayload < unat (be_get bs :: u32)"
proof -
  let ?v = "be_get bs :: u32"
  have "be_put (Suc 3) ?v = bs" using assms(1) by (intro be_put_get) simp_all
  moreover have "hd (be_put (Suc 3) ?v) = ucast (drop_bit 24 ?v)" by (subst be_put.simps) simp
  ultimately have "hd bs = ucast (drop_bit 24 ?v)" by simp
  then have "drop_bit 24 ?v \<noteq> 0" using assms(2) by auto
  then have "unat ?v div 2 ^ 24 \<noteq> 0"
    by (metis unat_drop_bit_eq drop_bit_eq_div unsigned_0 word_unat_eq_iff)
  then show ?thesis by (simp add: MaxPayload_def)
qed

lemma decode_desync:
  assumes "encodable g" and "4 \<le> length (frame_bytes g)" and "ftype f = TypeData"
  shows "\<exists>n. decodeFrame (on_bytes (data_header f @ frame_bytes g @ cs) r) = Inl (PayloadExceeds n)"
proof -
  obtain bs ds where g: "frame_bytes g @ cs = bs @ ds" and bs: "length bs = 4" "bs = take 4 (frame_bytes g)"
    using assms(2) by (metis append_assoc append_take_drop_id length_take min.absorb2)
  have "hd bs = ftype g" using bs(2) by (simp add: frame_bytes_def)
  then have "MaxPayload < unat (be_get bs :: u32)"
    using assms(1) bs(1) by (intro be_get_high) (auto simp: encodable_def known_type_def)
  then show ?thesis
    using assms(3) bs(1)
    by (simp add: g data_header_def decodeFrame_def decodeBody_def getU32_def)
qed

text \<open>
  C34. A DATA frame over the 256 KiB limit is refused, but its 17 header bytes stay in the
  connection's write buffer: the next frame that is written goes out behind them with no
  error, and the peer's decoder then fails on the joined bytes with a payload-size error,
  which ends the tunnel connection.
\<close>

theorem oversize_frame_breaks_connection:
  assumes "healthy w" and "pend w = []"
    and "ftype f = TypeData" and "length (Payload f) > MaxPayload"
    and "encodable g" and "4 \<le> length (frame_bytes g)"
  defines "w1 \<equiv> fst (WriteFrame True w f)"
  shows "snd (WriteFrame True w f) = Some (PayloadExceeds (length (Payload f)))
    \<and> snd (WriteFrame True w1 g) = None
    \<and> out (fst (WriteFrame True w1 g)) = out w @ data_header f @ frame_bytes g
    \<and> (\<exists>n. decodeFrame (on_bytes (data_header f @ frame_bytes g @ cs) r) = Inl (PayloadExceeds n))"
proof -
  have w1: "w1 = w\<lparr>pend := data_header f\<rparr>"
    unfolding w1_def using WriteFrame_oversize [OF assms(1-4)] by simp
  have "healthy w1" using assms(1) by (simp add: w1 healthy_def data_header_def bufSize_def)
  then have "WriteFrame True w1 g = (w1\<lparr>out := content w1 @ frame_bytes g, pend := []\<rparr>, None)"
    using assms(5) by (rule WriteFrame_live)
  then show ?thesis
    using WriteFrame_oversize [OF assms(1-4)] decode_desync [OF assms(5,6,3)] w1
    by (simp add: content_def)
qed

theorem oversize_frame_breaks_connection_witness:
  "\<exists>f g. ftype f = TypeData \<and> length (Payload f) = MaxPayload + 1 \<and>
     snd (WriteFrame True NewConn f) = Some (PayloadExceeds (MaxPayload + 1)) \<and>
     out (fst (WriteFrame True (fst (WriteFrame True NewConn f)) g)) = data_header f @ frame_bytes g \<and>
     (\<exists>n. decodeFrame \<lparr>avail = data_header f @ frame_bytes g, final = EOF\<rparr> = Inl (PayloadExceeds n))"
proof -
  let ?f = "zero_frame\<lparr>ftype := 5, Payload := replicate (MaxPayload + 1) 0\<rparr>"
  let ?g = "zero_frame\<lparr>ftype := 8, Nonce := 1\<rparr>"
  have "healthy NewConn" "pend NewConn = []" "out NewConn = []" "ftype ?f = TypeData"
    "MaxPayload < length (Payload ?f)" "encodable ?g" "4 \<le> length (frame_bytes ?g)"
    by (simp_all add: NewConn_def healthy_def encodable_def known_type_def frame_bytes_def)
  then show ?thesis
    using oversize_frame_breaks_connection [of NewConn ?f ?g "[]" "\<lparr>avail = [], final = EOF\<rparr>"]
    by (intro exI [of _ ?f] exI [of _ ?g]) simp
qed

end
