(* ===== verification/Replay_Buffer.thy ===== *)
theory Replay_Buffer
  imports Prelude
begin

text \<open>
  The replay buffer of \<^verbatim>\<open>internal/tunnel/buffer.go\<close>: one direction of a session's
  unacknowledged bytes, addressed by cumulative stream offset. The locale
  \<open>retained_stream\<close> is the contract the two session components use; the buffer is shown
  to meet it.
\<close>

section \<open>The buffer\<close>

record replay_buffer =
  base :: u64
  buf :: bytes
  rmax :: int

datatype rb_error = ErrFull | AlreadyAcked u64 u64 | BeyondEnd u64 u64

definition NewReplayBuffer :: "int \<Rightarrow> replay_buffer" where
  "NewReplayBuffer m = \<lparr>base = 0, buf = [], rmax = m\<rparr>"

definition Append :: "replay_buffer \<Rightarrow> bytes \<Rightarrow> rb_error + replay_buffer" where
  "Append b p = (if int (length (buf b)) + int (length p) > rmax b then Inl ErrFull
                 else Inr (b\<lparr>buf := buf b @ p\<rparr>))"

definition Free :: "replay_buffer \<Rightarrow> int" where
  "Free b = rmax b - int (length (buf b))"

definition Len :: "replay_buffer \<Rightarrow> int" where
  "Len b = int (length (buf b))"

definition Base :: "replay_buffer \<Rightarrow> u64" where
  "Base b = base b"

definition End :: "replay_buffer \<Rightarrow> u64" where
  "End b = base b + of_nat (length (buf b))"

definition TrimTo :: "replay_buffer \<Rightarrow> u64 \<Rightarrow> replay_buffer" where
  "TrimTo b offset =
     (if offset \<le> base b then b
      else if offset \<ge> End b then b\<lparr>base := End b, buf := []\<rparr>
      else (let n = offset - base b in b\<lparr>buf := drop (unat n) (buf b), base := offset\<rparr>))"

definition From :: "replay_buffer \<Rightarrow> u64 \<Rightarrow> rb_error + bytes" where
  "From b offset =
     (if offset < base b then Inl (AlreadyAcked offset (base b))
      else if offset > End b then Inl (BeyondEnd offset (End b))
      else Inr (drop (unat (offset - base b)) (buf b)))"

declare NewReplayBuffer_def [handler_defs] Append_def [handler_defs] Free_def [handler_defs]
  Len_def [handler_defs] End_def [handler_defs] TrimTo_def [handler_defs] From_def [handler_defs]

section \<open>The contract\<close>

text \<open>
  \<open>retains b S\<close>: \<open>S\<close> is everything ever appended to \<open>b\<close>, and \<open>b\<close> still holds the part
  of it from offset \<open>first b\<close> on.
\<close>

locale retained_stream =
  fixes retains :: "'b \<Rightarrow> bytes \<Rightarrow> bool"
    and append :: "'b \<Rightarrow> bytes \<Rightarrow> 'e + 'b"
    and trim :: "'b \<Rightarrow> u64 \<Rightarrow> 'b"
    and replay :: "'b \<Rightarrow> u64 \<Rightarrow> 'e + bytes"
    and first :: "'b \<Rightarrow> nat"
  assumes append_retains:
      "retains b S \<Longrightarrow> append b p = Inr b' \<Longrightarrow> length S + length p < 2 ^ 64 \<Longrightarrow>
         retains b' (S @ p) \<and> first b' = first b"
    and trim_retains: "retains b S \<Longrightarrow> retains (trim b off) S"
    and trim_first: "retains b S \<Longrightarrow> first (trim b off) = max (first b) (min (unat off) (length S))"
    and replay_suffix:
      "retains b S \<Longrightarrow> first b \<le> unat off \<Longrightarrow> unat off \<le> length S \<Longrightarrow> replay b off = Inr (drop (unat off) S)"
    and replay_fails: "retains b S \<Longrightarrow> unat off < first b \<or> length S < unat off \<Longrightarrow> isl (replay b off)"
    and first_le: "retains b S \<Longrightarrow> first b \<le> length S"
begin

lemma trim_replay:
  assumes "retains b S" and "first b \<le> unat off" and "unat off \<le> length S"
  shows "replay (trim b off) off = Inr (drop (unat off) S)"
  using assms trim_retains [OF assms(1)] trim_first [OF assms(1)]
  by (intro replay_suffix) (auto simp: max_def min_def)

lemma trim_keeps_unconfirmed:
  assumes "retains b S" and "unat ack \<le> unat off" and "first b \<le> unat off" and "unat off \<le> length S"
  shows "replay (trim b ack) off = Inr (drop (unat off) S)"
  using assms trim_retains [OF assms(1)] trim_first [OF assms(1)] by (intro replay_suffix) auto

lemma replay_InrD:
  assumes "retains b S" and "replay b off = Inr p"
  shows "p = drop (unat off) S \<and> first b \<le> unat off \<and> unat off \<le> length S"
proof -
  have "\<not> (unat off < first b \<or> length S < unat off)"
    using replay_fails [OF assms(1)] assms(2) by fastforce
  then show ?thesis using replay_suffix [OF assms(1), of off] assms(2) by auto
qed

lemma trim_trim:
  assumes "retains b S"
  shows "first (trim (trim b x) y) = first (trim (trim b y) x)"
  using trim_first [OF assms] trim_first [OF trim_retains [OF assms]] by auto

end

section \<open>The buffer meets the contract\<close>

definition rb_retains :: "replay_buffer \<Rightarrow> bytes \<Rightarrow> bool" where
  "rb_retains b S \<longleftrightarrow> length S < 2 ^ 64 \<and> unat (base b) \<le> length S \<and> buf b = drop (unat (base b)) S"

definition rb_first :: "replay_buffer \<Rightarrow> nat" where
  "rb_first b = unat (base b)"

lemma unat_End: "rb_retains b S \<Longrightarrow> unat (End b) = length S"
proof -
  assume b: "rb_retains b S"
  then have "unat (base b) + length (buf b) = length S" by (simp add: rb_retains_def)
  moreover have "length S < 2 ^ 64" using b by (simp add: rb_retains_def)
  ultimately show ?thesis by (simp add: End_def unat_word_ariths unat_of_nat)
qed

lemma TrimTo_retains:
  assumes "rb_retains b S"
  shows "rb_retains (TrimTo b off) S \<and> rb_first (TrimTo b off) = max (rb_first b) (min (unat off) (length S))"
  using assms unat_End [OF assms] unat_sub [of "base b" off]
  by (auto simp: TrimTo_def rb_retains_def rb_first_def Let_def word_le_nat_alt not_le)

lemma From_suffix:
  assumes "rb_retains b S" and "rb_first b \<le> unat off" and "unat off \<le> length S"
  shows "From b off = Inr (drop (unat off) S)"
  using assms unat_End [OF assms(1)] unat_sub [of "base b" off]
  by (auto simp: From_def rb_retains_def rb_first_def word_le_nat_alt word_less_nat_alt)

interpretation rb: retained_stream rb_retains Append TrimTo From rb_first
proof unfold_locales
  show "rb_retains b' (S @ p) \<and> rb_first b' = rb_first b"
    if "rb_retains b S" "Append b p = Inr b'" "length S + length p < 2 ^ 64" for b S p b'
    using that by (auto simp: Append_def rb_retains_def rb_first_def split: if_splits)
  show "isl (From b off)" if "rb_retains b S" "unat off < rb_first b \<or> length S < unat off" for b S off
    using that unat_End [OF that(1)] by (auto simp: From_def rb_first_def word_less_nat_alt)
  show "rb_first b \<le> length S" if "rb_retains b S" for b S
    using that by (simp add: rb_retains_def rb_first_def)
qed (use TrimTo_retains From_suffix in blast)+

lemmas rb_facts = rb.append_retains rb.trim_retains rb.trim_first rb.replay_suffix rb.first_le

lemma NewReplayBuffer_retains [simp]: "rb_retains (NewReplayBuffer m) []"
  by (simp add: rb_retains_def NewReplayBuffer_def)

lemma rb_first_New [simp]: "rb_first (NewReplayBuffer m) = 0"
  by (simp add: rb_first_def NewReplayBuffer_def)

lemma rmax_TrimTo [simp]: "rmax (TrimTo b off) = rmax b"
  by (simp add: TrimTo_def Let_def)

lemma Len_TrimTo: "Len (TrimTo b off) \<le> Len b"
  by (simp add: TrimTo_def Len_def Let_def)

lemma Append_InrD: "Append b p = Inr b' \<Longrightarrow> Len b' = Len b + int (length p) \<and> Len b' \<le> rmax b' \<and> rmax b' = rmax b"
  by (auto simp: Append_def Len_def split: if_splits)

lemma Append_fits: "int (length p) \<le> Free b \<Longrightarrow> Append b p = Inr (b\<lparr>buf := buf b @ p\<rparr>)"
  by (simp add: Append_def Free_def)

lemma Len_retains: "rb_retains b S \<Longrightarrow> Len b = int (length S) - int (rb_first b)"
  by (simp add: rb_retains_def rb_first_def Len_def of_nat_diff)

lemma Len_zero_iff: "rb_retains b S \<Longrightarrow> Len b = 0 \<longleftrightarrow> rb_first b = length S"
  using rb.first_le by (fastforce simp: Len_retains)

section \<open>Runs of buffer operations\<close>

datatype rb_op = OpAppend bytes | OpTrim u64

text \<open>An operation on the buffer together with the stream of all accepted bytes.\<close>

fun rb_step :: "replay_buffer \<times> bytes \<Rightarrow> rb_op \<Rightarrow> replay_buffer \<times> bytes" where
  "rb_step (b, S) (OpAppend p) = (case Append b p of Inl _ \<Rightarrow> (b, S) | Inr b' \<Rightarrow> (b', S @ p))"
| "rb_step (b, S) (OpTrim off) = (TrimTo b off, S)"

lemma rb_step_stream_mono: "prefix S (snd (rb_step (b, S) op))"
  by (cases op) (auto split: sum.splits)

lemma rb_step_keeps:
  assumes "rb_retains b S" and "Len b \<le> rmax b" and "rb_step (b, S) op = (b', S')" and "length S' < 2 ^ 64"
  shows "rb_retains b' S' \<and> Len b' \<le> rmax b' \<and> rmax b' = rmax b"
proof (cases op)
  case (OpAppend p)
  then show ?thesis
    using assms rb.append_retains [OF assms(1)] Append_InrD [of b p] by (auto split: sum.splits)
next
  case (OpTrim off)
  then show ?thesis
    using assms rb.trim_retains [OF assms(1)] Len_TrimTo [of b off] by auto
qed

lemma rb_run_prefix: "prefix S (snd (foldl rb_step (b, S) ops))"
proof (induction ops arbitrary: b S)
  case Nil
  show ?case by simp
next
  case (Cons op ops)
  then show ?case
    using rb_step_stream_mono [of S b op] by (cases "rb_step (b, S) op") (auto intro: prefix_order.trans)
qed

lemma rb_run_keeps:
  "rb_retains b S \<Longrightarrow> Len b \<le> rmax b \<Longrightarrow> foldl rb_step (b, S) ops = (b', S') \<Longrightarrow> length S' < 2 ^ 64 \<Longrightarrow>
   rb_retains b' S' \<and> Len b' \<le> rmax b' \<and> rmax b' = rmax b"
proof (induction ops arbitrary: b S)
  case Nil
  then show ?case by simp
next
  case (Cons op ops)
  obtain b1 S1 where 1: "rb_step (b, S) op = (b1, S1)" by fastforce
  have "prefix S1 S'" using rb_run_prefix [of S1 b1 ops] Cons.prems(3) 1 by simp
  then have "length S1 < 2 ^ 64" using Cons.prems(4) prefix_length_le le_less_trans by blast
  then show ?case using rb_step_keeps [OF Cons.prems(1,2) 1] Cons.IH [of b1 S1] Cons.prems 1 by simp
qed

section \<open>Properties\<close>

text \<open>
  C18. After any sequence of appends and trims on a new buffer (fewer than \<open>2 ^ 64\<close> bytes in
  all), the buffer holds at most \<open>m\<close> bytes, \<^verbatim>\<open>End\<close> is the number of bytes ever
  accepted, and a replay from an offset returns exactly the accepted stream from that offset
  on when the offset lies between the first retained byte and the end, and an error otherwise.
\<close>

theorem replay_buffer_refines_stream:
  assumes "0 \<le> m" and "foldl rb_step (NewReplayBuffer m, []) ops = (b, S)" and "length S < 2 ^ 64"
  shows "0 \<le> Len b \<and> Len b \<le> m \<and> Free b = m - Len b \<and> unat (End b) = length S \<and>
    (if unat (Base b) \<le> unat off \<and> unat off \<le> length S then From b off = Inr (drop (unat off) S)
     else isl (From b off))"
proof -
  have b: "rb_retains b S \<and> Len b \<le> rmax b \<and> rmax b = m"
    using rb_run_keeps [OF NewReplayBuffer_retains _ assms(2,3)] assms(1)
    by (simp add: Len_def NewReplayBuffer_def)
  then show ?thesis
    using unat_End [of b S] rb.replay_suffix [of b S off] rb.replay_fails [of b S off]
    by (auto simp: Len_def Free_def Base_def rb_first_def not_le)
qed

theorem replay_buffer_refines_stream_witness:
  "From (TrimTo \<lparr>base = 0, buf = [104, 101, 108, 108, 111], rmax = 10\<rparr> 3) 4 = Inr [111] \<and>
   isl (From (TrimTo \<lparr>base = 0, buf = [104, 101, 108, 108, 111], rmax = 10\<rparr> 3) 2)"
  using replay_buffer_refines_stream [of 10 "[OpAppend [104, 101, 108, 108, 111], OpTrim 3]"
      "TrimTo \<lparr>base = 0, buf = [104, 101, 108, 108, 111], rmax = 10\<rparr> 3" "[104, 101, 108, 108, 111]" 4]
    replay_buffer_refines_stream [of 10 "[OpAppend [104, 101, 108, 108, 111], OpTrim 3]"
      "TrimTo \<lparr>base = 0, buf = [104, 101, 108, 108, 111], rmax = 10\<rparr> 3" "[104, 101, 108, 108, 111]" 2]
  by (simp add: NewReplayBuffer_def Append_def TrimTo_def Base_def End_def)

text \<open>
  Acknowledgements may arrive late, twice or out of order: trimming to two offsets in
  either order keeps the same bytes, and an acknowledgement at or below the replay offset
  never removes a byte the replay needs.
\<close>

lemma trim_order_irrelevant:
  assumes "rb_retains b S"
  shows "TrimTo (TrimTo b x) y = TrimTo (TrimTo b y) x \<and>
    (unat x \<le> unat off \<and> rb_first b \<le> unat off \<and> unat off \<le> length S \<longrightarrow>
       From (TrimTo b x) off = Inr (drop (unat off) S))"
proof -
  have eq: "b1 = b2" if "rb_retains b1 S" "rb_retains b2 S" "rb_first b1 = rb_first b2" "rmax b1 = rmax b2" for b1 b2
    using that by (cases b1; cases b2) (simp add: rb_retains_def rb_first_def word_unat_eq_iff)
  have "TrimTo (TrimTo b x) y = TrimTo (TrimTo b y) x"
    by (rule eq) (simp_all add: rb.trim_retains assms rb.trim_trim [OF assms, of x y])
  then show ?thesis using rb.trim_keeps_unconfirmed [OF assms, of x off] by blast
qed

end
