(* ===== verification/Stream_Receiver.thy ===== *)
theory Stream_Receiver
  imports Prelude
begin

text \<open>
  The receiving end of one direction of a session. Three places of the code accept DATA at
  a stream offset with the same rule (skip what was received, refuse a gap): the sidecar's
  \<^verbatim>\<open>deliverDown\<close>, and the broker's \<^verbatim>\<open>onData\<close> before and after the upstream
  is connected. The locale states the rule once and proves that it reassembles the stream
  from frames that arrive in any order and any number of times.
\<close>

section \<open>Slices of a stream\<close>

text \<open>The part of a payload at offset \<open>off\<close> that is new to a receiver of \<open>n\<close> bytes.\<close>

definition fresh :: "nat \<Rightarrow> nat \<Rightarrow> bytes \<Rightarrow> bytes" where
  "fresh n off p = (if off \<le> n then drop (n - off) p else [])"

definition slice :: "bytes \<Rightarrow> nat \<Rightarrow> bytes \<Rightarrow> bool" where
  "slice S off p \<longleftrightarrow> off + length p \<le> length S \<and> p = take (length p) (drop off S)"

lemma slice_append: "slice S off p \<Longrightarrow> slice (S @ T) off p"
  by (auto simp: slice_def)

lemma slice_drop: "n \<le> length S \<Longrightarrow> slice S n (drop n S)"
  by (simp add: slice_def)

lemma slice_end: "slice (S @ p) (length S) p"
  by (simp add: slice_def)

lemma length_fresh: "length (fresh n off p) = (if off \<le> n then length p - (n - off) else 0)"
  by (simp add: fresh_def)

lemma fresh_le: "length (fresh n off p) \<le> length p"
  by (auto simp: fresh_def)

lemma fresh_extends:
  assumes "slice S off p" and "n \<le> length S"
  shows "take n S @ fresh n off p = take (n + length (fresh n off p)) S"
    and "n + length (fresh n off p) \<le> length S"
proof -
  have p: "p = take (length p) (drop off S)" and le: "off + length p \<le> length S"
    using assms(1) by (auto simp: slice_def)
  show "n + length (fresh n off p) \<le> length S"
    using le assms(2) by (auto simp: length_fresh)
  show "take n S @ fresh n off p = take (n + length (fresh n off p)) S"
  proof (cases "off \<le> n")
    case True
    have "drop (n - off) p = take (length p - (n - off)) (drop n S)"
      using True by (subst p) (simp add: drop_take)
    then show ?thesis using True le by (simp add: fresh_def take_add min_def)
  next
    case False
    then show ?thesis by (simp add: fresh_def)
  qed
qed

text \<open>The offset arithmetic of the receivers, read on natural numbers.\<close>

lemma skip_arith:
  fixes off n :: u64
  assumes "length p < 2 ^ 64"
  shows "off < n \<Longrightarrow> of_nat (length p) \<le> n - off \<longleftrightarrow> drop (unat n - unat off) p = []"
    and "off < n \<Longrightarrow> unat (n - off) = unat n - unat off"
proof -
  show 1: "unat (n - off) = unat n - unat off" if "off < n"
    using that by (intro unat_sub) simp
  have "unat (of_nat (length p) :: u64) = length p" using assms by (simp add: unat_of_nat)
  then show "of_nat (length p) \<le> n - off \<longleftrightarrow> drop (unat n - unat off) p = []" if "off < n"
    using 1 [OF that] by (simp add: word_le_nat_alt)
qed

lemma unat_add_less: "unat (a :: u64) + n < 2 ^ 64 \<Longrightarrow> unat (a + of_nat n) = unat a + n"
  by (simp add: unat_word_ariths unat_of_nat)

text \<open>
  \<open>D\<close> has been passed on by a receiver that counts \<open>n\<close> bytes of the stream \<open>S\<close>; once its
  output has failed (\<open>b\<close>) only the prefix property is left.
\<close>

definition in_step :: "bytes \<Rightarrow> bytes \<Rightarrow> nat \<Rightarrow> bool \<Rightarrow> bool" where
  "in_step S D n b \<longleftrightarrow> prefix D S \<and> (\<not> b \<longrightarrow> D = take n S \<and> n \<le> length S)"

lemma in_step_mono: "in_step S D n b \<Longrightarrow> in_step (S @ T) D n b"
  by (auto simp: in_step_def)

lemma in_step_Nil [simp]: "in_step S [] 0 b"
  by (simp add: in_step_def)

section \<open>The receiver's contract\<close>

locale offset_receiver =
  fixes accept :: "u64 \<Rightarrow> bytes \<Rightarrow> 's \<Rightarrow> 's"
    and passed :: "u64 \<Rightarrow> bytes \<Rightarrow> 's \<Rightarrow> bytes"
    and received :: "'s \<Rightarrow> nat"
    and broken :: "'s \<Rightarrow> bool"
  assumes passed_fresh:
      "\<not> broken s \<Longrightarrow> received s + length p < 2 ^ 64 \<Longrightarrow> unat off + length p < 2 ^ 64 \<Longrightarrow>
         prefix (passed off p s) (fresh (received s) (unat off) p)"
    and broken_stays: "broken s \<Longrightarrow> passed off p s = [] \<and> broken (accept off p s)"
    and received_grows:
      "\<not> broken (accept off p s) \<Longrightarrow> received s + length p < 2 ^ 64 \<Longrightarrow> unat off + length p < 2 ^ 64 \<Longrightarrow>
         received (accept off p s) = received s + length (passed off p s)"
begin

lemma accept_in_step:
  assumes S: "slice S (unat off) p" and "received s + length p < 2 ^ 64" and "unat off + length p < 2 ^ 64"
    and inv: "in_step S D (received s) (broken s)"
  shows "in_step S (D @ passed off p s) (received (accept off p s)) (broken (accept off p s))"
proof (cases "broken s")
  case True
  then show ?thesis using inv broken_stays [OF True, of off p] by (simp add: in_step_def)
next
  case False
  then have D: "D = take (received s) S" and n: "received s \<le> length S"
    using inv by (auto simp: in_step_def)
  let ?q = "passed off p s"
  have q: "prefix ?q (fresh (received s) (unat off) p)"
    using False assms(2,3) by (rule passed_fresh)
  then obtain k where k: "?q = take k (fresh (received s) (unat off) p)" and kle: "length ?q = k"
    by (metis append_eq_conv_conj prefix_def)
  let ?F = "fresh (received s) (unat off) p"
  have F: "take (received s) S @ ?F = take (received s + length ?F) S" and
    Fle: "received s + length ?F \<le> length S"
    using fresh_extends [OF S n] by auto
  have kF: "k \<le> length ?F" using q kle prefix_length_le by fastforce
  have "D @ ?q = take (received s + k) (take (received s) S @ ?F)"
    using D k n by simp
  also have "\<dots> = take (received s + k) S" using F kF by simp
  finally have Dq: "D @ ?q = take (received s + length ?q) S" using kle by simp
  moreover have "received s + length ?q \<le> length S" using Fle kF kle by simp
  ultimately show ?thesis
    using received_grows [of off p s] assms(2,3) by (auto simp: in_step_def take_is_prefix)
qed

end

end
