(* ===== verification/Broker_Session.thy ===== *)
theory Broker_Session
  imports Wire Replay_Buffer Stream_Receiver
begin

text \<open>
  One session of the egress broker, \<^verbatim>\<open>internal/broker/session.go\<close>: the state of the
  \<^verbatim>\<open>session\<close> struct and one definition per method. A method runs under the session
  lock; it maps the state to the new state and the list of its effects in program order.
\<close>

section \<open>State, environment, effects\<close>

text \<open>
  What the outside world does during one method call: the time, whether the tunnel socket
  takes a frame, and whether the upstream socket takes a write (\<^const>\<open>None\<close>) or fails
  after \<open>k\<close> bytes (\<^term>\<open>Some k\<close>) with an error text.
\<close>

record env =
  clock :: int
  tun_ok :: "frame \<Rightarrow> bool"
  up_take :: "nat option"
  up_errtext :: string
  MaxSuspendWatchdog :: int

datatype effect =
    UpWrite bytes
  | UpCloseWrite
  | UpClose
  | TunnelWrite nat frame
  | WakeActor string string
  | RemoveSession
  | StartReader

text \<open>
  \<open>tconn\<close> is the tunnel connection the session is bound to, \<open>upstream\<close> whether the
  upstream connection is non-nil, \<open>watchdog\<close> the expiry of the armed timer.
  \<open>upBroken\<close> is the state of the upstream socket: a TCP connection that failed a write
  fails every later one.
\<close>

record session =
  actorID :: string
  sessionID :: u64
  target :: string
  tconn :: "nat option"
  upstream :: bool
  upBroken :: bool
  connected :: bool
  preConn :: bytes
  downBuf :: replay_buffer
  upstreamWritten :: u64
  requestOutstanding :: bool
  upClosed :: bool
  downClosed :: bool
  dead :: bool
  createdAt :: int
  watchdog :: "int option"

type_synonym handler = "session \<Rightarrow> session \<times> effect list"

text \<open>Sequential composition: the second method runs on the state the first one left.\<close>

definition andThen :: "session \<times> effect list \<Rightarrow> handler \<Rightarrow> session \<times> effect list" where
  "andThen m f = (let (s, es) = m; (s', es') = f s in (s', es @ es'))"

lemma fst_andThen [simp]: "fst (andThen m f) = fst (f (fst m))"
  by (simp add: andThen_def split: prod.splits)

lemma snd_andThen [simp]: "snd (andThen m f) = snd m @ snd (f (fst m))"
  by (simp add: andThen_def split: prod.splits)

section \<open>Methods\<close>

definition newSession :: "int \<Rightarrow> int \<Rightarrow> string \<Rightarrow> u64 \<Rightarrow> string \<Rightarrow> session" where
  "newSession SessionBufferBytes t actor sid tgt =
     \<lparr>actorID = actor, sessionID = sid, target = tgt, tconn = None, upstream = False,
      upBroken = False, connected = False, preConn = [],
      downBuf = NewReplayBuffer SessionBufferBytes, upstreamWritten = 0,
      requestOutstanding = False, upClosed = False, downClosed = False, dead = False,
      createdAt = t, watchdog = None\<rparr>"

definition bind :: "nat \<Rightarrow> session \<Rightarrow> session" where
  "bind tc s = s\<lparr>tconn := Some tc\<rparr>"

definition detach :: "nat \<Rightarrow> handler" where
  "detach tc s =
     (if tconn s \<noteq> Some tc then (s, [])
      else
        (let wake = requestOutstanding s \<and> (Len (downBuf s) > 0 \<or> downClosed s)
         in (s\<lparr>tconn := None\<rparr>,
             if wake then [WakeActor (actorID s) ''undelivered data on detach''] else [])))"

text \<open>\<^verbatim>\<open>tunnelConn.write\<close>: the encoder must accept the frame and the socket take it.\<close>

definition tc_write :: "env \<Rightarrow> frame \<Rightarrow> bool" where
  "tc_write e f \<longleftrightarrow> encodable f \<and> tun_ok e f"

definition sendToSidecar :: "env \<Rightarrow> frame \<Rightarrow> handler" where
  "sendToSidecar e f s =
     (case tconn s of
        None \<Rightarrow> (s, [])
      | Some tc \<Rightarrow> if tc_write e f then (s, [TunnelWrite tc f]) else detach tc s)"

definition destroy :: handler where
  "destroy s =
     (if dead s then (s, [])
      else (s\<lparr>dead := True, watchdog := None\<rparr>,
            (if upstream s then [UpClose] else []) @ [RemoveSession]))"

definition maybeDestroy :: handler where
  "maybeDestroy s =
     (if upClosed s \<and> downClosed s \<and> Len (downBuf s) = 0 then destroy s else (s, []))"

definition close_frame :: "u64 \<Rightarrow> string \<Rightarrow> frame" where
  "close_frame sid reason =
     zero_frame\<lparr>ftype := TypeClose, SessionID := sid, Dir := DirDown, Reason := reason\<rparr>"

definition ack_frame :: "u64 \<Rightarrow> u64 \<Rightarrow> frame" where
  "ack_frame sid off = zero_frame\<lparr>ftype := TypeAck, SessionID := sid, Offset := off\<rparr>"

definition data_frame :: "u64 \<Rightarrow> u64 \<Rightarrow> bytes \<Rightarrow> frame" where
  "data_frame sid off p =
     zero_frame\<lparr>ftype := TypeData, SessionID := sid, Offset := off, Payload := p\<rparr>"

definition attachok_frame :: "u64 \<Rightarrow> u64 \<Rightarrow> frame" where
  "attachok_frame sid off = zero_frame\<lparr>ftype := TypeAttachOK, SessionID := sid, Offset := off\<rparr>"

text \<open>The cause of an upstream close: \<^const>\<open>None\<close> for nil and \<^verbatim>\<open>io.EOF\<close>.\<close>

definition closeText :: "string option \<Rightarrow> string" where
  "closeText cause = (case cause of None \<Rightarrow> ''upstream EOF'' | Some t \<Rightarrow> t)"

definition closeUpstream :: "env \<Rightarrow> string option \<Rightarrow> handler" where
  "closeUpstream e cause s =
     (if downClosed s then (s, [])
      else
        (let s1 = s\<lparr>downClosed := True\<rparr>;
             pending = requestOutstanding s;
             bound = (tconn s \<noteq> None)
         in andThen
              (if bound then sendToSidecar e (close_frame (sessionID s) (closeText cause)) s1
               else if pending then (s1, [WakeActor (actorID s) ''upstream close on pending session''])
               else (s1, []))
              maybeDestroy))"

definition armWatchdogLocked :: "env \<Rightarrow> session \<Rightarrow> session" where
  "armWatchdogLocked e s = s\<lparr>watchdog := Some (clock e + MaxSuspendWatchdog e)\<rparr>"

definition watchdogFires :: handler where
  "watchdogFires s =
     (let s1 = s\<lparr>watchdog := None\<rparr>
      in (s1, if \<not> dead s \<and> requestOutstanding s \<and> tconn s = None
              then [WakeActor (actorID s) ''max-suspend watchdog''] else []))"

text \<open>\<^verbatim>\<open>upstream.Write\<close>: the socket state, the bytes it took, and whether it took all.\<close>

definition upWrite :: "env \<Rightarrow> bytes \<Rightarrow> session \<Rightarrow> session \<times> bytes \<times> bool" where
  "upWrite e p s =
     (if upBroken s then (s, [], False)
      else case up_take e of
             None \<Rightarrow> (s, p, True)
           | Some k \<Rightarrow> (s\<lparr>upBroken := True\<rparr>, take k p, False))"

text \<open>The part of \<^verbatim>\<open>onData\<close> after the write: commit the offset and acknowledge it.\<close>

definition commitUp :: "env \<Rightarrow> nat \<Rightarrow> handler" where
  "commitUp e n s =
     (let s1 = armWatchdogLocked e
                 (s\<lparr>upstreamWritten := upstreamWritten s + of_nat n, requestOutstanding := True\<rparr>)
      in sendToSidecar e (ack_frame (sessionID s) (upstreamWritten s1)) s1)"

definition writeUpstream :: "env \<Rightarrow> bytes \<Rightarrow> handler" where
  "writeUpstream e p s =
     (case upWrite e p s of
        (s1, q, False) \<Rightarrow> andThen (s1, [UpWrite q]) (closeUpstream e (Some (up_errtext e)))
      | (s1, q, True) \<Rightarrow> andThen (s1, [UpWrite q]) (commitUp e (length p)))"

definition onData :: "env \<Rightarrow> u64 \<Rightarrow> bytes \<Rightarrow> handler" where
  "onData e offset payload s =
     (if dead s then (s, [])
      else if \<not> connected s then
        (let accepted = upstreamWritten s + of_nat (length (preConn s))
         in if offset < accepted then
              (let skip = accepted - offset
               in if skip \<ge> of_nat (length payload) then (s, [])
                  else (s\<lparr>preConn := preConn s @ drop (unat skip) payload\<rparr>, []))
            else if offset > accepted then (s, [])
            else (s\<lparr>preConn := preConn s @ payload\<rparr>, []))
      else if offset < upstreamWritten s then
        (let skip = upstreamWritten s - offset
         in if skip \<ge> of_nat (length payload) then (s, [])
            else writeUpstream e (drop (unat skip) payload) s)
      else if offset > upstreamWritten s then (s, [])
      else writeUpstream e payload s)"

definition onDownstreamAck :: "u64 \<Rightarrow> session \<Rightarrow> session" where
  "onDownstreamAck offset s =
     (let b = TrimTo (downBuf s) offset
      in s\<lparr>downBuf := b,
           requestOutstanding := (if Len b = 0 then False else requestOutstanding s)\<rparr>)"

definition onSidecarAttach :: "env \<Rightarrow> u64 \<Rightarrow> handler" where
  "onSidecarAttach e deliveredOffset s =
     (let written = upstreamWritten s;
          replay = (case From (downBuf s) deliveredOffset of Inl _ \<Rightarrow> [] | Inr p \<Rightarrow> p);
          closed = (downClosed s \<and> End (downBuf s) = deliveredOffset + of_nat (length replay))
      in andThen
           (andThen
             (sendToSidecar e (attachok_frame (sessionID s) written) s)
             (\<lambda>s. if length replay > 0
                   then sendToSidecar e (data_frame (sessionID s) deliveredOffset replay) s
                   else (s, [])))
           (\<lambda>s. if closed then sendToSidecar e (close_frame (sessionID s) ''upstream EOF'') s
                 else (s, [])))"

definition onSidecarClose :: "u8 \<Rightarrow> handler" where
  "onSidecarClose d s =
     (if d \<noteq> DirUp then (s, [])
      else andThen (s\<lparr>upClosed := True\<rparr>, if upstream s then [UpCloseWrite] else []) maybeDestroy)"

subsection \<open>The upstream side: dialing and the reader goroutine\<close>

text \<open>
  \<^verbatim>\<open>dialUpstream\<close> takes the lock twice: once to publish the connection and take the
  bytes queued before it, and once after it has written them. The two critical sections
  are \<open>dialPublish\<close> and \<open>dialFlush\<close>; other methods can run between them.
\<close>

definition dialFailed :: "env \<Rightarrow> string \<Rightarrow> handler" where
  "dialFailed e err s =
     andThen (sendToSidecar e (close_frame (sessionID s) (''dial failed: '' @ err)) s) destroy"

definition dialPublish :: "env \<Rightarrow> session \<Rightarrow> session \<times> bytes" where
  "dialPublish e s =
     (armWatchdogLocked e (s\<lparr>upstream := True, connected := True, preConn := []\<rparr>), preConn s)"

definition dialFlush :: "env \<Rightarrow> bytes \<Rightarrow> handler" where
  "dialFlush e pre s =
     (if length pre > 0 then
        (case upWrite e pre s of
           (s1, q, False) \<Rightarrow> andThen (s1, [UpWrite q]) (closeUpstream e (Some (up_errtext e)))
         | (s1, q, True) \<Rightarrow>
             (let s2 = s1\<lparr>upstreamWritten := upstreamWritten s1 + of_nat (length pre),
                           requestOutstanding := True\<rparr>
              in andThen
                   (andThen (s2, [UpWrite q])
                     (sendToSidecar e (ack_frame (sessionID s2) (upstreamWritten s2))))
                   (\<lambda>s. (s, [StartReader]))))
      else (s, [StartReader]))"

definition dialUpstream :: "env \<Rightarrow> string option \<Rightarrow> handler" where
  "dialUpstream e result s =
     (case result of
        Some err \<Rightarrow> dialFailed e err s
      | None \<Rightarrow>
          if dead s then (s, [UpClose])
          else (let (s1, pre) = dialPublish e s in dialFlush e pre s1))"

text \<open>
  \<^verbatim>\<open>produceDownstream\<close> holds the lock until it returns or waits for buffer space; the
  bytes it still holds when it waits are the argument of \<open>Waiting\<close>. A negative buffer
  capacity makes the slice expression panic.
\<close>

datatype produce_result = Produced | Waiting bytes | SessionDead | AppendFailed rb_error | SlicePanic

definition forwardChunk :: "env \<Rightarrow> u64 \<Rightarrow> bytes \<Rightarrow> handler" where
  "forwardChunk e startOffset chunk s =
     (let (s1, es) =
            (case tconn s of
               None \<Rightarrow> (s, [])
             | Some tc \<Rightarrow>
                 (let f = data_frame (sessionID s) startOffset chunk
                  in if tc_write e f then (s, [TunnelWrite tc f]) else (s\<lparr>tconn := None\<rparr>, [])))
      in (s1, es @ (if tconn s1 = None \<and> requestOutstanding s1
                    then [WakeActor (actorID s) ''downstream data on pending session''] else [])))"

function produceDownstream :: "env \<Rightarrow> bytes \<Rightarrow> session \<Rightarrow> session \<times> effect list \<times> produce_result" where
  "produceDownstream e p s =
     (if p = [] then (s, [], Produced)
      else if dead s then (s, [], SessionDead)
      else
        (let free = Free (downBuf s)
         in if free = 0 then (s, [], Waiting p)
            else if free < 0 then (s, [], SlicePanic)
            else
              (let n = nat (min (int (length p)) free);
                   chunk = take n p;
                   startOffset = End (downBuf s)
               in case Append (downBuf s) chunk of
                    Inl err \<Rightarrow> (s, [], AppendFailed err)
                  | Inr b \<Rightarrow>
                      (let (s1, es) = forwardChunk e startOffset chunk (s\<lparr>downBuf := b\<rparr>);
                           (s2, es2, r) = produceDownstream e (drop n p) s1
                       in (s2, es @ es2, r)))))"
  by pat_completeness auto
termination
  by (relation "measure (\<lambda>(e, p, s). length p)") auto

declare produceDownstream.simps [simp del]

text \<open>
  One turn of \<^verbatim>\<open>readUpstreamLoop\<close>: \<open>p\<close> are the bytes read (or still held by a waiting
  producer) and \<open>err\<close> the read error, if any. The loop goes on, waits, or stops.
\<close>

datatype reader_state = Reading | Holding bytes "string option option" | Stopped

definition readUpstreamTurn ::
  "env \<Rightarrow> bytes \<Rightarrow> string option option \<Rightarrow> session \<Rightarrow> session \<times> effect list \<times> reader_state" where
  "readUpstreamTurn e p err s =
     (case produceDownstream e p s of
        (s1, es, Produced) \<Rightarrow>
          (case err of
             None \<Rightarrow> (s1, es, Reading)
           | Some cause \<Rightarrow> (let (s2, es2) = closeUpstream e cause s1 in (s2, es @ es2, Stopped)))
      | (s1, es, Waiting q) \<Rightarrow> (s1, es, Holding q err)
      | (s1, es, SlicePanic) \<Rightarrow> (s1, es, Stopped)
      | (s1, es, _) \<Rightarrow> (let (s2, es2) = destroy s1 in (s2, es @ es2, Stopped)))"

record SessionInfo =
  si_ActorID :: string
  si_SessionID :: u64
  si_Target :: string
  si_Attached :: bool
  si_Pending :: bool
  si_UpBufferBytes :: int
  si_DownBufBytes :: int
  si_UpstreamAlive :: bool

definition info :: "string \<times> u64 \<Rightarrow> session \<Rightarrow> SessionInfo" where
  "info k s =
     \<lparr>si_ActorID = fst k, si_SessionID = snd k, si_Target = target s,
      si_Attached = (tconn s \<noteq> None), si_Pending = requestOutstanding s,
      si_UpBufferBytes = 0, si_DownBufBytes = Len (downBuf s),
      si_UpstreamAlive = (upstream s \<and> \<not> dead s)\<rparr>"

section \<open>Reading effects\<close>

fun upBytes :: "effect list \<Rightarrow> bytes" where
  "upBytes [] = []"
| "upBytes (UpWrite p # es) = p @ upBytes es"
| "upBytes (_ # es) = upBytes es"

fun tunFrames :: "effect list \<Rightarrow> frame list" where
  "tunFrames [] = []"
| "tunFrames (TunnelWrite tc f # es) = f # tunFrames es"
| "tunFrames (_ # es) = tunFrames es"

fun wakes :: "effect list \<Rightarrow> bool" where
  "wakes [] \<longleftrightarrow> False"
| "wakes (WakeActor a r # es) \<longleftrightarrow> True"
| "wakes (_ # es) \<longleftrightarrow> wakes es"

lemma upBytes_append [simp]: "upBytes (es @ es') = upBytes es @ upBytes es'"
  by (induction es rule: upBytes.induct) simp_all

lemma tunFrames_append [simp]: "tunFrames (es @ es') = tunFrames es @ tunFrames es'"
  by (induction es rule: tunFrames.induct) simp_all

lemma wakes_append [simp]: "wakes (es @ es') \<longleftrightarrow> wakes es \<or> wakes es'"
  by (induction es rule: wakes.induct) simp_all

section \<open>What each method leaves alone\<close>

text \<open>
  The data a session carries from one tunnel connection to the next. Only \<^verbatim>\<open>onData\<close>,
  the dial and \<^verbatim>\<open>produceDownstream\<close>/\<^verbatim>\<open>onDownstreamAck\<close> change it.
\<close>

definition core :: "session \<Rightarrow> string \<times> u64 \<times> string \<times> bool \<times> bool \<times> bytes \<times> replay_buffer \<times> u64 \<times> bool" where
  "core s = (actorID s, sessionID s, target s, upstream s, connected s, preConn s, downBuf s,
             upstreamWritten s, upBroken s)"

lemma core_eqD:
  assumes "core s = core t"
  shows "actorID s = actorID t" "sessionID s = sessionID t" "target s = target t"
    "upstream s = upstream t" "connected s = connected t" "preConn s = preConn t"
    "downBuf s = downBuf t" "upstreamWritten s = upstreamWritten t" "upBroken s = upBroken t"
  using assms by (simp_all add: core_def)

lemma core_detach [simp]: "core (fst (detach tc s)) = core s"
  by (simp add: detach_def core_def Let_def)

lemma core_send [simp]: "core (fst (sendToSidecar e f s)) = core s"
  by (auto simp: sendToSidecar_def core_def detach_def Let_def split: option.splits)

lemma core_destroy [simp]: "core (fst (destroy s)) = core s"
  by (simp add: destroy_def core_def)

lemma core_maybeDestroy [simp]: "core (fst (maybeDestroy s)) = core s"
  by (simp add: maybeDestroy_def)

lemma core_downClosed [simp]: "core (s\<lparr>downClosed := b\<rparr>) = core s"
  by (simp add: core_def)

lemma core_upClosed [simp]: "core (s\<lparr>upClosed := b\<rparr>) = core s"
  by (simp add: core_def)

lemma core_closeUpstream [simp]: "core (fst (closeUpstream e c s)) = core s"
  by (simp add: closeUpstream_def Let_def)

lemma core_onSidecarClose [simp]: "core (fst (onSidecarClose d s)) = core s"
  by (simp add: onSidecarClose_def)

lemma core_onSidecarAttach [simp]: "core (fst (onSidecarAttach e off s)) = core s"
  by (simp add: onSidecarAttach_def Let_def)

lemma core_bind [simp]: "core (bind tc s) = core s"
  by (simp add: bind_def core_def)

lemma core_watchdogFires [simp]: "core (fst (watchdogFires s)) = core s"
  by (simp add: watchdogFires_def core_def Let_def)

section \<open>What each method emits\<close>

lemma upBytes_send [simp]: "upBytes (snd (sendToSidecar e f s)) = []"
  by (auto simp: sendToSidecar_def detach_def Let_def split: option.splits)

lemma upBytes_destroy [simp]: "upBytes (snd (destroy s)) = []"
  by (simp add: destroy_def)

lemma upBytes_maybeDestroy [simp]: "upBytes (snd (maybeDestroy s)) = []"
  by (simp add: maybeDestroy_def)

lemma upBytes_closeUpstream [simp]: "upBytes (snd (closeUpstream e c s)) = []"
  by (simp add: closeUpstream_def Let_def)

lemma upBytes_onSidecarAttach [simp]: "upBytes (snd (onSidecarAttach e off s)) = []"
  by (simp add: onSidecarAttach_def Let_def)

lemma upBytes_onSidecarClose [simp]: "upBytes (snd (onSidecarClose d s)) = []"
  by (simp add: onSidecarClose_def)

lemma upBytes_commitUp [simp]: "upBytes (snd (commitUp e n s)) = []"
  by (simp add: commitUp_def Let_def)

lemma tunFrames_detach [simp]: "tunFrames (snd (detach tc s)) = []"
  by (simp add: detach_def Let_def)

lemma tunFrames_send:
  "tunFrames (snd (sendToSidecar e f s)) = (if tconn s \<noteq> None \<and> tc_write e f then [f] else [])"
  by (auto simp: sendToSidecar_def split: option.splits)

lemma tunFrames_destroy [simp]: "tunFrames (snd (destroy s)) = []"
  by (simp add: destroy_def)

lemma tunFrames_maybeDestroy [simp]: "tunFrames (snd (maybeDestroy s)) = []"
  by (simp add: maybeDestroy_def)

lemma tunFrames_closeUpstream:
  "set (tunFrames (snd (closeUpstream e c s))) \<subseteq> {close_frame (sessionID s) (closeText c)}"
  by (auto simp: closeUpstream_def Let_def tunFrames_send)

subsection \<open>The upstream write\<close>

lemma writeUpstream_broken:
  "upBroken s \<Longrightarrow> upBytes (snd (writeUpstream e p s)) = [] \<and> core (fst (writeUpstream e p s)) = core s"
  by (simp add: writeUpstream_def upWrite_def)

lemma writeUpstream_fails:
  "\<not> upBroken s \<Longrightarrow> up_take e = Some k \<Longrightarrow>
   upBytes (snd (writeUpstream e p s)) = take k p \<and> core (fst (writeUpstream e p s)) = core (s\<lparr>upBroken := True\<rparr>)"
  by (simp add: writeUpstream_def upWrite_def)

lemma core_commitUp:
  "core (fst (commitUp e n s)) = core (s\<lparr>upstreamWritten := upstreamWritten s + of_nat n\<rparr>)"
  by (simp add: commitUp_def Let_def) (simp add: core_def armWatchdogLocked_def)

lemma writeUpstream_ok:
  "\<not> upBroken s \<Longrightarrow> up_take e = None \<Longrightarrow>
   upBytes (snd (writeUpstream e p s)) = p \<and>
   core (fst (writeUpstream e p s)) = core (s\<lparr>upstreamWritten := upstreamWritten s + of_nat (length p)\<rparr>)"
  by (simp add: writeUpstream_def upWrite_def core_commitUp)

lemma writeUpstream_alive:
  "\<not> upBroken s \<Longrightarrow> up_take e = None \<Longrightarrow> dead (fst (writeUpstream e p s)) = dead s"
  by (auto simp: writeUpstream_def upWrite_def commitUp_def sendToSidecar_def detach_def armWatchdogLocked_def Let_def
      split: option.splits)

lemma tunFrames_writeUpstream:
  "set (tunFrames (snd (writeUpstream e p s))) \<subseteq>
     {close_frame (sessionID s) (up_errtext e), ack_frame (sessionID s) (upstreamWritten s + of_nat (length p))}"
proof -
  have c: "f = close_frame (sessionID s) (up_errtext e)"
    if "f \<in> set (tunFrames (snd (closeUpstream e (Some (up_errtext e)) t)))" "sessionID t = sessionID s" for f t
    using tunFrames_closeUpstream [of e "Some (up_errtext e)" t] that by (auto simp: closeText_def)
  then show ?thesis
    by (auto simp: writeUpstream_def upWrite_def commitUp_def Let_def tunFrames_send armWatchdogLocked_def
        split: option.splits if_splits dest: c)
qed

subsection \<open>Incoming DATA\<close>

lemma onData_connected:
  assumes "\<not> dead s" and "connected s" and "length p < 2 ^ 64"
  shows "onData e off p s =
    (let q = fresh (unat (upstreamWritten s)) (unat off) p
     in if q \<noteq> [] \<or> off = upstreamWritten s then writeUpstream e q s else (s, []))"
proof -
  consider "off < upstreamWritten s" | "off = upstreamWritten s" | "off > upstreamWritten s" by fastforce
  then show ?thesis
  proof cases
    case 1
    then show ?thesis using assms skip_arith [OF assms(3) 1] unat_mono [OF 1]
      by (auto simp: onData_def fresh_def Let_def)
  next
    case 2
    then show ?thesis using assms by (simp add: onData_def fresh_def)
  next
    case 3
    then show ?thesis using assms unat_mono [OF 3] by (auto simp: onData_def fresh_def Let_def)
  qed
qed

lemma onData_preconnect:
  assumes "\<not> dead s" and "\<not> connected s" and "length p < 2 ^ 64"
    and "unat (upstreamWritten s) + length (preConn s) < 2 ^ 64"
  shows "onData e off p s =
    (s\<lparr>preConn := preConn s @ fresh (unat (upstreamWritten s) + length (preConn s)) (unat off) p\<rparr>, [])"
proof -
  define acc where "acc = upstreamWritten s + of_nat (length (preConn s))"
  have acc: "unat acc = unat (upstreamWritten s) + length (preConn s)"
    using assms(4) by (simp add: acc_def unat_word_ariths unat_of_nat)
  consider "off < acc" | "off = acc" | "off > acc" by fastforce
  then show ?thesis
  proof cases
    case 1
    then show ?thesis using assms skip_arith [OF assms(3) 1] unat_mono [OF 1] acc
      by (auto simp: onData_def fresh_def Let_def simp flip: acc_def)
  next
    case 2
    then show ?thesis using assms acc by (simp add: onData_def fresh_def Let_def flip: acc_def)
  next
    case 3
    then show ?thesis using assms unat_mono [OF 3] acc
      by (auto simp: onData_def fresh_def Let_def simp flip: acc_def)
  qed
qed

subsection \<open>Both receivers of a broker session meet the contract\<close>

lemma onData_cases:
  assumes "length p < 2 ^ 64"
  obtains (ignored) "onData e off p s = (s, [])"
    | (queued) q where "\<not> dead s" "\<not> connected s" "onData e off p s = (s\<lparr>preConn := q\<rparr>, [])"
    | (written) "\<not> dead s" "connected s"
        "onData e off p s = writeUpstream e (fresh (unat (upstreamWritten s)) (unat off) p) s"
proof (cases "dead s")
  case True
  then show ?thesis using ignored by (simp add: onData_def)
next
  case alive: False
  show ?thesis
  proof (cases "connected s")
    case True
    then show ?thesis
      using onData_connected [OF alive True assms, of e off] written [OF alive True] ignored
      by (auto simp: Let_def split: if_splits)
  next
    case False
    then have "onData e off p s = (s, []) \<or> (\<exists>q. onData e off p s = (s\<lparr>preConn := q\<rparr>, []))"
      using alive by (auto simp: onData_def Let_def)
    then show ?thesis using ignored queued [OF alive False] by blast
  qed
qed

lemma writeUpstream_cases:
  obtains (broken) "upBroken s" "upBytes (snd (writeUpstream e p s)) = []" "core (fst (writeUpstream e p s)) = core s"
    | (fails) k where "\<not> upBroken s" "upBytes (snd (writeUpstream e p s)) = take k p"
        "core (fst (writeUpstream e p s)) = core (s\<lparr>upBroken := True\<rparr>)"
    | (ok) "\<not> upBroken s" "up_take e = None" "upBytes (snd (writeUpstream e p s)) = p"
        "core (fst (writeUpstream e p s)) = core (s\<lparr>upstreamWritten := upstreamWritten s + of_nat (length p)\<rparr>)"
  using writeUpstream_broken writeUpstream_fails writeUpstream_ok
  by (cases "upBroken s"; cases "up_take e") blast+

lemma onData_broken:
  assumes "upBroken s"
  shows "upBytes (snd (onData e off p s)) = [] \<and> upBroken (fst (onData e off p s))"
proof -
  have "upBytes (snd (writeUpstream e q s)) = [] \<and> upBroken (fst (writeUpstream e q s))" for q
    using writeUpstream_broken [OF assms] core_eqD(9) assms by metis
  then show ?thesis using assms by (simp add: onData_def Let_def)
qed

lemma onData_written:
  assumes "length p < 2 ^ 64"
  shows "\<not> upBroken s \<Longrightarrow> prefix (upBytes (snd (onData e off p s))) (fresh (unat (upstreamWritten s)) (unat off) p)"
    and "\<not> upBroken (fst (onData e off p s)) \<Longrightarrow>
      upstreamWritten (fst (onData e off p s)) = upstreamWritten s + of_nat (length (upBytes (snd (onData e off p s))))"
proof -
  let ?q = "fresh (unat (upstreamWritten s)) (unat off) p"
  show "\<not> upBroken s \<Longrightarrow> prefix (upBytes (snd (onData e off p s))) ?q"
    using assms
    by (cases rule: onData_cases [where e = e and off = off and s = s];
        cases rule: writeUpstream_cases [where e = e and p = ?q and s = s]) (auto simp: take_is_prefix)
  show "\<not> upBroken (fst (onData e off p s)) \<Longrightarrow>
      upstreamWritten (fst (onData e off p s)) = upstreamWritten s + of_nat (length (upBytes (snd (onData e off p s))))"
    using assms
    by (cases rule: onData_cases [where e = e and off = off and s = s];
        cases rule: writeUpstream_cases [where e = e and p = ?q and s = s]) (auto dest: core_eqD(8,9))
qed

interpretation up: offset_receiver
  "\<lambda>off p s. fst (onData e off p s)" "\<lambda>off p s. upBytes (snd (onData e off p s))"
  "\<lambda>s. unat (upstreamWritten s)" upBroken for e
proof unfold_locales
  fix s :: session and p :: bytes and off :: u64
  assume fits: "unat (upstreamWritten s) + length p < 2 ^ 64" "unat off + length p < 2 ^ 64"
  then have len: "length p < 2 ^ 64" by simp
  note w = onData_written [OF len, where e = e and off = off and s = s]
  show "\<not> upBroken s \<Longrightarrow>
      prefix (upBytes (snd (onData e off p s))) (fresh (unat (upstreamWritten s)) (unat off) p)"
    by (rule w)
  have "length (upBytes (snd (onData e off p s))) \<le> length p"
    using prefix_length_le [OF w(1)] onData_broken [of s e off p]
      fresh_le [of "unat (upstreamWritten s)" "unat off" p]
    by (cases "upBroken s") auto
  then show "\<not> upBroken (fst (onData e off p s)) \<Longrightarrow>
      unat (upstreamWritten (fst (onData e off p s))) =
      unat (upstreamWritten s) + length (upBytes (snd (onData e off p s)))"
    using w(2) fits by (simp add: unat_add_less)
qed (rule onData_broken)

text \<open>
  Before the upstream is connected the bytes go to \<open>preConn\<close>; the receiver counts written
  and queued bytes, and its role ends when the dial completes.
\<close>

definition preReceived :: "session \<Rightarrow> nat" where
  "preReceived s = unat (upstreamWritten s) + length (preConn s)"

definition queuedBytes :: "session \<Rightarrow> session \<Rightarrow> bytes" where
  "queuedBytes s s' = (if connected s then [] else drop (length (preConn s)) (preConn s'))"

lemma onData_connected_stays: "connected s \<Longrightarrow> connected (fst (onData e off p s))"
proof -
  assume c: "connected s"
  have "connected (fst (writeUpstream e q s))" for q
    using c by (cases rule: writeUpstream_cases [where e = e and p = q and s = s]) (auto dest: core_eqD(5))
  then show ?thesis using c by (simp add: onData_def Let_def)
qed

interpretation pre: offset_receiver
  "\<lambda>off p s. fst (onData e off p s)" "\<lambda>off p s. queuedBytes s (fst (onData e off p s))"
  preReceived connected for e
proof unfold_locales
  fix s :: session and p :: bytes and off :: u64
  assume fits: "preReceived s + length p < 2 ^ 64" "unat off + length p < 2 ^ 64"
  have q: "onData e off p s = (s\<lparr>preConn := preConn s @ fresh (preReceived s) (unat off) p\<rparr>, [])"
    if "\<not> connected s" "\<not> dead s"
    using that fits onData_preconnect [of s p e off] by (simp add: preReceived_def)
  have d: "onData e off p s = (s, [])" if "dead s"
    using that by (simp add: onData_def)
  have qb: "queuedBytes s (fst (onData e off p s)) = (if connected s \<or> dead s then [] else fresh (preReceived s) (unat off) p)"
    using q d by (simp add: queuedBytes_def)
  show "prefix (queuedBytes s (fst (onData e off p s))) (fresh (preReceived s) (unat off) p)"
    by (simp add: qb)
  show "preReceived (fst (onData e off p s)) = preReceived s + length (queuedBytes s (fst (onData e off p s)))"
    if "\<not> connected (fst (onData e off p s))"
  proof (cases "dead s")
    case False
    have "\<not> connected s" using that onData_connected_stays by blast
    then show ?thesis using q [OF _ False] False unfolding qb by (simp add: preReceived_def)
  qed (simp add: d queuedBytes_def)
qed (simp add: queuedBytes_def onData_connected_stays)

section \<open>Producing downstream bytes\<close>

lemma downBuf_forwardChunk [simp]: "core (fst (forwardChunk e off c s)) = core s"
  by (auto simp: forwardChunk_def core_def Let_def split: option.splits)

lemma dead_forwardChunk [simp]: "dead (fst (forwardChunk e off c s)) = dead s"
  by (auto simp: forwardChunk_def Let_def split: option.splits)

lemma produce_stop:
  "p = [] \<or> dead s \<or> Free (downBuf s) = 0 \<Longrightarrow> produceDownstream e p s =
     (s, [], if p = [] then Produced else if dead s then SessionDead else Waiting p)"
  by (subst produceDownstream.simps) auto

lemma produce_spec:
  assumes "\<not> dead s" and "0 \<le> Free (downBuf s)" and "p \<noteq> []" 
  defines "n \<equiv> nat (min (int (length p)) (Free (downBuf s)))"
  defines "s1 \<equiv> s\<lparr>downBuf := (downBuf s)\<lparr>buf := buf (downBuf s) @ take n p\<rparr>\<rparr>"
  shows "produceDownstream e p s =
    (if n = 0 then (s, [], Waiting p)
     else (fst (forwardChunk e (End (downBuf s)) (take n p) s1),
           snd (forwardChunk e (End (downBuf s)) (take n p) s1),
           if n = length p then Produced else Waiting (drop n p)))"
proof (cases "n = 0")
  case True
  then have "Free (downBuf s) = 0" using assms by (auto simp: min_def split: if_splits)
  then show ?thesis using True assms by (simp add: produce_stop)
next
  case False
  have nl: "int n \<le> Free (downBuf s)" "n \<le> length p" using assms by auto
  have len: "length (take n p) = n" using nl by simp
  have app: "Append (downBuf s) (take n p) = Inr ((downBuf s)\<lparr>buf := buf (downBuf s) @ take n p\<rparr>)"
    using nl by (intro Append_fits) simp
  let ?m = "forwardChunk e (End (downBuf s)) (take n p) s1"
  have rest: "produceDownstream e (drop n p) (fst ?m) = (fst ?m, [], if n = length p then Produced else Waiting (drop n p))"
  proof (cases "n = length p")
    case True
    then show ?thesis by (simp add: produce_stop)
  next
    case False
    then have "Free (downBuf s) = int n" using nl assms by (auto simp: min_def split: if_splits)
    moreover have "downBuf (fst ?m) = downBuf s1" by (rule core_eqD) simp
    ultimately have "Free (downBuf (fst ?m)) = 0" using len by (simp add: s1_def Free_def)
    moreover have "\<not> dead (fst ?m)" using assms(1) by (simp add: s1_def)
    ultimately show ?thesis using False nl by (subst produce_stop) auto
  qed
  have "Free (downBuf s) > 0" using False nl(1) by linarith
  then show ?thesis
    using False assms(1,3) app rest
    by (subst produceDownstream.simps) (simp add: Let_def split_beta flip: n_def s1_def)
qed

lemma produce_core:
  fixes p :: bytes
  assumes "\<not> dead s" and "0 \<le> Free (downBuf s)"
  defines "n \<equiv> nat (min (int (length p)) (Free (downBuf s)))"
  shows "core (fst (produceDownstream e p s)) =
    core (s\<lparr>downBuf := (downBuf s)\<lparr>buf := buf (downBuf s) @ take n p\<rparr>\<rparr>)"
proof (cases "p = []")
  case True
  then show ?thesis by (simp add: produce_stop core_def)
next
  case False
  then have "fst (produceDownstream e p s) =
      (if n = 0 then s else fst (forwardChunk e (End (downBuf s)) (take n p)
         (s\<lparr>downBuf := (downBuf s)\<lparr>buf := buf (downBuf s) @ take n p\<rparr>\<rparr>)))"
    using produce_spec [OF assms(1,2) False, of e] by (simp flip: n_def)
  then show ?thesis by (cases "n = 0") (simp add: core_def, simp)
qed

lemma produce_cases:
  obtains (idle) r where "produceDownstream e p s = (s, [], r)"
    | (chunk) n r where "produceDownstream e p s =
        (fst (forwardChunk e (End (downBuf s)) (take n p)
               (s\<lparr>downBuf := (downBuf s)\<lparr>buf := buf (downBuf s) @ take n p\<rparr>\<rparr>)),
         snd (forwardChunk e (End (downBuf s)) (take n p)
               (s\<lparr>downBuf := (downBuf s)\<lparr>buf := buf (downBuf s) @ take n p\<rparr>\<rparr>)), r)"
proof (cases "p = [] \<or> dead s \<or> Free (downBuf s) < 0")
  case True
  then have "\<exists>r. produceDownstream e p s = (s, [], r)"
    by (subst produceDownstream.simps) auto
  then show ?thesis using idle by blast
next
  case False
  then show ?thesis using produce_spec [of s p e] that by (auto split: if_splits)
qed

text \<open>
  The upstream reader loses and reorders nothing and never overruns the buffer. On a live
  session whose buffer retains \<open>S\<close>, \<^verbatim>\<open>produceDownstream\<close> of \<open>p\<close> either takes all of
  \<open>p\<close>, or fills the buffer to capacity and waits holding exactly the rest; the buffer then
  retains \<open>S\<close> followed by what was taken, the only frame sent is that part at its offset,
  and when the session ends up detached with a request outstanding the actor is woken.
\<close>

lemma produce_stream:
  assumes S: "rb_retains (downBuf s) S" and "\<not> dead s" and room: "0 \<le> Free (downBuf s)"
    and "length S + length p < 2 ^ 64" and "produceDownstream e p s = (s', es, r)"
  shows "\<exists>q rest. p = q @ rest \<and> rb_retains (downBuf s') (S @ q) \<and> 0 \<le> Free (downBuf s') \<and>
    downBuf s' = (downBuf s)\<lparr>buf := buf (downBuf s) @ q\<rparr> \<and>
    (rest = [] \<and> r = Produced \<or> rest \<noteq> [] \<and> r = Waiting rest \<and> Free (downBuf s') = 0) \<and>
    set (tunFrames es) \<subseteq> {data_frame (sessionID s) (of_nat (length S)) q} \<and>
    (q \<noteq> [] \<and> tconn s' = None \<and> requestOutstanding s' \<longrightarrow> wakes es)"
proof (cases "p = []")
  case True
  then show ?thesis using assms by (auto simp: produce_stop)
next
  case False
  define n where "n = nat (min (int (length p)) (Free (downBuf s)))"
  let ?b = "(downBuf s)\<lparr>buf := buf (downBuf s) @ take n p\<rparr>" and ?f = "forwardChunk e (End (downBuf s)) (take n p)"
  have n: "n \<le> length p" "int n \<le> Free (downBuf s)" "n < length p \<Longrightarrow> Free (downBuf s) = int n"
    using room by (auto simp: n_def min_def)
  have spec: "(s', es, r) = (if n = 0 then (s, [], Waiting p)
     else (fst (?f (s\<lparr>downBuf := ?b\<rparr>)), snd (?f (s\<lparr>downBuf := ?b\<rparr>)),
           if n = length p then Produced else Waiting (drop n p)))"
    using produce_spec [OF assms(2) room False, of e] assms(5) by (simp flip: n_def)
  have b: "downBuf s' = ?b"
    using core_eqD(7) [OF produce_core [OF assms(2) room, of e p]] assms(5) by (simp flip: n_def)
  have end_S: "End (downBuf s) = of_nat (length S)"
    using unat_End [OF S] by (metis of_nat_unat ucast_id)
  have "Append (downBuf s) (take n p) = Inr ?b" by (rule Append_fits) (use n in simp)
  then have "rb_retains (downBuf s') (S @ take n p)"
    using rb.append_retains [OF S, of "take n p" ?b] assms(4) n(1) b by simp
  moreover have "Free (downBuf s') = Free (downBuf s) - int n" using b n(1) by (simp add: Free_def)
  moreover have "drop n p = [] \<and> r = Produced \<or> drop n p \<noteq> [] \<and> r = Waiting (drop n p) \<and> n < length p"
    using spec n(1) False by (auto split: if_splits)
  moreover have "set (tunFrames es) \<subseteq> {data_frame (sessionID s) (of_nat (length S)) (take n p)}"
    using spec by (auto simp: forwardChunk_def Let_def end_S split: if_splits option.splits)
  moreover have "take n p \<noteq> [] \<and> tconn s' = None \<and> requestOutstanding s' \<longrightarrow> wakes es"
    using spec by (auto simp: forwardChunk_def Let_def split: if_splits option.splits)
  ultimately show ?thesis using n b by (intro exI [of _ "take n p"] exI [of _ "drop n p"]) auto
qed

section \<open>What an ATTACH is answered\<close>

lemma onSidecarAttach_exact:
  assumes S: "rb_retains (downBuf s) S" and "rb_first (downBuf s) \<le> unat off" and "unat off \<le> length S"
    and "length S - unat off \<le> MaxPayload" and "\<forall>f. tun_ok e f"
  shows "onSidecarAttach e off (bind tc s) =
    (bind tc s,
     map (TunnelWrite tc)
       ([attachok_frame (sessionID s) (upstreamWritten s)] @
        (if unat off < length S then [data_frame (sessionID s) off (drop (unat off) S)] else []) @
        (if downClosed s then [close_frame (sessionID s) ''upstream EOF''] else [])))"
proof -
  have r: "From (downBuf s) off = Inr (drop (unat off) S)"
    by (rule rb.replay_suffix) (use assms in auto)
  have "unat (off + of_nat (length (drop (unat off) S))) = length S"
    using assms(1,3) by (subst unat_add_less) (auto simp: rb_retains_def)
  then have "End (downBuf s) = off + of_nat (length (drop (unat off) S))"
    using unat_End [OF S] by (simp add: word_unat_eq_iff)
  then show ?thesis
    using assms(4,5) r
    by (auto simp: onSidecarAttach_def andThen_def bind_def sendToSidecar_def tc_write_def encodable_def known_type_def
        attachok_frame_def data_frame_def close_frame_def zero_frame_def maxString_def)
qed

section \<open>Session events\<close>

text \<open>
  Everything that can happen to a session, each event one method run: an ATTACH or duplicate
  OPEN on tunnel \<open>tc\<close>, the end of a tunnel, the frames of a sidecar, the dial result, a turn
  of the upstream reader, and the watchdog.
\<close>

datatype sevent =
    EvAttach env nat u64
  | EvDetach nat
  | EvData env u64 bytes
  | EvAck u64
  | EvClose u8
  | EvDial env "string option"
  | EvRead env bytes "string option option"
  | EvWatchdog

fun sess_step :: "sevent \<Rightarrow> handler" where
  "sess_step (EvAttach e tc off) s = onSidecarAttach e off (bind tc s)"
| "sess_step (EvDetach tc) s = detach tc s"
| "sess_step (EvData e off p) s = onData e off p s"
| "sess_step (EvAck off) s = (onDownstreamAck off s, [])"
| "sess_step (EvClose d) s = onSidecarClose d s"
| "sess_step (EvDial e r) s = dialUpstream e r s"
| "sess_step (EvRead e p err) s = (case readUpstreamTurn e p err s of (s1, es, _) \<Rightarrow> (s1, es))"
| "sess_step EvWatchdog s = watchdogFires s"

text \<open>
  What \<^verbatim>\<open>handleFrame\<close> calls on a session it has found, for a frame that came in on tunnel
  \<open>tc\<close>; a duplicate OPEN is an ATTACH at offset zero.
\<close>

definition sess_frame :: "env \<Rightarrow> nat \<Rightarrow> frame \<Rightarrow> handler" where
  "sess_frame e tc f s =
     (if ftype f = TypeOpen then onSidecarAttach e 0 (bind tc s)
      else if ftype f = TypeAttach then onSidecarAttach e (Offset f) (bind tc s)
      else if ftype f = TypeData then onData e (Offset f) (Payload f) s
      else if ftype f = TypeAck then (onDownstreamAck (Offset f) s, [])
      else if ftype f = TypeClose then onSidecarClose (Dir f) s
      else (s, []))"

text \<open>
  A session that must have its actor woken: detached, a request outstanding, and something
  for the agent to see.
\<close>

definition needs_wake :: "session \<Rightarrow> bool" where
  "needs_wake s \<longleftrightarrow> tconn s = None \<and> \<not> dead s \<and> requestOutstanding s \<and>
     (Len (downBuf s) > 0 \<or> downClosed s)"

lemma needs_wake_detach:
  "needs_wake (fst (detach tc s)) \<Longrightarrow> needs_wake s \<or> wakes (snd (detach tc s))"
  by (auto simp: detach_def needs_wake_def Let_def split: if_splits)

lemma needs_wake_send:
  "needs_wake (fst (sendToSidecar e f s)) \<Longrightarrow> needs_wake s \<or> wakes (snd (sendToSidecar e f s))"
  using needs_wake_detach by (auto simp: sendToSidecar_def split: option.splits if_splits)

lemma needs_wake_destroy [simp]: "\<not> needs_wake (fst (destroy s))"
  by (simp add: destroy_def needs_wake_def)

lemma needs_wake_maybeDestroy: "needs_wake (fst (maybeDestroy s)) \<Longrightarrow> needs_wake s"
  by (auto simp: maybeDestroy_def split: if_splits)

lemma needs_wake_bound: "tconn s \<noteq> None \<Longrightarrow> \<not> needs_wake s"
  by (simp add: needs_wake_def)

lemma needs_wake_closeUpstream:
  assumes "needs_wake (fst (closeUpstream e c s))"
  shows "needs_wake s \<or> wakes (snd (closeUpstream e c s))"
proof -
  let ?s = "s\<lparr>downClosed := True\<rparr>" and ?f = "close_frame (sessionID s) (closeText c)"
  consider "downClosed s" | "\<not> downClosed s" "tconn s = None" | "\<not> downClosed s" "tconn s \<noteq> None"
    by blast
  then show ?thesis
  proof cases
    case 1
    then show ?thesis using assms by (simp add: closeUpstream_def)
  next
    case 2
    then have "needs_wake ?s"
      using assms by (cases "requestOutstanding s") (simp_all add: closeUpstream_def Let_def needs_wake_maybeDestroy)
    then have "requestOutstanding s" by (simp add: needs_wake_def)
    then show ?thesis using 2 by (simp add: closeUpstream_def Let_def)
  next
    case 3
    then have "needs_wake (fst (sendToSidecar e ?f ?s))"
      using assms by (simp add: closeUpstream_def Let_def needs_wake_maybeDestroy)
    then have "wakes (snd (sendToSidecar e ?f ?s))"
      using needs_wake_send [of e ?f ?s] needs_wake_bound [of ?s] 3 by simp
    then show ?thesis using 3 by (simp add: closeUpstream_def Let_def)
  qed
qed

lemma needs_wake_forwardChunk:
  "needs_wake (fst (forwardChunk e off c s)) \<Longrightarrow> wakes (snd (forwardChunk e off c s))"
  by (auto simp: forwardChunk_def needs_wake_def Let_def split: option.splits if_splits)

lemma needs_wake_produce:
  assumes "needs_wake (fst (produceDownstream e p s))"
  shows "needs_wake s \<or> wakes (fst (snd (produceDownstream e p s)))"
  using assms by (cases rule: produce_cases [of e p s]) (auto dest: needs_wake_forwardChunk)

lemma needs_wake_read:
  assumes "needs_wake (fst (readUpstreamTurn e p err s))"
  shows "needs_wake s \<or> wakes (fst (snd (readUpstreamTurn e p err s)))"
proof -
  obtain s1 es r where p: "produceDownstream e p s = (s1, es, r)" by (cases "produceDownstream e p s")
  have "needs_wake s1 \<Longrightarrow> needs_wake s \<or> wakes es"
    using needs_wake_produce [of e p s] p by simp
  then show ?thesis
    using assms p needs_wake_closeUpstream [of e _ s1]
    by (cases r) (auto simp: readUpstreamTurn_def split_beta split: option.splits)
qed

lemma needs_wake_attach:
  assumes "needs_wake (fst (onSidecarAttach e off s))"
  shows "needs_wake s \<or> wakes (snd (onSidecarAttach e off s))"
  using assms unfolding onSidecarAttach_def Let_def
  by (auto split: if_splits dest!: needs_wake_send)

lemma watchdog_send [simp]: "watchdog (fst (sendToSidecar e f s)) = watchdog s"
  by (auto simp: sendToSidecar_def detach_def Let_def split: option.splits)

lemma dead_send [simp]: "dead (fst (sendToSidecar e f s)) = dead s"
  by (auto simp: sendToSidecar_def detach_def Let_def split: option.splits)

lemma dead_destroy [simp]: "dead (fst (destroy s))"
  by (simp add: destroy_def)

lemma watchdog_maybeDestroy:
  "\<not> dead (fst (maybeDestroy s)) \<Longrightarrow> watchdog (fst (maybeDestroy s)) = watchdog s"
  by (auto simp: maybeDestroy_def split: if_splits)

lemma watchdog_closeUpstream:
  "\<not> dead (fst (closeUpstream e c s)) \<Longrightarrow> watchdog (fst (closeUpstream e c s)) = watchdog s"
  by (auto simp: closeUpstream_def Let_def split: if_splits dest!: watchdog_maybeDestroy)

lemma watchdog_forwardChunk [simp]: "watchdog (fst (forwardChunk e off c s)) = watchdog s"
  by (auto simp: forwardChunk_def Let_def split: option.splits)

lemma watchdog_produce [simp]: "watchdog (fst (produceDownstream e p s)) = watchdog s"
  by (cases rule: produce_cases [of e p s]) auto

lemma watchdog_read:
  "\<not> dead (fst (readUpstreamTurn e p err s)) \<Longrightarrow> watchdog (fst (readUpstreamTurn e p err s)) = watchdog s"
proof -
  assume a: "\<not> dead (fst (readUpstreamTurn e p err s))"
  obtain s1 es r where p: "produceDownstream e p s = (s1, es, r)" by (cases "produceDownstream e p s")
  have "watchdog s1 = watchdog s" using watchdog_produce [of e p s] p by simp
  then show ?thesis using a p watchdog_closeUpstream
    by (cases r) (auto simp: readUpstreamTurn_def split_beta split: option.splits)
qed

lemma needs_wake_writeUpstream_armed:
  assumes "needs_wake (fst (writeUpstream e p s))"
  shows "needs_wake s \<or> wakes (snd (writeUpstream e p s)) \<or> watchdog (fst (writeUpstream e p s)) \<noteq> None"
proof -
  have c: "needs_wake s \<or> wakes (snd (closeUpstream e c (s\<lparr>upBroken := b\<rparr>)))"
    if "needs_wake (fst (closeUpstream e c (s\<lparr>upBroken := b\<rparr>)))" for c b
    using needs_wake_closeUpstream [OF that] by (simp add: needs_wake_def)
  show ?thesis
    using assms c c [of _ "upBroken s"]
    by (auto simp: writeUpstream_def upWrite_def commitUp_def Let_def armWatchdogLocked_def
        split: if_splits option.splits)
qed

lemma needs_wake_onData_armed:
  assumes "needs_wake (fst (onData e off p s))"
  shows "needs_wake s \<or> wakes (snd (onData e off p s)) \<or> watchdog (fst (onData e off p s)) \<noteq> None"
proof -
  have q: "needs_wake (s\<lparr>preConn := q\<rparr>) = needs_wake s" for q by (simp add: needs_wake_def)
  show ?thesis
    using assms needs_wake_writeUpstream_armed [of e _ s]
    by (auto simp only: onData_def Let_def fst_conv snd_conv q split: if_splits)
qed

lemma needs_wake_dial_armed:
  assumes "needs_wake (fst (dialUpstream e r s))"
  shows "needs_wake s \<or> wakes (snd (dialUpstream e r s)) \<or> watchdog (fst (dialUpstream e r s)) \<noteq> None"
proof -
  have "watchdog (fst (dialUpstream e None s)) \<noteq> None" if "\<not> dead s" "\<not> dead (fst (dialUpstream e None s))"
    using that watchdog_closeUpstream
    by (auto simp: dialUpstream_def dialPublish_def dialFlush_def upWrite_def armWatchdogLocked_def
        Let_def split: if_splits option.splits)
  then show ?thesis
    using assms
    by (cases r) (auto simp: dialUpstream_def dialFailed_def needs_wake_def split: if_splits)
qed

lemma needs_wake_step:
  assumes "needs_wake (fst (sess_step ev s))"
  shows "needs_wake s \<or> wakes (snd (sess_step ev s)) \<or> watchdog (fst (sess_step ev s)) \<noteq> None"
proof (cases ev)
  case (EvAttach e tc off)
  then show ?thesis
    using assms needs_wake_attach [of e off "bind tc s"] by (auto simp: needs_wake_bound bind_def)
next
  case (EvDetach tc)
  then show ?thesis using assms needs_wake_detach [of tc s] by auto
next
  case (EvData e off p)
  then show ?thesis using assms needs_wake_onData_armed [of e off p s] by simp
next
  case (EvAck off)
  then show ?thesis
    using assms Len_TrimTo [of "downBuf s" off]
    by (auto simp: onDownstreamAck_def needs_wake_def Let_def split: if_splits)
next
  case (EvClose d)
  then show ?thesis
    using assms needs_wake_maybeDestroy [of "s\<lparr>upClosed := True\<rparr>"]
    by (auto simp: onSidecarClose_def needs_wake_def split: if_splits)
next
  case (EvDial e r)
  then show ?thesis using assms needs_wake_dial_armed [of e r s] by simp
next
  case (EvRead e p err)
  then show ?thesis using assms needs_wake_read [of e p err s] by (auto split: prod.splits)
next
  case EvWatchdog
  then show ?thesis using assms by (simp add: watchdogFires_def needs_wake_def Let_def)
qed

lemma watchdog_writeUpstream:
  assumes "\<not> dead (fst (writeUpstream e p s))" and "watchdog s \<noteq> None"
  shows "watchdog (fst (writeUpstream e p s)) \<noteq> None"
  using assms watchdog_closeUpstream
  by (auto simp: writeUpstream_def upWrite_def commitUp_def Let_def armWatchdogLocked_def
      split: if_splits option.splits)

lemma watchdog_step:
  assumes "watchdog s \<noteq> None" and "ev \<noteq> EvWatchdog" and "\<not> dead (fst (sess_step ev s))"
  shows "watchdog (fst (sess_step ev s)) \<noteq> None"
proof (cases ev)
  case (EvAttach e tc off)
  then show ?thesis using assms by (auto simp: onSidecarAttach_def Let_def bind_def)
next
  case (EvDetach tc)
  then show ?thesis using assms by (simp add: detach_def Let_def)
next
  case (EvData e off p)
  then show ?thesis using assms watchdog_writeUpstream by (auto simp: onData_def Let_def)
next
  case (EvAck off)
  then show ?thesis using assms by (simp add: onDownstreamAck_def Let_def)
next
  case (EvClose d)
  then show ?thesis
    using assms watchdog_maybeDestroy [of "s\<lparr>upClosed := True\<rparr>"] by (auto simp: onSidecarClose_def)
next
  case (EvDial e r)
  then show ?thesis
    using assms watchdog_closeUpstream
    by (auto simp: dialUpstream_def dialFailed_def dialPublish_def dialFlush_def upWrite_def
        armWatchdogLocked_def Let_def split: if_splits option.splits)
next
  case (EvRead e p err)
  then show ?thesis using assms watchdog_read [of e p err s] by (auto split: prod.splits)
qed (use assms in simp)

text \<open>
  A run of a session with a ghost flag: \<open>told\<close> holds when the actor has been woken since the
  session last came to need it.
\<close>

definition told_step :: "session \<times> bool \<Rightarrow> sevent \<Rightarrow> session \<times> bool" where
  "told_step st ev =
     (let (s', es) = sess_step ev (fst st) in (s', wakes es \<or> snd st \<and> needs_wake (fst st)))"

lemma told_step_keeps:
  assumes "needs_wake s \<longrightarrow> told \<or> watchdog s \<noteq> None" and "told_step (s, told) ev = (s', told')"
  shows "needs_wake s' \<longrightarrow> told' \<or> watchdog s' \<noteq> None"
proof
  assume nw: "needs_wake s'"
  have st: "s' = fst (sess_step ev s)" "told' = (wakes (snd (sess_step ev s)) \<or> told \<and> needs_wake s)"
    using assms(2) by (auto simp: told_step_def split_beta)
  have alive: "\<not> dead (fst (sess_step ev s))" using nw st by (simp add: needs_wake_def)
  have "wakes (snd (sess_step ev s))" if "ev = EvWatchdog" "needs_wake s"
    using that by (simp add: watchdogFires_def needs_wake_def Let_def)
  then show "told' \<or> watchdog s' \<noteq> None"
    using needs_wake_step [of ev s] watchdog_step [OF _ _ alive] assms(1) nw st by blast
qed

lemma told_run_keeps:
  "(needs_wake s \<longrightarrow> told \<or> watchdog s \<noteq> None) \<Longrightarrow> foldl told_step (s, told) evs = (s', told') \<Longrightarrow>
   needs_wake s' \<longrightarrow> told' \<or> watchdog s' \<noteq> None"
proof (induction evs arbitrary: s told)
  case (Cons ev evs)
  then show ?case using told_step_keeps [of s told ev] by (cases "told_step (s, told) ev") auto
qed auto

subsection \<open>Quiescent sessions\<close>

lemma wakes_detach: "\<not> requestOutstanding s \<Longrightarrow> \<not> wakes (snd (detach tc s))"
  by (simp add: detach_def Let_def)

lemma wakes_send: "\<not> requestOutstanding s \<Longrightarrow> \<not> wakes (snd (sendToSidecar e f s))"
  by (auto simp: sendToSidecar_def wakes_detach split: option.splits)

lemma requestOutstanding_send [simp]:
  "requestOutstanding (fst (sendToSidecar e f s)) = requestOutstanding s"
  by (auto simp: sendToSidecar_def detach_def Let_def split: option.splits)

lemma wakes_destroy [simp]: "\<not> wakes (snd (destroy s))"
  by (simp add: destroy_def)

lemma wakes_maybeDestroy [simp]: "\<not> wakes (snd (maybeDestroy s))"
  by (simp add: maybeDestroy_def)

lemma wakes_closeUpstream: "\<not> requestOutstanding s \<Longrightarrow> \<not> wakes (snd (closeUpstream e c s))"
  by (simp add: closeUpstream_def Let_def wakes_send)

lemma quiet_produce:
  assumes "\<not> requestOutstanding s"
  shows "\<not> requestOutstanding (fst (produceDownstream e p s)) \<and> \<not> wakes (fst (snd (produceDownstream e p s)))"
  using assms
  by (cases rule: produce_cases [of e p s]) (auto simp: forwardChunk_def Let_def split: option.splits)

lemma quiet_read:
  assumes "\<not> requestOutstanding s"
  shows "\<not> wakes (fst (snd (readUpstreamTurn e p err s)))"
proof -
  obtain s1 es r where p: "produceDownstream e p s = (s1, es, r)" by (cases "produceDownstream e p s")
  have "\<not> requestOutstanding s1" "\<not> wakes es" using quiet_produce [OF assms, of e p] p by simp_all
  then show ?thesis using p wakes_closeUpstream
    by (cases r) (auto simp: readUpstreamTurn_def split_beta split: option.splits)
qed

section \<open>Properties\<close>

text \<open>An environment in which every write succeeds.\<close>

definition fair_env :: env where
  "fair_env = \<lparr>clock = 0, tun_ok = (\<lambda>_. True), up_take = None, up_errtext = ''reset'',
     MaxSuspendWatchdog = 300\<rparr>"

lemmas session_eval [handler_defs] =
  fair_env_def newSession_def bind_def detach_def tc_write_def sendToSidecar_def destroy_def
  maybeDestroy_def close_frame_def ack_frame_def data_frame_def attachok_frame_def closeText_def
  closeUpstream_def armWatchdogLocked_def watchdogFires_def upWrite_def commitUp_def
  writeUpstream_def onData_def onDownstreamAck_def onSidecarAttach_def onSidecarClose_def
  dialUpstream_def dialFailed_def dialPublish_def dialFlush_def forwardChunk_def
  produceDownstream.simps readUpstreamTurn_def andThen_def


text \<open>A request, a suspend, and the response arriving while the actor is suspended.\<close>

definition suspended_run :: "sevent list" where
  "suspended_run = [EvAttach fair_env 1 0, EvDial fair_env None, EvData fair_env 0 [1, 2, 3], EvDetach 1,
     EvRead fair_env [7, 8] None]"


text \<open>
  C8. A quiescent session never wakes its actor. While no request is outstanding, no event
  other than request bytes from the agent wakes the actor: buffered keep-alive traffic, an
  upstream close, a detach, an attach, a failed dial, a dial with no queued request bytes and
  the watchdog do not.
\<close>

theorem quiescent_never_wakes:
  assumes "\<not> requestOutstanding s" and "\<forall>e off p. ev \<noteq> EvData e off p" and "\<forall>e. ev = EvDial e None \<longrightarrow> preConn s = []"
  shows "\<not> wakes (snd (sess_step ev s))"
proof (cases ev)
  case (EvAttach e tc off)
  then show ?thesis using assms(1) by (simp add: onSidecarAttach_def Let_def wakes_send bind_def)
next
  case (EvRead e p err)
  then show ?thesis using quiet_read [OF assms(1), of e p err] by (simp add: split_beta)
next
  case (EvDial e r)
  then show ?thesis
    using assms
    by (cases r) (simp_all add: dialUpstream_def dialFailed_def dialPublish_def dialFlush_def wakes_send Let_def)
qed (use assms in \<open>simp_all add: wakes_detach onSidecarClose_def watchdogFires_def Let_def\<close>)

theorem quiescent_never_wakes_witness:
  "\<not> wakes (snd (sess_step (EvRead fair_env [9, 9] (Some None)) (newSession 100 0 ''ns/a'' 1 ''x:80'')))"
  using quiescent_never_wakes [of "newSession 100 0 ''ns/a'' 1 ''x:80''" "EvRead fair_env [9, 9] (Some None)"]
  by (simp add: newSession_def)

text \<open>
  C9. An ATTACH resumes the session exactly. If the buffer retains the downstream \<open>S\<close> and the
  sidecar attaches with the number of bytes it delivered, then (when the tunnel takes the
  frames, and the replay fits in one frame) the broker sends ATTACH_OK with the number of
  upstream bytes it wrote, then the whole undelivered rest of \<open>S\<close> as one DATA frame at that
  offset if there is any, then CLOSE if the upstream has closed, and nothing else; the session
  is bound and its stream state is unchanged.
\<close>

theorem attach_resumes_exactly:
  assumes S: "rb_retains (downBuf s) S" and "rb_first (downBuf s) \<le> unat off" and "unat off \<le> length S"
    and "length S - unat off \<le> MaxPayload" and "\<forall>f. tun_ok e f"
  shows "sess_step (EvAttach e tc off) s =
    (bind tc s,
     map (TunnelWrite tc)
       ([attachok_frame (sessionID s) (upstreamWritten s)] @
        (if unat off < length S then [data_frame (sessionID s) off (drop (unat off) S)] else []) @
        (if downClosed s then [close_frame (sessionID s) ''upstream EOF''] else [])))"
  using onSidecarAttach_exact [OF assms] by simp

theorem attach_resumes_exactly_witness:
  "tunFrames (snd (sess_step (EvAttach fair_env 2 1)
     ((newSession 100 0 ''ns/a'' 1 ''x:80'')\<lparr>downBuf := \<lparr>base = 0, buf = [7, 8], rmax = 100\<rparr>\<rparr>))) =
   [attachok_frame 1 0, data_frame 1 1 [8]]"
  using attach_resumes_exactly
    [of "(newSession 100 0 ''ns/a'' 1 ''x:80'')\<lparr>downBuf := \<lparr>base = 0, buf = [7, 8], rmax = 100\<rparr>\<rparr>" "[7, 8]" 1 fair_env 2]
  by (simp add: newSession_def rb_retains_def rb_first_def fair_env_def MaxPayload_def)

section \<open>Departures from the stated design\<close>

text \<open>
  An ATTACH does not trim the buffer to the offset the sidecar reports as delivered. If the
  last ACK was lost with the old tunnel, the delivered bytes stay buffered (no DATA is
  replayed, so no new ACK comes), the request stays outstanding, and the next detach wakes
  the actor although nothing is undelivered.
\<close>

theorem attach_at_end_still_wakes:
  assumes S: "rb_retains (downBuf s) S" and "Len (downBuf s) > 0" and "requestOutstanding s"
    and "\<not> downClosed s" and "\<forall>f. tun_ok e f"
  shows "sess_step (EvAttach e tc (End (downBuf s))) s =
      (bind tc s, [TunnelWrite tc (attachok_frame (sessionID s) (upstreamWritten s))]) \<and>
    wakes (snd (sess_step (EvDetach tc) (bind tc s)))"
proof -
  have "From (downBuf s) (End (downBuf s)) = Inr []"
    using rb.replay_suffix [OF S, of "End (downBuf s)"] rb.first_le [OF S] unat_End [OF S] by simp
  then show ?thesis
    using assms by (simp add: onSidecarAttach_def andThen_def bind_def sendToSidecar_def tc_write_def
        encodable_def known_type_def attachok_frame_def zero_frame_def detach_def)
qed

text \<open>
  The replay of an ATTACH is one DATA frame, and the encoder refuses more than
  \<^const>\<open>MaxPayload\<close> bytes, while the buffer may hold sixteen times as many. With more than
  that undelivered, no ATTACH delivers anything: the session answers ATTACH_OK, fails to write
  the replay and detaches again, waking the actor for another round.
\<close>

theorem oversize_replay_never_delivered:
  assumes S: "rb_retains (downBuf s) S" and "rb_first (downBuf s) \<le> unat off" and "unat off \<le> length S"
    and big: "length S - unat off > MaxPayload" and "requestOutstanding s" and "\<not> downClosed s" and "\<forall>f. tun_ok e f"
  shows "sess_step (EvAttach e tc off) s =
    (s\<lparr>tconn := None\<rparr>,
     [TunnelWrite tc (attachok_frame (sessionID s) (upstreamWritten s)),
      WakeActor (actorID s) ''undelivered data on detach''])"
proof -
  have r: "From (downBuf s) off = Inr (drop (unat off) S)"
    by (rule rb.replay_suffix) (use assms in auto)
  have "buf (downBuf s) \<noteq> []" using S assms(2,3) big by (auto simp: rb_retains_def rb_first_def)
  then have "Len (downBuf s) > 0" by (simp add: Len_def)
  then show ?thesis
    using assms(5-7) big r
    by (auto simp: onSidecarAttach_def andThen_def bind_def sendToSidecar_def tc_write_def encodable_def known_type_def
        attachok_frame_def data_frame_def zero_frame_def detach_def)
qed

text \<open>
  A late ACK ends a newer request. The agent sends its next request while the ACK of the last
  response is still on its way; the ACK drains the buffer and clears the outstanding flag, so
  the response to the new request, arriving after a suspend, wakes nobody, and neither does
  the watchdog.
\<close>

definition answered :: session where
  "answered = (newSession 100 0 ''ns/a'' 1 ''x:80'')\<lparr>tconn := Some 1, upstream := True, connected := True,
     downBuf := \<lparr>base = 0, buf = [7], rmax = 100\<rparr>, upstreamWritten := 1, requestOutstanding := True,
     watchdog := Some 300\<rparr>"

definition late_ack_run :: "sevent list" where
  "late_ack_run = [EvData fair_env 1 [2], EvAck 1, EvDetach 1, EvRead fair_env [8] None, EvWatchdog]"

theorem late_ack_strands_response:
  "let (s, told) = foldl told_step (answered, False) late_ack_run
   in \<not> told \<and> tconn s = None \<and> upstreamWritten s = 2 \<and> buf (downBuf s) = [8] \<and> watchdog s = None"
  by (simp add: answered_def late_ack_run_def told_step_def needs_wake_def handler_defs)

text \<open>
  The ACK that drains the buffer of a session closed on both sides does not tear it down.
\<close>

theorem drained_session_not_destroyed:
  assumes "rb_retains (downBuf s) S" and "\<not> dead s" and "upClosed s" and "downClosed s"
  shows "let (s', es) = sess_step (EvAck (End (downBuf s))) s
    in Len (downBuf s') = 0 \<and> upClosed s' \<and> downClosed s' \<and> \<not> dead s' \<and> es = []"
proof -
  have "Len (TrimTo (downBuf s) (End (downBuf s))) = 0"
    using rb.trim_first [OF assms(1)] rb.trim_retains [OF assms(1)] unat_End [OF assms(1)] rb.first_le [OF assms(1)]
    by (subst Len_zero_iff) auto
  then show ?thesis using assms by (simp add: onDownstreamAck_def Let_def)
qed

text \<open>
  The dial publishes the connection before the queued bytes are written and counted. Bytes
  that arrive in between at the next offset are dropped as a gap, and a replay of the queued
  bytes is written twice.
\<close>

definition dialing :: session where
  "dialing = (newSession 100 0 ''ns/a'' 1 ''x:80'')\<lparr>preConn := [1, 2, 3], tconn := Some 1\<rparr>"

theorem dial_window_drops_data:
  "let (s, pre) = dialPublish fair_env dialing;
       (s, es1) = onData fair_env 3 [4] s;
       (s, es2) = dialFlush fair_env pre s
   in upBytes (es1 @ es2) = [1, 2, 3] \<and> upstreamWritten s = 3"
  by (simp add: dialing_def handler_defs)

theorem dial_window_duplicates_data:
  "let (s, pre) = dialPublish fair_env dialing;
       (s, es1) = onData fair_env 0 [1, 2, 3] s;
       (s, es2) = dialFlush fair_env pre s
   in upBytes (es1 @ es2) = [1, 2, 3, 1, 2, 3] \<and> upstreamWritten s = 6"
  by (simp add: dialing_def handler_defs)

text \<open>
  \<^verbatim>\<open>onData\<close> releases the lock while it writes. The offset check of a connected session is
  its first critical section; the write and the commit follow it. Two tunnels that both pass
  the check before either commits (a blocked upstream write stalls the old tunnel's PONGs,
  the sidecar reconnects and replays) write the same bytes twice.
\<close>

definition onDataAdmit :: "u64 \<Rightarrow> bytes \<Rightarrow> session \<Rightarrow> bytes option" where
  "onDataAdmit offset payload s =
     (if dead s \<or> \<not> connected s then None
      else if offset < upstreamWritten s then
        (let skip = upstreamWritten s - offset
         in if skip \<ge> of_nat (length payload) then None else Some (drop (unat skip) payload))
      else if offset > upstreamWritten s then None
      else Some payload)"

lemma onData_admit:
  "connected s \<Longrightarrow> onData e off p s =
     (case onDataAdmit off p s of None \<Rightarrow> (s, []) | Some q \<Rightarrow> writeUpstream e q s)"
  by (simp add: onData_def onDataAdmit_def Let_def)

theorem overlapping_onData_duplicates:
  assumes "onDataAdmit off p s = Some q" and "\<not> upBroken s" and "up_take e = None" and "up_take e' = None"
  shows "upBytes (snd (andThen (writeUpstream e q s) (writeUpstream e' q))) = q @ q"
proof -
  have "\<not> upBroken (fst (writeUpstream e q s))"
    using writeUpstream_ok [OF assms(2,3), of q] assms(2) by (auto dest: core_eqD(9))
  then show ?thesis using writeUpstream_ok assms by simp
qed

end
