(* ===== verification/Sidecar_Session.thy ===== *)
theory Sidecar_Session
  imports Wire Replay_Buffer Stream_Receiver
begin

text \<open>
  The sidecar's half of one tunnel session, \<^verbatim>\<open>internal/sidecar/session.go\<close>: the
  \<^verbatim>\<open>clientSession\<close> struct and one definition per method. A method maps the state to the
  new state and its effects in program order; a frame handed to \<^verbatim>\<open>Client.send\<close> is the
  effect \<open>Send\<close>, which the client turns into a write on its current tunnel or drops.
\<close>

section \<open>State and effects\<close>

datatype ceffect =
    AgentWrite bytes
  | AgentCloseWrite
  | AgentClose
  | Send frame
  | RemoveClientSession

text \<open>
  \<open>agentBroken\<close> and \<open>agentHalfCloses\<close> describe the agent-side connection: whether a write
  on it has failed (every later one then fails too), and whether its type has
  \<^verbatim>\<open>CloseWrite\<close>.
\<close>

record csession =
  cs_sessionID :: u64
  cs_target :: string
  agentBroken :: bool
  agentHalfCloses :: bool
  upBuf :: replay_buffer
  downDelivered :: u64
  cs_upClosed :: bool
  cs_downClosed :: bool
  cs_dead :: bool

type_synonym chandler = "csession \<Rightarrow> csession \<times> ceffect list"

section \<open>Methods\<close>

definition newClientSession :: "int \<Rightarrow> u64 \<Rightarrow> string \<Rightarrow> bool \<Rightarrow> csession" where
  "newClientSession sessionBuffer sid tgt halfCloses =
     \<lparr>cs_sessionID = sid, cs_target = tgt, agentBroken = False, agentHalfCloses = halfCloses,
      upBuf = NewReplayBuffer sessionBuffer, downDelivered = 0,
      cs_upClosed = False, cs_downClosed = False, cs_dead = False\<rparr>"

definition up_data :: "csession \<Rightarrow> u64 \<Rightarrow> bytes \<Rightarrow> frame" where
  "up_data s off p =
     zero_frame\<lparr>ftype := TypeData, SessionID := cs_sessionID s, Offset := off, Payload := p\<rparr>"

text \<open>
  One iteration of the loop of \<^verbatim>\<open>writeUp\<close>. The lock is released around the send, so
  other methods run between iterations.
\<close>

datatype write_result = WMore bytes | WDone | WWait bytes | WClosed | WFailed rb_error | WPanic

definition writeUpTurn :: "bytes \<Rightarrow> csession \<Rightarrow> csession \<times> ceffect list \<times> write_result" where
  "writeUpTurn p s =
     (if p = [] then (s, [], WDone)
      else if cs_dead s then (s, [], WClosed)
      else
        (let free = Free (upBuf s)
         in if free = 0 then (s, [], WWait p)
            else if free < 0 then (s, [], WPanic)
            else
              (let n = nat (min (int (length p)) free);
                   chunk = take n p;
                   offset = End (upBuf s)
               in case Append (upBuf s) chunk of
                    Inl err \<Rightarrow> (s, [], WFailed err)
                  | Inr b \<Rightarrow> (s\<lparr>upBuf := b\<rparr>, [Send (up_data s offset chunk)], WMore (drop n p)))))"

lemma writeUpTurn_shrinks: "writeUpTurn p s = (s', es, WMore q) \<Longrightarrow> length q < length p"
  by (auto simp: writeUpTurn_def Let_def split: if_splits sum.splits)

text \<open>The whole of \<^verbatim>\<open>writeUp\<close> when nothing else runs in between.\<close>

function writeUp :: "bytes \<Rightarrow> csession \<Rightarrow> csession \<times> ceffect list \<times> write_result" where
  "writeUp p s =
     (case writeUpTurn p s of
        (s1, es, WMore q) \<Rightarrow> (case writeUp q s1 of (s2, es2, r) \<Rightarrow> (s2, es @ es2, r))
      | r \<Rightarrow> r)"
  by pat_completeness auto
termination
  by (relation "measure (\<lambda>(p, s). length p)") (auto dest: writeUpTurn_shrinks [OF sym])

declare writeUp.simps [simp del]

definition onUpstreamAck :: "u64 \<Rightarrow> csession \<Rightarrow> csession" where
  "onUpstreamAck offset s = s\<lparr>upBuf := TrimTo (upBuf s) offset\<rparr>"

definition closeAll :: chandler where
  "closeAll s =
     (if cs_dead s then (s, []) else (s\<lparr>cs_dead := True\<rparr>, [AgentClose, RemoveClientSession]))"

definition down_ack :: "csession \<Rightarrow> frame" where
  "down_ack s = zero_frame\<lparr>ftype := TypeAck, SessionID := cs_sessionID s, Offset := downDelivered s\<rparr>"

text \<open>
  \<^verbatim>\<open>agent.Write\<close> of \<open>deliverDown\<close>: \<open>agent_take\<close> is \<^const>\<open>None\<close> when the agent
  connection takes the write, and \<^term>\<open>Some k\<close> when it fails after \<open>k\<close> bytes.
\<close>

definition agentWrite :: "nat option \<Rightarrow> bytes \<Rightarrow> chandler" where
  "agentWrite agent_take p s =
     (if agentBroken s then
        (let (s1, es) = closeAll s in (s1, AgentWrite [] # es))
      else case agent_take of
        Some k \<Rightarrow> (let (s1, es) = closeAll (s\<lparr>agentBroken := True\<rparr>) in (s1, AgentWrite (take k p) # es))
      | None \<Rightarrow> (let s1 = s\<lparr>downDelivered := downDelivered s + of_nat (length p)\<rparr>
                 in (s1, [AgentWrite p, Send (down_ack s1)])))"

definition deliverDown :: "nat option \<Rightarrow> u64 \<Rightarrow> bytes \<Rightarrow> chandler" where
  "deliverDown agent_take offset payload s =
     (if cs_dead s then (s, [])
      else if offset < downDelivered s then
        (let skip = downDelivered s - offset
         in if skip \<ge> of_nat (length payload) then (s, [])
            else agentWrite agent_take (drop (unat skip) payload) s)
      else if offset > downDelivered s then (s, [])
      else agentWrite agent_take payload s)"

definition attachFrame :: "csession \<Rightarrow> frame" where
  "attachFrame s =
     zero_frame\<lparr>ftype := TypeAttach, SessionID := cs_sessionID s, Offset := downDelivered s, Target := cs_target s\<rparr>"

definition onAttachOK :: "u64 \<Rightarrow> chandler" where
  "onAttachOK offset s =
     (let s1 = s\<lparr>upBuf := TrimTo (upBuf s) offset\<rparr>
      in case From (upBuf s1) offset of
           Inl _ \<Rightarrow> (s1, [])
         | Inr replay \<Rightarrow> (s1, if length replay > 0 then [Send (up_data s1 offset replay)] else []))"

definition onClose :: "u8 \<Rightarrow> chandler" where
  "onClose d s =
     (if d = DirDown then
        (let s1 = s\<lparr>cs_downClosed := True\<rparr>
         in if agentHalfCloses s then (s1, [AgentCloseWrite]) else closeAll s1)
      else (s, []))"

definition closeUp :: "string \<Rightarrow> chandler" where
  "closeUp reason s =
     (if cs_upClosed s then (s, [])
      else (s\<lparr>cs_upClosed := True\<rparr>,
            [Send (zero_frame\<lparr>ftype := TypeClose, SessionID := cs_sessionID s, Dir := DirUp, Reason := reason\<rparr>)]))"

text \<open>What \<^verbatim>\<open>readLoop\<close> calls on a session it has found.\<close>

definition csess_frame :: "nat option \<Rightarrow> frame \<Rightarrow> chandler" where
  "csess_frame agent_take f s =
     (if ftype f = TypeAttachOK then onAttachOK (Offset f) s
      else if ftype f = TypeData then deliverDown agent_take (Offset f) (Payload f) s
      else if ftype f = TypeAck then (onUpstreamAck (Offset f) s, [])
      else if ftype f = TypeClose then onClose (Dir f) s
      else (s, []))"

section \<open>Reading effects\<close>

fun agentBytes :: "ceffect list \<Rightarrow> bytes" where
  "agentBytes [] = []"
| "agentBytes (AgentWrite p # es) = p @ agentBytes es"
| "agentBytes (_ # es) = agentBytes es"

fun sentFrames :: "ceffect list \<Rightarrow> frame list" where
  "sentFrames [] = []"
| "sentFrames (Send f # es) = f # sentFrames es"
| "sentFrames (_ # es) = sentFrames es"

lemma agentBytes_append [simp]: "agentBytes (es @ es') = agentBytes es @ agentBytes es'"
  by (induction es rule: agentBytes.induct) simp_all

lemma sentFrames_append [simp]: "sentFrames (es @ es') = sentFrames es @ sentFrames es'"
  by (induction es rule: sentFrames.induct) simp_all

section \<open>The receiver of downstream bytes\<close>

lemma deliverDown_fresh:
  assumes "\<not> cs_dead s" and "length p < 2 ^ 64"
  shows "deliverDown a off p s =
    (let q = fresh (unat (downDelivered s)) (unat off) p
     in if q \<noteq> [] \<or> off = downDelivered s then agentWrite a q s else (s, []))"
proof -
  consider "off < downDelivered s" | "off = downDelivered s" | "off > downDelivered s" by fastforce
  then show ?thesis
  proof cases
    case 1
    then show ?thesis using assms skip_arith [OF assms(2) 1] unat_mono [OF 1]
      by (auto simp: deliverDown_def fresh_def Let_def)
  next
    case 2
    then show ?thesis using assms by (simp add: deliverDown_def fresh_def)
  next
    case 3
    then show ?thesis using assms unat_mono [OF 3] by (auto simp: deliverDown_def fresh_def Let_def)
  qed
qed

lemma closeAll_simps [simp]:
  "agentBytes (snd (closeAll s)) = []" "sentFrames (snd (closeAll s)) = []"
  "agentBroken (fst (closeAll s)) = agentBroken s" "downDelivered (fst (closeAll s)) = downDelivered s"
  "upBuf (fst (closeAll s)) = upBuf s" "cs_sessionID (fst (closeAll s)) = cs_sessionID s"
  "cs_dead (fst (closeAll s))"
  by (auto simp: closeAll_def)

lemma onClose_simps [simp]:
  "agentBytes (snd (onClose d s)) = []" "sentFrames (snd (onClose d s)) = []"
  "agentBroken (fst (onClose d s)) = agentBroken s" "downDelivered (fst (onClose d s)) = downDelivered s"
  "upBuf (fst (onClose d s)) = upBuf s"
  by (simp_all add: onClose_def Let_def)

lemma agentWrite_cases:
  obtains (broken) "agentBroken s" "agentBytes (snd (agentWrite a p s)) = []" "agentBroken (fst (agentWrite a p s))"
      "downDelivered (fst (agentWrite a p s)) = downDelivered s"
    | (fails) k where "\<not> agentBroken s" "agentBytes (snd (agentWrite a p s)) = take k p" "agentBroken (fst (agentWrite a p s))"
      "downDelivered (fst (agentWrite a p s)) = downDelivered s"
    | (ok) "\<not> agentBroken s" "a = None" "agentBytes (snd (agentWrite a p s)) = p" "\<not> agentBroken (fst (agentWrite a p s))"
      "downDelivered (fst (agentWrite a p s)) = downDelivered s + of_nat (length p)"
  by (cases "agentBroken s"; cases a) (auto simp: agentWrite_def Let_def split_beta)

lemma deliverDown_broken:
  "agentBroken s \<Longrightarrow> agentBytes (snd (deliverDown a off p s)) = [] \<and> agentBroken (fst (deliverDown a off p s))"
  by (auto simp: deliverDown_def Let_def agentWrite_def split_beta)

lemma deliverDown_delivers:
  assumes "length p < 2 ^ 64"
  shows "\<not> agentBroken s \<Longrightarrow>
      prefix (agentBytes (snd (deliverDown a off p s))) (fresh (unat (downDelivered s)) (unat off) p)"
    and "\<not> agentBroken (fst (deliverDown a off p s)) \<Longrightarrow>
      downDelivered (fst (deliverDown a off p s)) =
        downDelivered s + of_nat (length (agentBytes (snd (deliverDown a off p s))))"
proof -
  let ?q = "fresh (unat (downDelivered s)) (unat off) p"
  have c: "deliverDown a off p s = (s, []) \<or> deliverDown a off p s = agentWrite a ?q s"
    using deliverDown_fresh [OF _ assms, of s a off]
    by (cases "cs_dead s") (auto simp: deliverDown_def Let_def)
  then show "\<not> agentBroken s \<Longrightarrow> prefix (agentBytes (snd (deliverDown a off p s))) ?q"
    by (cases rule: agentWrite_cases [of s a ?q]) (auto simp: take_is_prefix)
  show "\<not> agentBroken (fst (deliverDown a off p s)) \<Longrightarrow>
      downDelivered (fst (deliverDown a off p s)) =
        downDelivered s + of_nat (length (agentBytes (snd (deliverDown a off p s))))"
    using c by (cases rule: agentWrite_cases [of s a ?q]) auto
qed

interpretation down: offset_receiver
  "\<lambda>off p s. fst (deliverDown a off p s)" "\<lambda>off p s. agentBytes (snd (deliverDown a off p s))"
  "\<lambda>s. unat (downDelivered s)" agentBroken for a
proof unfold_locales
  fix s :: csession and p :: bytes and off :: u64
  assume fits: "unat (downDelivered s) + length p < 2 ^ 64" "unat off + length p < 2 ^ 64"
  then have len: "length p < 2 ^ 64" by simp
  note w = deliverDown_delivers [OF len, where a = a and off = off and s = s]
  show "\<not> agentBroken s \<Longrightarrow>
      prefix (agentBytes (snd (deliverDown a off p s))) (fresh (unat (downDelivered s)) (unat off) p)"
    by (rule w)
  have "length (agentBytes (snd (deliverDown a off p s))) \<le> length p"
    using prefix_length_le [OF w(1)] deliverDown_broken [of s a off p]
      fresh_le [of "unat (downDelivered s)" "unat off" p]
    by (cases "agentBroken s") auto
  then show "\<not> agentBroken (fst (deliverDown a off p s)) \<Longrightarrow>
      unat (downDelivered (fst (deliverDown a off p s))) =
      unat (downDelivered s) + length (agentBytes (snd (deliverDown a off p s)))"
    using w(2) fits by (simp add: unat_add_less)
qed (rule deliverDown_broken)

section \<open>The sender of upstream bytes\<close>

lemma writeUpTurn_spec:
  assumes "rb_retains (upBuf s) U" and "\<not> cs_dead s" and "0 \<le> Free (upBuf s)"
    and "length U + length p < 2 ^ 64" and "p \<noteq> []" and "writeUpTurn p s = (s', es, r)"
  defines "n \<equiv> nat (min (int (length p)) (Free (upBuf s)))"
  shows "s' = s\<lparr>upBuf := (upBuf s)\<lparr>buf := buf (upBuf s) @ take n p\<rparr>\<rparr> \<and> rb_retains (upBuf s') (U @ take n p) \<and>
    0 \<le> Free (upBuf s') \<and> (n < length p \<longrightarrow> Free (upBuf s') = 0) \<and>
    (if n = 0 then r = WWait p \<and> es = []
     else r = WMore (drop n p) \<and> es = [Send (up_data s (of_nat (length U)) (take n p))])"
proof -
  have n: "n \<le> length p" "int n \<le> Free (upBuf s)" "n < length p \<Longrightarrow> Free (upBuf s) = int n"
    using assms(3) by (auto simp: n_def min_def)
  let ?b = "(upBuf s)\<lparr>buf := buf (upBuf s) @ take n p\<rparr>"
  have app: "Append (upBuf s) (take n p) = Inr ?b" by (rule Append_fits) (use n in simp)
  have ret: "rb_retains ?b (U @ take n p)"
    using rb.append_retains [OF assms(1) app] assms(4) n(1) by simp
  have e: "End (upBuf s) = of_nat (length U)" using unat_End [OF assms(1)] by (metis of_nat_unat ucast_id)
  have fr: "Free ?b = Free (upBuf s) - int n" using n(1) by (simp add: Free_def)
  have zero: "n = 0 \<longleftrightarrow> Free (upBuf s) = 0"
    using assms(3,5) by (auto simp: n_def min_def split: if_splits)
  show ?thesis
  proof (cases "n = 0")
    case True
    then show ?thesis using assms(2,5,6) zero fr ret by (auto simp: writeUpTurn_def)
  next
    case False
    then have "s' = s\<lparr>upBuf := ?b\<rparr>" "r = WMore (drop n p)" "es = [Send (up_data s (of_nat (length U)) (take n p))]"
      using assms(2,3,5,6) zero app e by (auto simp: writeUpTurn_def Let_def simp flip: n_def split: if_splits)
    then show ?thesis using False n fr ret by auto
  qed
qed

lemma onAttachOK_spec:
  assumes "rb_retains (upBuf s) U"
  shows "onAttachOK off s =
    (s\<lparr>upBuf := TrimTo (upBuf s) off\<rparr>,
     if rb_first (upBuf s) \<le> unat off \<and> unat off < length U then [Send (up_data s off (drop (unat off) U))] else [])"
proof (cases "rb_first (upBuf s) \<le> unat off \<and> unat off \<le> length U")
  case True
  then show ?thesis
    using rb.trim_replay [OF assms, of off] by (simp add: onAttachOK_def up_data_def)
next
  case False
  have "\<exists>err. From (TrimTo (upBuf s) off) off = Inl err"
    using rb.replay_fails [OF rb.trim_retains [OF assms], of off off] rb.trim_first [OF assms, of off] False
      rb.first_le [OF assms]
    by (cases "From (TrimTo (upBuf s) off) off") (auto simp: max_def min_def split: if_splits)
  then show ?thesis using False by (auto simp: onAttachOK_def)
qed

section \<open>Properties\<close>

lemmas csession_eval [handler_defs] =
  newClientSession_def up_data_def writeUpTurn_def onUpstreamAck_def closeAll_def down_ack_def
  agentWrite_def deliverDown_def attachFrame_def onAttachOK_def onClose_def closeUp_def

text \<open>
  C28. Agent bytes are retained before they are sent, in order and within the buffer's capacity.
  On a live session whose buffer retains \<open>U\<close>, an undisturbed \<^verbatim>\<open>writeUp\<close> of \<open>p\<close>
  either takes all of \<open>p\<close>, or fills the buffer and waits holding exactly the rest; the buffer
  then retains \<open>U\<close> followed by what was taken, and the only frame sent carries exactly those
  bytes at their stream offset.
\<close>

theorem writeUp_in_order:
  assumes U: "rb_retains (upBuf s) U" and "\<not> cs_dead s" and "0 \<le> Free (upBuf s)"
    and "length U + length p < 2 ^ 64" and "writeUp p s = (s', es, r)"
  shows "\<exists>q rest. p = q @ rest \<and> rb_retains (upBuf s') (U @ q) \<and> 0 \<le> Free (upBuf s') \<and>
    (rest = [] \<and> r = WDone \<or> rest \<noteq> [] \<and> r = WWait rest \<and> Free (upBuf s') = 0) \<and>
    es = (if q = [] then [] else [Send (up_data s (of_nat (length U)) q)])"
proof (cases "p = []")
  case True
  then have "writeUp p s = (s, [], WDone)" by (subst writeUp.simps) (simp add: writeUpTurn_def)
  then show ?thesis using True assms by simp
next
  case False
  define n where "n = nat (min (int (length p)) (Free (upBuf s)))"
  obtain s1 es1 r1 where t: "writeUpTurn p s = (s1, es1, r1)" by (cases "writeUpTurn p s")
  note sp = writeUpTurn_spec [OF U assms(2-4) False t, folded n_def]
  have n: "n \<le> length p" using assms(3) by (auto simp: n_def)
  show ?thesis
  proof (cases "n = 0")
    case True
    then have "writeUp p s = (s1, [], WWait p)" using sp t by (subst writeUp.simps) simp
    then have "s' = s1" "es = []" "r = WWait p" using assms(5) by auto
    then show ?thesis using sp True False by (intro exI [of _ "[]"] exI [of _ p]) auto
  next
    case nz: False
    have "\<not> cs_dead s1" using sp assms(2) by simp
    then have stop: "writeUp (drop n p) s1 = (s1, [], if n = length p then WDone else WWait (drop n p))"
      using sp n by (subst writeUp.simps) (auto simp: writeUpTurn_def)
    have "writeUp p s = (s1, es1, if n = length p then WDone else WWait (drop n p))"
      using sp t nz stop by (subst writeUp.simps) simp
    then have "s' = s1" "es = es1" "r = (if n = length p then WDone else WWait (drop n p))"
      using assms(5) by auto
    then show ?thesis
      using sp nz n False by (intro exI [of _ "take n p"] exI [of _ "drop n p"]) auto
  qed
qed

theorem writeUp_in_order_witness:
  "let (s', es, r) = writeUp [1, 2, 3, 4] (newClientSession 3 1 ''x:80'' True)
   in \<exists>q rest. [1, 2, 3, 4] = q @ rest \<and> rb_retains (upBuf s') q \<and> 0 \<le> Free (upBuf s') \<and>
     (rest = [] \<and> r = WDone \<or> rest \<noteq> [] \<and> r = WWait rest \<and> Free (upBuf s') = 0)"
proof -
  define s where "s = newClientSession 3 1 ''x:80'' True"
  have "rb_retains (upBuf s) []" "\<not> cs_dead s" "0 \<le> Free (upBuf s)" by (simp_all add: s_def handler_defs rb_retains_def)
  moreover obtain s' es r where w: "writeUp [1, 2, 3, 4] s = (s', es, r)" by (cases "writeUp [1, 2, 3, 4] s")
  ultimately show ?thesis
    using writeUp_in_order [of s "[]" "[1, 2, 3, 4]" s' es r] unfolding s_def [symmetric] w by auto
qed



end
