(* ===== verification/Tunnel_System.thy ===== *)
theory Tunnel_System
  imports Broker_Session Sidecar_Session
begin

text \<open>
  One session end to end: the sidecar's \<^verbatim>\<open>clientSession\<close>, the broker's
  \<^verbatim>\<open>session\<close>, and everything between and around them. The tunnel is as bad as a chain of
  broken connections can make it: a frame once sent may be delivered at any later time, in
  any order, any number of times or never. The stream invariants hold all the same, because
  both ends check offsets and keep what is not confirmed.
\<close>

section \<open>The composed system\<close>

text \<open>
  \<open>agentSent\<close> are the bytes the sidecar has accepted from the agent, \<open>upGot\<close> the bytes the
  destination received, \<open>upSent\<close> the bytes the broker has read from the destination,
  \<open>produced\<close> those of them that have entered its buffer, and \<open>agentGot\<close> the bytes the agent
  received. The two sets hold every frame ever sent in a direction.
\<close>

record tsys =
  sc :: csession
  bs :: session
  toBroker :: "frame set"
  toSidecar :: "frame set"
  agentSent :: bytes
  upGot :: bytes
  upSent :: bytes
  produced :: bytes
  reader_st :: reader_state
  agentGot :: bytes

fun held :: "reader_state \<Rightarrow> bytes" where
  "held (Holding q err) = q"
| "held _ = []"

text \<open>A result of a sidecar method, put back into the system.\<close>

definition sidecar_ran :: "csession \<times> ceffect list \<Rightarrow> tsys \<Rightarrow> tsys" where
  "sidecar_ran r \<sigma> =
     \<sigma>\<lparr>sc := fst r, toBroker := toBroker \<sigma> \<union> set (sentFrames (snd r)),
       agentGot := agentGot \<sigma> @ agentBytes (snd r)\<rparr>"

definition broker_ran :: "session \<times> effect list \<Rightarrow> tsys \<Rightarrow> tsys" where
  "broker_ran r \<sigma> =
     \<sigma>\<lparr>bs := fst r, toSidecar := toSidecar \<sigma> \<union> set (tunFrames (snd r)),
       upGot := upGot \<sigma> @ upBytes (snd r)\<rparr>"

definition taken :: "replay_buffer \<Rightarrow> replay_buffer \<Rightarrow> bytes" where
  "taken b b' = drop (length (buf b)) (buf b')"

definition reader_ran :: "session \<times> effect list \<times> reader_state \<Rightarrow> tsys \<Rightarrow> tsys" where
  "reader_ran r \<sigma> =
     (case r of (s, es, rd) \<Rightarrow>
        (broker_ran (s, es) \<sigma>)\<lparr>produced := produced \<sigma> @ taken (downBuf (bs \<sigma>)) (downBuf s), reader_st := rd\<rparr>)"

definition open_frame :: "u64 \<Rightarrow> string \<Rightarrow> frame" where
  "open_frame sid tgt = zero_frame\<lparr>ftype := TypeOpen, SessionID := sid, Target := tgt\<rparr>"

definition tsys_init :: "int \<Rightarrow> int \<Rightarrow> int \<Rightarrow> string \<Rightarrow> u64 \<Rightarrow> string \<Rightarrow> bool \<Rightarrow> tsys" where
  "tsys_init m m' t actor sid tgt hc =
     \<lparr>sc = newClientSession m sid tgt hc, bs = newSession m' t actor sid tgt,
      toBroker = {open_frame sid tgt}, toSidecar = {}, agentSent = [], upGot = [],
      upSent = [], produced = [], reader_st = Reading, agentGot = []\<rparr>"

text \<open>
  The steps. Each runs one method of one side. The dial is one step here: what can happen
  between its two critical sections is the subject of \<open>dial_window_drops_data\<close> and
  \<open>dial_window_duplicates_data\<close>. The last two are what the broker does around the session: it
  binds a session it has just created to the tunnel of the OPEN, and it answers a frame whose
  session it refuses or has lost with a CLOSE of its own. Streams stay below \<open>2 ^ 63\<close> bytes.
\<close>

inductive tstep :: "tsys \<Rightarrow> tsys \<Rightarrow> bool" where
  agent_writes:
    "writeUpTurn p (sc \<sigma>) = (s', es, r) \<Longrightarrow> length (agentSent \<sigma>) + length p < 2 ^ 63 \<Longrightarrow>
     tstep \<sigma> ((sidecar_ran (s', es) \<sigma>)\<lparr>agentSent := agentSent \<sigma> @ taken (upBuf (sc \<sigma>)) (upBuf s')\<rparr>)"
| agent_closes: "tstep \<sigma> (sidecar_ran (closeUp reason (sc \<sigma>)) \<sigma>)"
| agent_gone: "tstep \<sigma> (sidecar_ran (closeAll (sc \<sigma>)) \<sigma>)"
| reconnects: "\<not> cs_dead (sc \<sigma>) \<Longrightarrow> tstep \<sigma> (\<sigma>\<lparr>toBroker := insert (attachFrame (sc \<sigma>)) (toBroker \<sigma>)\<rparr>)"
| sidecar_receives: "f \<in> toSidecar \<sigma> \<Longrightarrow> tstep \<sigma> (sidecar_ran (csess_frame a f (sc \<sigma>)) \<sigma>)"
| broker_receives: "f \<in> toBroker \<sigma> \<Longrightarrow> tstep \<sigma> (broker_ran (sess_frame e tc f (bs \<sigma>)) \<sigma>)"
| tunnel_ends: "tstep \<sigma> (broker_ran (detach tc (bs \<sigma>)) \<sigma>)"
| dials: "\<not> connected (bs \<sigma>) \<Longrightarrow> tstep \<sigma> (broker_ran (dialUpstream e result (bs \<sigma>)) \<sigma>)"
| upstream_sends:
    "connected (bs \<sigma>) \<Longrightarrow> reader_st \<sigma> = Reading \<Longrightarrow> length (upSent \<sigma>) + length p < 2 ^ 63 \<Longrightarrow>
     tstep \<sigma> ((reader_ran (readUpstreamTurn e p err (bs \<sigma>)) \<sigma>)\<lparr>upSent := upSent \<sigma> @ p\<rparr>)"
| reader_retries:
    "reader_st \<sigma> = Holding q err \<Longrightarrow> tstep \<sigma> (reader_ran (readUpstreamTurn e q err (bs \<sigma>)) \<sigma>)"
| watchdog_fires: "tstep \<sigma> (broker_ran (watchdogFires (bs \<sigma>)) \<sigma>)"
| opens: "tstep \<sigma> (\<sigma>\<lparr>bs := bind tc (bs \<sigma>)\<rparr>)"
| refuses: "tstep \<sigma> (\<sigma>\<lparr>toSidecar := insert (close_frame sid reason) (toSidecar \<sigma>)\<rparr>)"

inductive treach :: "tsys \<Rightarrow> bool" where
  init: "0 \<le> m \<Longrightarrow> 0 \<le> m' \<Longrightarrow> treach (tsys_init m m' t actor sid tgt hc)"
| step: "treach \<sigma> \<Longrightarrow> tstep \<sigma> \<sigma>' \<Longrightarrow> treach \<sigma>'"

inductive_cases tstepE: "tstep \<sigma> \<sigma>'"

section \<open>Invariants\<close>

text \<open>
  Agent to destination. What travels is a slice of what the agent sent; what the destination
  got (or what is queued for it while the dial is pending) is a prefix; confirmations never
  exceed what was written, so the sidecar still holds everything that was not.
\<close>

definition data_slices :: "bytes \<Rightarrow> frame set \<Rightarrow> bool" where
  "data_slices S N \<longleftrightarrow> (\<forall>f\<in>N. ftype f = TypeData \<longrightarrow> slice S (unat (Offset f)) (Payload f))"

definition confirms :: "u64 \<Rightarrow> frame set \<Rightarrow> bool" where
  "confirms n N \<longleftrightarrow> (\<forall>f\<in>N. ftype f \<in> {TypeAck, TypeAttachOK} \<longrightarrow> unat (Offset f) \<le> unat n)"

definition up_written :: "bytes \<Rightarrow> bytes \<Rightarrow> session \<Rightarrow> bool" where
  "up_written U W s \<longleftrightarrow> unat (upstreamWritten s) \<le> length U \<and>
     (if connected s then in_step U W (unat (upstreamWritten s)) (upBroken s)
      else W = [] \<and> upstreamWritten s = 0 \<and> \<not> upBroken s \<and> prefix (preConn s) U)"

definition up_inv :: "tsys \<Rightarrow> bool" where
  "up_inv \<sigma> \<longleftrightarrow> length (agentSent \<sigma>) < 2 ^ 63 \<and> rb_retains (upBuf (sc \<sigma>)) (agentSent \<sigma>) \<and>
     0 \<le> Free (upBuf (sc \<sigma>)) \<and>
     data_slices (agentSent \<sigma>) (toBroker \<sigma>) \<and> up_written (agentSent \<sigma>) (upGot \<sigma>) (bs \<sigma>) \<and>
     confirms (upstreamWritten (bs \<sigma>)) (toSidecar \<sigma>) \<and>
     rb_first (upBuf (sc \<sigma>)) \<le> unat (upstreamWritten (bs \<sigma>))"

text \<open>Destination to agent.\<close>

definition down_inv :: "tsys \<Rightarrow> bool" where
  "down_inv \<sigma> \<longleftrightarrow> length (upSent \<sigma>) < 2 ^ 63 \<and> prefix (produced \<sigma>) (upSent \<sigma>) \<and>
     (\<not> dead (bs \<sigma>) \<longrightarrow> produced \<sigma> @ held (reader_st \<sigma>) = upSent \<sigma>) \<and>
     rb_retains (downBuf (bs \<sigma>)) (produced \<sigma>) \<and> 0 \<le> Free (downBuf (bs \<sigma>)) \<and>
     data_slices (produced \<sigma>) (toSidecar \<sigma>) \<and>
     in_step (produced \<sigma>) (agentGot \<sigma>) (unat (downDelivered (sc \<sigma>))) (agentBroken (sc \<sigma>)) \<and>
     unat (downDelivered (sc \<sigma>)) \<le> length (produced \<sigma>) \<and>
     (\<forall>f\<in>toBroker \<sigma>. ftype f \<in> {TypeAck, TypeAttach} \<longrightarrow> unat (Offset f) \<le> unat (downDelivered (sc \<sigma>))) \<and>
     rb_first (downBuf (bs \<sigma>)) \<le> unat (downDelivered (sc \<sigma>))"

lemma data_slices_Un [simp]: "data_slices S (M \<union> N) \<longleftrightarrow> data_slices S M \<and> data_slices S N"
  by (auto simp: data_slices_def)

lemma data_slices_empty [simp]: "data_slices S {}"
  by (simp add: data_slices_def)

lemma data_slices_append: "data_slices S N \<Longrightarrow> data_slices (S @ T) N"
  by (auto simp: data_slices_def slice_append)

lemma confirms_Un [simp]: "confirms n (M \<union> N) \<longleftrightarrow> confirms n M \<and> confirms n N"
  by (auto simp: confirms_def)

lemma confirms_empty [simp]: "confirms n {}"
  by (simp add: confirms_def)

lemma confirms_mono: "confirms n N \<Longrightarrow> unat n \<le> unat m \<Longrightarrow> confirms m N"
  by (auto simp: confirms_def intro: order_trans)

section \<open>What the broker's methods do to the streams\<close>

text \<open>
  \<open>up_ok\<close>: a method run keeps the upstream invariant and confirms nothing it has not
  written. \<open>down_kept\<close>: it leaves the downstream buffer alone and sends only slices of it.
\<close>

definition up_ok :: "bytes \<Rightarrow> bytes \<Rightarrow> session \<Rightarrow> session \<times> effect list \<Rightarrow> bool" where
  "up_ok U W s r \<longleftrightarrow> up_written U (W @ upBytes (snd r)) (fst r) \<and>
     unat (upstreamWritten s) \<le> unat (upstreamWritten (fst r)) \<and>
     confirms (upstreamWritten (fst r)) (set (tunFrames (snd r)))"

definition down_kept :: "bytes \<Rightarrow> session \<Rightarrow> session \<times> effect list \<Rightarrow> bool" where
  "down_kept D s r \<longleftrightarrow> downBuf (fst r) = downBuf s \<and> (dead s \<longrightarrow> dead (fst r)) \<and>
     data_slices D (set (tunFrames (snd r)))"

lemma up_written_cong:
  "upstreamWritten s = upstreamWritten t \<Longrightarrow> connected s = connected t \<Longrightarrow> upBroken s = upBroken t \<Longrightarrow>
   preConn s = preConn t \<Longrightarrow> up_written U W s = up_written U W t"
  by (simp add: up_written_def)

lemma up_ok_core:
  assumes "up_written U W s" and "core (fst r) = core s" and "upBytes (snd r) = []"
    and "confirms (upstreamWritten s) (set (tunFrames (snd r)))"
  shows "up_ok U W s r"
  using assms core_eqD [OF assms(2)] up_written_cong [of "fst r" s U W] by (simp add: up_ok_def)

lemma closing_frames:
  "set (tunFrames es) \<subseteq> {close_frame sid reason} \<Longrightarrow> confirms n (set (tunFrames es))"
  "set (tunFrames es) \<subseteq> {close_frame sid reason} \<Longrightarrow> data_slices D (set (tunFrames es))"
  by (auto simp: confirms_def data_slices_def close_frame_def)

lemma dead_closeUpstream: "dead s \<Longrightarrow> dead (fst (closeUpstream e c s))"
  by (auto simp: closeUpstream_def Let_def maybeDestroy_def)

lemma onSidecarAttach_frames:
  "set (tunFrames (snd (onSidecarAttach e off s))) \<subseteq>
     {attachok_frame (sessionID s) (upstreamWritten s), close_frame (sessionID s) ''upstream EOF''} \<union>
     {data_frame (sessionID s) off p |p. From (downBuf s) off = Inr p}"
proof -
  have sid: "sessionID (fst (sendToSidecar e f t)) = sessionID t" for f t
    by (rule core_eqD) simp
  show ?thesis
    by (auto simp: onSidecarAttach_def Let_def tunFrames_send sid split: if_splits sum.splits)
qed

lemma up_ok_attach: "up_written U W s \<Longrightarrow> up_ok U W s (onSidecarAttach e off (bind tc s))"
proof (rule up_ok_core)
  have "upstreamWritten (bind tc s) = upstreamWritten s" by (rule core_eqD) simp
  then show "confirms (upstreamWritten s) (set (tunFrames (snd (onSidecarAttach e off (bind tc s)))))"
    using onSidecarAttach_frames [of e off "bind tc s"]
    by (fastforce simp: confirms_def attachok_frame_def close_frame_def data_frame_def)
qed simp_all

lemma down_kept_attach:
  assumes "rb_retains (downBuf s) D"
  shows "down_kept D s (onSidecarAttach e off (bind tc s))"
proof -
  have b: "downBuf (bind tc s) = downBuf s" by (rule core_eqD) simp
  have "slice D (unat off) p" if "From (downBuf s) off = Inr p" for p
    using rb.replay_InrD [OF assms that] slice_drop by blast
  then have "data_slices D (set (tunFrames (snd (onSidecarAttach e off (bind tc s)))))"
    using onSidecarAttach_frames [of e off "bind tc s"]
    unfolding data_slices_def b by (fastforce simp: attachok_frame_def close_frame_def data_frame_def)
  moreover have "dead (fst (onSidecarAttach e off (bind tc s))) = dead s"
    by (simp add: onSidecarAttach_def Let_def bind_def)
  moreover have "downBuf (fst (onSidecarAttach e off (bind tc s))) = downBuf s"
    using b core_eqD(7) [OF core_onSidecarAttach [of e off "bind tc s"]] by simp
  ultimately show ?thesis by (simp add: down_kept_def)
qed

lemma onSidecarClose_frames [simp]: "tunFrames (snd (onSidecarClose d s)) = []"
  by (simp add: onSidecarClose_def)

lemma quiet_methods:
  assumes "up_written U W s"
  shows "up_ok U W s (onSidecarClose d s) \<and> down_kept D s (onSidecarClose d s)"
    and "up_ok U W s (detach tc s) \<and> down_kept D s (detach tc s)"
    and "up_ok U W s (watchdogFires s) \<and> down_kept D s (watchdogFires s)"
proof -
  have "upBytes (snd (detach tc s)) = []" "upBytes (snd (watchdogFires s)) = []" "tunFrames (snd (watchdogFires s)) = []"
    "dead (fst (detach tc s)) = dead s" "dead (fst (watchdogFires s)) = dead s"
    by (simp_all add: detach_def watchdogFires_def Let_def)
  moreover have "dead s \<longrightarrow> dead (fst (onSidecarClose d s))"
    by (simp add: onSidecarClose_def maybeDestroy_def)
  ultimately show "up_ok U W s (onSidecarClose d s) \<and> down_kept D s (onSidecarClose d s)"
    "up_ok U W s (detach tc s) \<and> down_kept D s (detach tc s)"
    "up_ok U W s (watchdogFires s) \<and> down_kept D s (watchdogFires s)"
    using assms core_eqD(7) [OF core_onSidecarClose [of d s]] core_eqD(7) [OF core_detach [of tc s]]
      core_eqD(7) [OF core_watchdogFires [of s]]
    by (auto simp: down_kept_def intro!: up_ok_core)
qed

subsection \<open>Request bytes\<close>

lemma confirms_writeUpstream:
  "confirms (upstreamWritten (fst (writeUpstream e q s))) (set (tunFrames (snd (writeUpstream e q s))))"
proof (cases "upBroken s \<or> up_take e \<noteq> None")
  case True
  then have "set (tunFrames (snd (writeUpstream e q s))) \<subseteq> {close_frame (sessionID s) (up_errtext e)}"
    using tunFrames_closeUpstream [of e "Some (up_errtext e)" s]
      tunFrames_closeUpstream [of e "Some (up_errtext e)" "s\<lparr>upBroken := True\<rparr>"]
    by (auto simp: writeUpstream_def upWrite_def closeText_def)
  then show ?thesis by (rule closing_frames)
next
  case False
  then have w: "writeUpstream e q s = andThen (s, [UpWrite q]) (commitUp e (length q))"
    by (simp add: writeUpstream_def upWrite_def)
  show ?thesis
    using core_eqD(8) [OF core_commitUp [of e "length q" s]]
    by (auto simp: w commitUp_def Let_def tunFrames_send confirms_def ack_frame_def armWatchdogLocked_def)
qed

lemma dead_writeUpstream: "dead s \<Longrightarrow> dead (fst (writeUpstream e q s))"
  by (auto simp: writeUpstream_def upWrite_def commitUp_def Let_def armWatchdogLocked_def dead_closeUpstream
      split: option.splits)

lemma writeUpstream_broken_count:
  "upBroken (fst (writeUpstream e q s)) \<Longrightarrow> upstreamWritten (fst (writeUpstream e q s)) = upstreamWritten s"
  by (cases rule: writeUpstream_cases [of s e q]) (auto dest: core_eqD(8,9))

lemma onData_broken_count:
  "upBroken (fst (onData e off p s)) \<Longrightarrow> upstreamWritten (fst (onData e off p s)) = upstreamWritten s"
  by (auto simp: onData_def Let_def writeUpstream_broken_count split: if_splits)

lemma down_kept_onData: "down_kept D s (onData e off p s)"
proof -
  have w: "down_kept D s (writeUpstream e q s)" for q
  proof -
    have "downBuf (fst (writeUpstream e q s)) = downBuf s"
      by (cases rule: writeUpstream_cases [of s e q]) (auto dest: core_eqD(7))
    moreover have "data_slices D (set (tunFrames (snd (writeUpstream e q s))))"
      using tunFrames_writeUpstream [of e q s] by (auto simp: data_slices_def close_frame_def ack_frame_def)
    ultimately show ?thesis using dead_writeUpstream by (auto simp: down_kept_def)
  qed
  have k: "down_kept D s (s, [])" "down_kept D s (s\<lparr>preConn := q\<rparr>, [])" for q
    by (simp_all add: down_kept_def)
  show ?thesis by (simp add: onData_def Let_def w k)
qed

lemma up_ok_onData:
  assumes W: "up_written U W s" and U: "length U < 2 ^ 63" and sl: "slice U (unat off) p"
  shows "up_ok U W s (onData e off p s)"
proof (cases "connected s")
  case c: True
  have len: "length p \<le> length U" "unat off + length p \<le> length U" using sl by (auto simp: slice_def)
  have uw: "unat (upstreamWritten s) \<le> length U" using W by (simp add: up_written_def)
  let ?r = "onData e off p s"
  have st: "in_step U (W @ upBytes (snd ?r)) (unat (upstreamWritten (fst ?r))) (upBroken (fst ?r))"
    by (rule up.accept_in_step [OF sl]) (use W c len uw U in \<open>simp_all add: up_written_def\<close>)
  have grows: "unat (upstreamWritten s) \<le> unat (upstreamWritten (fst ?r)) \<and>
      (upBroken (fst ?r) \<longrightarrow> upstreamWritten (fst ?r) = upstreamWritten s)"
    using len uw U up.received_grows [where e = e and off = off and p = p and s = s] onData_broken_count [of e off p s]
    by (cases "upBroken (fst ?r)") auto
  have fr: "confirms (upstreamWritten (fst ?r)) (set (tunFrames (snd ?r)))"
    by (simp add: onData_def Let_def confirms_writeUpstream)
  have "unat (upstreamWritten (fst ?r)) \<le> length U"
    using st grows uw by (cases "upBroken (fst ?r)") (auto simp: in_step_def)
  then show ?thesis
    using st grows fr onData_connected_stays [OF c, of e off p] by (simp add: up_ok_def up_written_def)
next
  case c: False
  show ?thesis
  proof (cases "dead s")
    case True
    then show ?thesis using W by (intro up_ok_core) (auto simp: onData_def)
  next
    case False
    have len: "length p \<le> length U" "unat off + length p \<le> length U" using sl by (auto simp: slice_def)
    have pre: "upstreamWritten s = 0" "prefix (preConn s) U" "W = []" "\<not> upBroken s"
      using W c by (auto simp: up_written_def)
    define n where "n = length (preConn s)"
    have n: "preConn s = take n U" "n \<le> length U"
      using pre(2) prefix_length_le by (auto simp: n_def prefix_def)
    have r: "onData e off p s = (s\<lparr>preConn := preConn s @ fresh n (unat off) p\<rparr>, [])"
      using onData_preconnect [OF False c, of p e off] len U n(2) pre(1) by (simp add: n_def)
    have "preConn s @ fresh n (unat off) p = take (n + length (fresh n (unat off) p)) U"
      using fresh_extends(1) [OF sl n(2)] n(1) by simp
    then have "prefix (preConn s @ fresh n (unat off) p) U" by (metis take_is_prefix)
    then show ?thesis using pre c by (simp add: r up_ok_def up_written_def)
  qed
qed

subsection \<open>The dial\<close>

lemma dialFlush_ok:
  assumes "pre \<noteq> []" and "\<not> upBroken s"
  shows "set (tunFrames (snd (dialFlush e pre s))) \<subseteq>
      {close_frame (sessionID s) (up_errtext e), ack_frame (sessionID s) (upstreamWritten s + of_nat (length pre))} \<and>
    (if up_take e = None
     then upBytes (snd (dialFlush e pre s)) = pre \<and>
       core (fst (dialFlush e pre s)) = core (s\<lparr>upstreamWritten := upstreamWritten s + of_nat (length pre)\<rparr>)
     else (\<exists>k. upBytes (snd (dialFlush e pre s)) = take k pre) \<and>
       core (fst (dialFlush e pre s)) = core (s\<lparr>upBroken := True\<rparr>) \<and>
       set (tunFrames (snd (dialFlush e pre s))) \<subseteq> {close_frame (sessionID s) (up_errtext e)})"
proof (cases "up_take e")
  case None
  then show ?thesis
    using assms by (auto simp: dialFlush_def upWrite_def tunFrames_send Let_def core_def [of "s\<lparr>upstreamWritten := _\<rparr>"])
      (simp_all add: core_def)
next
  case (Some k)
  then show ?thesis
    using assms tunFrames_closeUpstream [of e "Some (up_errtext e)" "s\<lparr>upBroken := True\<rparr>"]
    by (auto simp: dialFlush_def upWrite_def closeText_def)
qed

lemma dead_dial: "dead s \<Longrightarrow> dead (fst (dialUpstream e r s))"
  by (cases r) (simp_all add: dialUpstream_def dialFailed_def)

lemma dialFailed_frames:
  "set (tunFrames (snd (dialFailed e err s))) \<subseteq> {close_frame (sessionID s) (''dial failed: '' @ err)}"
  by (auto simp: dialFailed_def tunFrames_send)

lemma dial_ok:
  assumes W: "up_written U W s" and c: "\<not> connected s" and U: "length U < 2 ^ 63"
  shows "up_ok U W s (dialUpstream e r s) \<and> down_kept D s (dialUpstream e r s)"
proof (cases "r = None \<and> \<not> dead s")
  case False
  then have "core (fst (dialUpstream e r s)) = core s" and "upBytes (snd (dialUpstream e r s)) = []"
    and "\<exists>err. set (tunFrames (snd (dialUpstream e r s))) \<subseteq> {close_frame (sessionID s) err}"
    using dialFailed_frames [of e _ s]
    by (cases r; fastforce simp: dialUpstream_def dialFailed_def)+
  then show ?thesis
    using up_ok_core [OF W, of "dialUpstream e r s"] core_eqD(7) dead_dial closing_frames
    unfolding down_kept_def by metis
next
  case True
  define s1 where "s1 = fst (dialPublish e s)"
  have r: "dialUpstream e r s = dialFlush e (preConn s) s1"
    using True by (simp add: dialUpstream_def dialPublish_def s1_def)
  have s1: "upstreamWritten s1 = 0" "connected s1" "\<not> upBroken s1" "downBuf s1 = downBuf s" "sessionID s1 = sessionID s"
    and pre: "prefix (preConn s) U" "W = []" "upstreamWritten s = 0"
    using W c by (auto simp: s1_def dialPublish_def armWatchdogLocked_def up_written_def)
  show ?thesis
  proof (cases "preConn s = []")
    case True
    then show ?thesis
      using s1 pre(2,3) \<open>r = None \<and> \<not> dead s\<close>
      unfolding r by (simp add: dialFlush_def up_ok_def down_kept_def up_written_def)
  next
    case False
    let ?r = "dialFlush e (preConn s) s1"
    note d = dialFlush_ok [OF False s1(3), of e]
    have db: "downBuf (fst ?r) = downBuf s" using d s1 by (cases "up_take e = None") (auto dest: core_eqD(7))
    have "data_slices D (set (tunFrames (snd ?r)))"
      using d by (auto simp: data_slices_def close_frame_def ack_frame_def)
    then have dk: "down_kept D s ?r" using db \<open>r = None \<and> \<not> dead s\<close> by (simp add: down_kept_def)
    have len: "length (preConn s) \<le> length U" using pre(1) by (rule prefix_length_le)
    have n: "unat (of_nat (length (preConn s)) :: u64) = length (preConn s)"
      using len U by (simp add: unat_of_nat)
    have "up_ok U W s ?r"
    proof (cases "up_take e = None")
      case True
      then have c: "core (fst ?r) = core (s1\<lparr>upstreamWritten := of_nat (length (preConn s))\<rparr>)"
        and b: "upBytes (snd ?r) = preConn s" using d s1 by auto
      have "in_step U (preConn s) (length (preConn s)) b" for b
        using pre(1) len by (auto simp: in_step_def prefix_def)
      then show ?thesis
        using core_eqD [OF c] b d s1 pre len n
        by (auto simp: up_ok_def up_written_def confirms_def close_frame_def ack_frame_def)
    next
      case False
      then obtain k where c: "core (fst ?r) = core (s1\<lparr>upBroken := True\<rparr>)"
        and b: "upBytes (snd ?r) = take k (preConn s)"
        and f: "set (tunFrames (snd ?r)) \<subseteq> {close_frame (sessionID s) (up_errtext e)}" using d s1(5) by auto
      have "prefix (take k (preConn s)) U" using pre(1) take_is_prefix prefix_order.trans by blast
      then show ?thesis
        using core_eqD [OF c] b s1 pre closing_frames(1) [OF f]
        by (auto simp: up_ok_def up_written_def in_step_def)
    qed
    then show ?thesis using r dk by simp
  qed
qed

subsection \<open>The upstream reader\<close>

lemma upBytes_forwardChunk: "upBytes (snd (forwardChunk e off c s)) = []"
  by (auto simp: forwardChunk_def Let_def split: option.splits)

lemma readUpstreamTurn_stream:
  assumes D: "rb_retains (downBuf s) D" and "0 \<le> Free (downBuf s)" and "\<not> dead s \<longrightarrow> length D + length p < 2 ^ 64"
    and "readUpstreamTurn e p err s = (s', es, rd)"
  shows "\<exists>q rest. p = q @ rest \<and> taken (downBuf s) (downBuf s') = q \<and> rb_retains (downBuf s') (D @ q) \<and>
    rb_first (downBuf s') = rb_first (downBuf s) \<and> 0 \<le> Free (downBuf s') \<and>
    (dead s \<longrightarrow> dead s' \<and> q = []) \<and> (\<not> dead s' \<longrightarrow> held rd = rest) \<and>
    upstreamWritten s' = upstreamWritten s \<and> connected s' = connected s \<and> upBroken s' = upBroken s \<and>
    preConn s' = preConn s \<and> upBytes es = [] \<and>
    (\<forall>n. confirms n (set (tunFrames es))) \<and> data_slices (D @ q) (set (tunFrames es))"
proof -
  obtain s1 es1 r where p: "produceDownstream e p s = (s1, es1, r)" by (cases "produceDownstream e p s")
  obtain q rest where q: "p = q @ rest" "rb_retains (downBuf s1) (D @ q)" "0 \<le> Free (downBuf s1)"
    "downBuf s1 = (downBuf s)\<lparr>buf := buf (downBuf s) @ q\<rparr>"
    "dead s \<or> rest = [] \<and> r = Produced \<or> r = Waiting rest" "dead s \<longrightarrow> q = []"
    "set (tunFrames es1) \<subseteq> {data_frame (sessionID s) (of_nat (length D)) q}"
  proof (cases "dead s")
    case True
    then show ?thesis using that [of "[]" p] D assms(2) p by (simp add: produce_stop)
  next
    case False
    then show ?thesis using produce_stream [OF D False assms(2) _ p] assms(3) that by blast
  qed
  have k: "dead s1 = dead s" "upstreamWritten s1 = upstreamWritten s" "connected s1 = connected s"
    "upBroken s1 = upBroken s" "preConn s1 = preConn s" "upBytes es1 = []"
    using p dead_forwardChunk core_eqD [OF downBuf_forwardChunk] upBytes_forwardChunk
    by (cases rule: produce_cases [of e p s]; force)+
  have fr: "confirms n (set (tunFrames es1))" "data_slices (D @ q) (set (tunFrames es1))" for n
    using q(7) D slice_end [of D q]
    by (auto simp: confirms_def data_slices_def data_frame_def rb_retains_def unat_of_nat)
  have pr: "rest = []" if "r = Produced"
    using that q(1,5) p by (cases "dead s"; cases "p = []") (auto simp: produce_stop)
  consider (closing) c where "(s', es) = (fst (closeUpstream e c s1), es1 @ snd (closeUpstream e c s1))" "rest = []" "held rd = []"
    | (same) "s' = s1" "es = es1" "dead s1 \<or> held rd = rest"
    using assms(4) p q(5) k(1) pr
    by (cases r; cases err) (auto simp: readUpstreamTurn_def split_beta destroy_def)
  then show ?thesis
  proof cases
    case closing
    have "set (tunFrames (snd (closeUpstream e c s1))) \<subseteq> {close_frame (sessionID s1) (closeText c)}"
      by (rule tunFrames_closeUpstream)
    then have "confirms n (set (tunFrames es))" "data_slices (D @ q) (set (tunFrames es))" for n
      using closing(1) fr closing_frames by auto
    moreover have "dead s \<Longrightarrow> dead s'" using closing(1) k(1) dead_closeUpstream [of s1 e c] by simp
    moreover have "downBuf s' = downBuf s1" "upBytes es = []" "upstreamWritten s' = upstreamWritten s"
      "connected s' = connected s" "upBroken s' = upBroken s" "preConn s' = preConn s"
      using closing(1) k core_eqD [OF core_closeUpstream [of e c s1]] by simp_all
    ultimately show ?thesis
      using q(1-4,6) closing(2,3) by (intro exI [of _ q] exI [of _ rest]) (simp add: taken_def rb_first_def)
  next
    case same
    then show ?thesis using q k fr by (intro exI [of _ q] exI [of _ rest]) (auto simp: taken_def rb_first_def)
  qed
qed

section \<open>Every step keeps the invariants\<close>

subsection \<open>Broker steps\<close>

lemma up_inv_broker:
  assumes "up_inv \<sigma>" and "up_ok (agentSent \<sigma>) (upGot \<sigma>) (bs \<sigma>) r"
  shows "up_inv (broker_ran r \<sigma>)"
  using assms confirms_mono by (auto simp: up_inv_def up_ok_def broker_ran_def)

lemma down_inv_broker:
  assumes "down_inv \<sigma>" and "down_kept (produced \<sigma>) (bs \<sigma>) r"
  shows "down_inv (broker_ran r \<sigma>)"
  using assms by (auto simp: down_inv_def down_kept_def broker_ran_def)

lemma Free_TrimTo: "Free b \<le> Free (TrimTo b off)"
  using Len_TrimTo [of b off] by (simp add: Free_def Len_def)

lemma down_inv_ack:
  assumes "down_inv \<sigma>" and "unat off \<le> unat (downDelivered (sc \<sigma>))"
  shows "down_inv (broker_ran (onDownstreamAck off (bs \<sigma>), []) \<sigma>)"
proof -
  have r: "rb_retains (downBuf (bs \<sigma>)) (produced \<sigma>)" using assms(1) by (simp add: down_inv_def)
  show ?thesis
    using assms rb.trim_retains [OF r, of off] rb.trim_first [OF r, of off]
      order_trans [OF _ Free_TrimTo [of "downBuf (bs \<sigma>)" off], of 0]
    by (auto simp: down_inv_def broker_ran_def onDownstreamAck_def Let_def)
qed

lemma sess_frame_up:
  assumes "up_written U W s" and "length U < 2 ^ 63" and "ftype f = TypeData \<longrightarrow> slice U (unat (Offset f)) (Payload f)"
  shows "up_ok U W s (sess_frame e tc f s)"
proof -
  have "up_ok U W s (onDownstreamAck off s, [])" for off
    using assms(1) by (simp add: up_ok_def onDownstreamAck_def Let_def up_written_def)
  moreover have "up_ok U W s (s, [])" using assms(1) by (intro up_ok_core) simp_all
  ultimately show ?thesis
    using assms up_ok_attach up_ok_onData quiet_methods(1) by (simp add: sess_frame_def)
qed

lemma sess_frame_down:
  assumes "rb_retains (downBuf s) D" and "up_written U W s" and "ftype f \<noteq> TypeAck"
  shows "down_kept D s (sess_frame e tc f s)"
  using assms down_kept_attach [OF assms(1)] down_kept_onData [of D s] quiet_methods(1) [OF assms(2)]
  by (simp add: sess_frame_def) (simp add: down_kept_def)

lemma inv_broker_receives:
  assumes "up_inv \<sigma>" and "down_inv \<sigma>" and f: "f \<in> toBroker \<sigma>"
  shows "up_inv (broker_ran (sess_frame e tc f (bs \<sigma>)) \<sigma>) \<and> down_inv (broker_ran (sess_frame e tc f (bs \<sigma>)) \<sigma>)"
proof
  have w: "up_written (agentSent \<sigma>) (upGot \<sigma>) (bs \<sigma>)" using assms(1) by (simp add: up_inv_def)
  show "up_inv (broker_ran (sess_frame e tc f (bs \<sigma>)) \<sigma>)"
    by (rule up_inv_broker, fact, rule sess_frame_up) (use assms in \<open>auto simp: up_inv_def data_slices_def\<close>)
  show "down_inv (broker_ran (sess_frame e tc f (bs \<sigma>)) \<sigma>)"
  proof (cases "ftype f = TypeAck")
    case True
    then have "sess_frame e tc f (bs \<sigma>) = (onDownstreamAck (Offset f) (bs \<sigma>), [])" by (simp add: sess_frame_def)
    moreover have "unat (Offset f) \<le> unat (downDelivered (sc \<sigma>))"
      using assms True by (auto simp: down_inv_def)
    ultimately show ?thesis using down_inv_ack [OF assms(2)] by simp
  next
    case False
    then show ?thesis
      by (intro down_inv_broker sess_frame_down [OF _ w]) (use assms in \<open>auto simp: down_inv_def\<close>)
  qed
qed

lemma inv_reader:
  assumes "up_inv \<sigma>" and "down_inv \<sigma>" and "\<not> dead (bs \<sigma>) \<longrightarrow> length (produced \<sigma>) + length p < 2 ^ 64"
    and p: "\<not> dead (bs \<sigma>) \<longrightarrow> produced \<sigma> @ p = S" and "prefix (produced \<sigma>) S" and "length S < 2 ^ 63"
  shows "up_inv ((reader_ran (readUpstreamTurn e p err (bs \<sigma>)) \<sigma>)\<lparr>upSent := S\<rparr>) \<and>
    down_inv ((reader_ran (readUpstreamTurn e p err (bs \<sigma>)) \<sigma>)\<lparr>upSent := S\<rparr>)"
proof -
  obtain s' es rd where t: "readUpstreamTurn e p err (bs \<sigma>) = (s', es, rd)"
    by (cases "readUpstreamTurn e p err (bs \<sigma>)")
  have r: "rb_retains (downBuf (bs \<sigma>)) (produced \<sigma>)" "0 \<le> Free (downBuf (bs \<sigma>))"
    using assms(2) by (auto simp: down_inv_def)
  obtain q rest where q: "p = q @ rest" "taken (downBuf (bs \<sigma>)) (downBuf s') = q"
    "rb_retains (downBuf s') (produced \<sigma> @ q)" "rb_first (downBuf s') = rb_first (downBuf (bs \<sigma>))"
    "0 \<le> Free (downBuf s')" "dead (bs \<sigma>) \<longrightarrow> dead s' \<and> q = []" "\<not> dead s' \<longrightarrow> held rd = rest"
    and u: "upstreamWritten s' = upstreamWritten (bs \<sigma>)" "connected s' = connected (bs \<sigma>)"
      "upBroken s' = upBroken (bs \<sigma>)" "preConn s' = preConn (bs \<sigma>)" "upBytes es = []"
      "\<And>n. confirms n (set (tunFrames es))" and d: "data_slices (produced \<sigma> @ q) (set (tunFrames es))"
    using readUpstreamTurn_stream [OF r assms(3) t] by blast
  have "up_inv ((reader_ran (s', es, rd) \<sigma>)\<lparr>upSent := S\<rparr>)"
    using assms(1) u by (simp add: up_inv_def reader_ran_def broker_ran_def up_written_def)
  moreover have "prefix (produced \<sigma> @ q) S"
    using assms(5) p q(1,6) by (cases "dead (bs \<sigma>)") (auto simp: prefix_def)
  then have "down_inv ((reader_ran (s', es, rd) \<sigma>)\<lparr>upSent := S\<rparr>)"
    using assms(2,6) p q d data_slices_append in_step_mono
    by (auto simp: down_inv_def reader_ran_def broker_ran_def)
  ultimately show ?thesis using t by simp
qed

subsection \<open>Sidecar steps\<close>

text \<open>Sidecar methods that touch neither buffer nor counter and send no DATA, ACK or ATTACH.\<close>

lemma inv_sidecar_quiet:
  assumes "up_inv \<sigma>" and "down_inv \<sigma>" and "upBuf (fst r) = upBuf (sc \<sigma>)" and "downDelivered (fst r) = downDelivered (sc \<sigma>)"
    and "agentBroken (fst r) = agentBroken (sc \<sigma>)" and "agentBytes (snd r) = []"
    and "\<forall>f\<in>set (sentFrames (snd r)). ftype f = TypeClose"
  shows "up_inv (sidecar_ran r \<sigma>) \<and> down_inv (sidecar_ran r \<sigma>)"
  using assms by (fastforce simp: up_inv_def down_inv_def sidecar_ran_def data_slices_def)

lemma Free_append: "Free (b\<lparr>buf := buf b @ q\<rparr>) = Free b - int (length q)"
  by (simp add: Free_def)

lemma inv_agent_writes:
  assumes up: "up_inv \<sigma>" and down: "down_inv \<sigma>" and t: "writeUpTurn p (sc \<sigma>) = (s', es, r)"
    and len: "length (agentSent \<sigma>) + length p < 2 ^ 63"
  shows "up_inv ((sidecar_ran (s', es) \<sigma>)\<lparr>agentSent := agentSent \<sigma> @ taken (upBuf (sc \<sigma>)) (upBuf s')\<rparr>) \<and>
    down_inv ((sidecar_ran (s', es) \<sigma>)\<lparr>agentSent := agentSent \<sigma> @ taken (upBuf (sc \<sigma>)) (upBuf s')\<rparr>)"
proof (cases "p = [] \<or> cs_dead (sc \<sigma>)")
  case True
  then have "s' = sc \<sigma>" "es = []" using t by (auto simp: writeUpTurn_def split: if_splits)
  then show ?thesis using up down by (simp add: up_inv_def down_inv_def sidecar_ran_def taken_def)
next
  case False
  have r: "rb_retains (upBuf (sc \<sigma>)) (agentSent \<sigma>)" "0 \<le> Free (upBuf (sc \<sigma>))" using up by (auto simp: up_inv_def)
  let ?U = "agentSent \<sigma>"
  define q where "q = take (nat (min (int (length p)) (Free (upBuf (sc \<sigma>))))) p"
  have q: "s' = (sc \<sigma>)\<lparr>upBuf := (upBuf (sc \<sigma>))\<lparr>buf := buf (upBuf (sc \<sigma>)) @ q\<rparr>\<rparr>"
    "rb_retains (upBuf s') (?U @ q)" "0 \<le> Free (upBuf s')" "length q \<le> length p"
    "es = [] \<or> es = [Send (up_data (sc \<sigma>) (of_nat (length ?U)) q)]"
    using writeUpTurn_spec [OF r(1) _ r(2) _ _ t, folded q_def] False len
    by (auto simp: q_def split: if_splits)
  have tk: "taken (upBuf (sc \<sigma>)) (upBuf s') = q" using q(1) by (simp add: taken_def)
  have "data_slices (?U @ q) (set (sentFrames es))"
    using q(5) slice_end [of ?U q] len by (auto simp: data_slices_def up_data_def unat_of_nat)
  moreover have "up_written (?U @ q) (upGot \<sigma>) (bs \<sigma>)"
    using up in_step_mono by (auto simp: up_inv_def up_written_def)
  moreover have "length (?U @ q) < 2 ^ 63" using q(4) len by simp
  ultimately have "up_inv ((sidecar_ran (s', es) \<sigma>)\<lparr>agentSent := ?U @ q\<rparr>)"
    using up q(1,2,3) data_slices_append by (auto simp: up_inv_def sidecar_ran_def rb_first_def)
  moreover have "down_inv ((sidecar_ran (s', es) \<sigma>)\<lparr>agentSent := ?U @ q\<rparr>)"
    using down q(1,5) by (auto simp: down_inv_def sidecar_ran_def up_data_def)
  ultimately show ?thesis by (simp add: tk)
qed

lemma inv_trim_up:
  assumes up: "up_inv \<sigma>" and down: "down_inv \<sigma>" and off: "unat off \<le> unat (upstreamWritten (bs \<sigma>))"
    and "data_slices (agentSent \<sigma>) (set (sentFrames es))" and "agentBytes es = []"
    and "\<forall>f\<in>set (sentFrames es). ftype f = TypeData"
  shows "up_inv (sidecar_ran ((sc \<sigma>)\<lparr>upBuf := TrimTo (upBuf (sc \<sigma>)) off\<rparr>, es) \<sigma>) \<and>
    down_inv (sidecar_ran ((sc \<sigma>)\<lparr>upBuf := TrimTo (upBuf (sc \<sigma>)) off\<rparr>, es) \<sigma>)"
proof -
  have r: "rb_retains (upBuf (sc \<sigma>)) (agentSent \<sigma>)" "0 \<le> Free (upBuf (sc \<sigma>))"
    using up by (auto simp: up_inv_def)
  have "0 \<le> Free (TrimTo (upBuf (sc \<sigma>)) off)" using r(2) Free_TrimTo order_trans by blast
  then show ?thesis
    using up down off rb.trim_retains [OF r(1), of off] rb.trim_first [OF r(1), of off] assms(4-6)
    by (auto simp: up_inv_def down_inv_def sidecar_ran_def)
qed

lemma inv_attachok:
  assumes up: "up_inv \<sigma>" and down: "down_inv \<sigma>" and off: "unat off \<le> unat (upstreamWritten (bs \<sigma>))"
  shows "up_inv (sidecar_ran (onAttachOK off (sc \<sigma>)) \<sigma>) \<and> down_inv (sidecar_ran (onAttachOK off (sc \<sigma>)) \<sigma>)"
proof -
  have r: "rb_retains (upBuf (sc \<sigma>)) (agentSent \<sigma>)" using up by (simp add: up_inv_def)
  have "slice (agentSent \<sigma>) (unat off) (drop (unat off) (agentSent \<sigma>))" if "unat off < length (agentSent \<sigma>)"
    using that by (simp add: slice_drop)
  then show ?thesis
    unfolding onAttachOK_spec [OF r, of off]
    by (intro inv_trim_up [OF up down off]) (auto simp: data_slices_def up_data_def)
qed

lemma deliverDown_frames:
  "set (sentFrames (snd (deliverDown a off p s))) \<subseteq> {down_ack (fst (deliverDown a off p s))}"
  by (auto simp: deliverDown_def Let_def agentWrite_def down_ack_def split_beta split: option.splits if_splits)

lemma deliverDown_upBuf: "upBuf (fst (deliverDown a off p s)) = upBuf s"
  by (auto simp: deliverDown_def Let_def agentWrite_def split_beta split: option.splits)

lemma deliverDown_broken_count:
  "agentBroken (fst (deliverDown a off p s)) \<Longrightarrow> downDelivered (fst (deliverDown a off p s)) = downDelivered s"
  by (auto simp: deliverDown_def Let_def agentWrite_def split_beta split: option.splits if_splits)

lemma inv_deliver:
  assumes up: "up_inv \<sigma>" and down: "down_inv \<sigma>" and sl: "slice (produced \<sigma>) (unat off) p"
  shows "up_inv (sidecar_ran (deliverDown a off p (sc \<sigma>)) \<sigma>) \<and> down_inv (sidecar_ran (deliverDown a off p (sc \<sigma>)) \<sigma>)"
proof -
  let ?r = "deliverDown a off p (sc \<sigma>)" and ?D = "produced \<sigma>"
  have D: "length ?D < 2 ^ 63" using down prefix_length_le by (fastforce simp: down_inv_def)
  have len: "length p \<le> length ?D" "unat off + length p \<le> length ?D" using sl by (auto simp: slice_def)
  have dd: "unat (downDelivered (sc \<sigma>)) \<le> length ?D" using down by (simp add: down_inv_def)
  have st: "in_step ?D (agentGot \<sigma> @ agentBytes (snd ?r)) (unat (downDelivered (fst ?r))) (agentBroken (fst ?r))"
    by (rule down.accept_in_step [OF sl]) (use down len dd D in \<open>simp_all add: down_inv_def\<close>)
  have grows: "unat (downDelivered (sc \<sigma>)) \<le> unat (downDelivered (fst ?r))"
    using len dd D down.received_grows [where a = a and off = off and p = p and s = "sc \<sigma>"]
      deliverDown_broken_count [of a off p "sc \<sigma>"]
    by (cases "agentBroken (fst ?r)") auto
  have le: "unat (downDelivered (fst ?r)) \<le> length ?D"
    using st dd deliverDown_broken_count [of a off p "sc \<sigma>"]
    by (cases "agentBroken (fst ?r)") (auto simp: in_step_def)
  have fr: "set (sentFrames (snd ?r)) \<subseteq> {down_ack (fst ?r)}" by (rule deliverDown_frames)
  have "up_inv (sidecar_ran ?r \<sigma>)"
    using up fr deliverDown_upBuf [of a off p "sc \<sigma>"]
    by (auto simp: up_inv_def sidecar_ran_def data_slices_def down_ack_def)
  moreover have "down_inv (sidecar_ran ?r \<sigma>)"
    using down st grows le fr unfolding down_inv_def sidecar_ran_def
    by (auto simp: down_ack_def intro: order_trans)
  ultimately show ?thesis by blast
qed

lemma inv_sidecar_receives:
  assumes up: "up_inv \<sigma>" and down: "down_inv \<sigma>" and f: "f \<in> toSidecar \<sigma>"
  shows "up_inv (sidecar_ran (csess_frame a f (sc \<sigma>)) \<sigma>) \<and> down_inv (sidecar_ran (csess_frame a f (sc \<sigma>)) \<sigma>)"
proof -
  have off: "ftype f \<in> {TypeAck, TypeAttachOK} \<Longrightarrow> unat (Offset f) \<le> unat (upstreamWritten (bs \<sigma>))"
    using up f by (auto simp: up_inv_def confirms_def)
  consider "ftype f = TypeAttachOK" | "ftype f = TypeData" | "ftype f = TypeAck"
    | "csess_frame a f (sc \<sigma>) = onClose (Dir f) (sc \<sigma>) \<or> csess_frame a f (sc \<sigma>) = (sc \<sigma>, [])"
    unfolding csess_frame_def by metis
  then show ?thesis
  proof cases
    case 1
    then show ?thesis using inv_attachok [OF up down] off by (simp add: csess_frame_def)
  next
    case 2
    then have "slice (produced \<sigma>) (unat (Offset f)) (Payload f)"
      using down f by (auto simp: down_inv_def data_slices_def)
    then show ?thesis using 2 inv_deliver [OF up down] by (simp add: csess_frame_def)
  next
    case 3
    then show ?thesis
      using inv_trim_up [OF up down, of "Offset f" "[]"] off by (simp add: csess_frame_def onUpstreamAck_def)
  next
    case 4
    then show ?thesis
      by (intro inv_sidecar_quiet [OF up down]) auto
  qed
qed

lemma inv_reconnects:
  assumes "up_inv \<sigma>" and "down_inv \<sigma>"
  shows "up_inv (\<sigma>\<lparr>toBroker := insert (attachFrame (sc \<sigma>)) (toBroker \<sigma>)\<rparr>) \<and>
    down_inv (\<sigma>\<lparr>toBroker := insert (attachFrame (sc \<sigma>)) (toBroker \<sigma>)\<rparr>)"
  using assms by (auto simp: up_inv_def down_inv_def data_slices_def attachFrame_def)

subsection \<open>All reachable states\<close>

lemma inv_init:
  assumes "0 \<le> m" and "0 \<le> m'"
  shows "up_inv (tsys_init m m' t actor sid tgt hc) \<and> down_inv (tsys_init m m' t actor sid tgt hc)"
  using assms
  by (simp add: up_inv_def down_inv_def tsys_init_def newClientSession_def newSession_def data_slices_def
      open_frame_def up_written_def Free_def NewReplayBuffer_def rb_retains_def rb_first_def)

lemma inv_step:
  assumes "tstep \<sigma> \<sigma>'" and up: "up_inv \<sigma>" and down: "down_inv \<sigma>"
  shows "up_inv \<sigma>' \<and> down_inv \<sigma>'"
  using assms(1)
proof cases
  case (agent_writes p s' es r)
  then show ?thesis using inv_agent_writes [OF up down] by blast
next
  case (agent_closes reason)
  then show ?thesis using inv_sidecar_quiet [OF up down, of "closeUp reason (sc \<sigma>)"] by (auto simp: closeUp_def)
next
  case agent_gone
  then show ?thesis using inv_sidecar_quiet [OF up down, of "closeAll (sc \<sigma>)"] by simp
next
  case reconnects
  then show ?thesis using inv_reconnects [OF up down] by simp
next
  case (sidecar_receives f a)
  then show ?thesis using inv_sidecar_receives [OF up down] by blast
next
  case (broker_receives f e tc)
  then show ?thesis using inv_broker_receives [OF up down] by blast
next
  case (tunnel_ends tc)
  then show ?thesis
    using quiet_methods(2) up up_inv_broker [OF up] down_inv_broker [OF down] unfolding up_inv_def by blast
next
  case (dials e result)
  then show ?thesis
    using dial_ok up up_inv_broker [OF up] down_inv_broker [OF down] unfolding up_inv_def by blast
next
  case (upstream_sends p e err)
  have "prefix (produced \<sigma>) (upSent \<sigma> @ p)" "\<not> dead (bs \<sigma>) \<longrightarrow> produced \<sigma> @ p = upSent \<sigma> @ p"
    "length (produced \<sigma>) \<le> length (upSent \<sigma>)"
    using down upstream_sends(3) prefix_length_le by (auto simp: down_inv_def)
  then show ?thesis using inv_reader [OF up down, of p "upSent \<sigma> @ p" e err] upstream_sends by simp
next
  case (reader_retries q err e)
  have k: "prefix (produced \<sigma>) (upSent \<sigma>)" "\<not> dead (bs \<sigma>) \<longrightarrow> produced \<sigma> @ q = upSent \<sigma>" "length (upSent \<sigma>) < 2 ^ 63"
    using down reader_retries(2) by (auto simp: down_inv_def)
  have "\<not> dead (bs \<sigma>) \<longrightarrow> length (produced \<sigma>) + length q < 2 ^ 64"
    using k(2,3) by (auto simp flip: length_append)
  moreover have "\<sigma>' = (reader_ran (readUpstreamTurn e q err (bs \<sigma>)) \<sigma>)\<lparr>upSent := upSent \<sigma>\<rparr>"
    using reader_retries(1) by (simp add: reader_ran_def broker_ran_def split_beta)
  ultimately show ?thesis using inv_reader [OF up down _ k(2,1,3), of e err] by simp
next
  case watchdog_fires
  then show ?thesis
    using quiet_methods(3) up up_inv_broker [OF up] down_inv_broker [OF down] unfolding up_inv_def by blast
next
  case (opens tc)
  then show ?thesis using up down by (simp add: up_inv_def down_inv_def up_written_def bind_def)
next
  case (refuses sid reason)
  then show ?thesis
    using up down by (auto simp: up_inv_def down_inv_def confirms_def data_slices_def close_frame_def)
qed

lemma treach_inv: "treach \<sigma> \<Longrightarrow> up_inv \<sigma> \<and> down_inv \<sigma>"
proof (induction rule: treach.induct)
  case (init m m' t actor sid tgt hc)
  then show ?case by (rule inv_init)
next
  case (step \<sigma> \<sigma>')
  then show ?case using inv_step by blast
qed

section \<open>What the invariants say of the streams\<close>

text \<open>
  Stream integrity. However often the tunnel breaks, and however its frames are lost,
  duplicated, delayed or reordered, the destination has received a prefix of what the agent
  sent, and the agent has received a prefix of what the destination sent: no byte is lost
  from the middle, repeated or swapped.
\<close>

lemma stream_integrity:
  assumes "treach \<sigma>"
  shows "prefix (upGot \<sigma>) (agentSent \<sigma>) \<and> prefix (agentGot \<sigma>) (upSent \<sigma>)"
proof -
  have "up_inv \<sigma>" "down_inv \<sigma>" using treach_inv [OF assms] by auto
  then show ?thesis
    by (auto simp: up_inv_def down_inv_def up_written_def in_step_def split: if_splits
        intro: prefix_order.trans)
qed

text \<open>
  Nothing is ever lost: whatever the peer has not confirmed is still held. In every
  reachable state, while the destination connection works, the sidecar's buffer holds exactly
  the agent bytes the destination has not received; while the agent connection works, the
  broker's buffer holds exactly the produced bytes the agent has not received; and as long as
  the session lives, what is not produced is held by the waiting reader.
\<close>

lemma undelivered_is_retained:
  assumes "treach \<sigma>"
  shows "(connected (bs \<sigma>) \<and> \<not> upBroken (bs \<sigma>) \<longrightarrow>
      (\<exists>rest. From (upBuf (sc \<sigma>)) (upstreamWritten (bs \<sigma>)) = Inr rest \<and> upGot \<sigma> @ rest = agentSent \<sigma>)) \<and>
    (\<not> connected (bs \<sigma>) \<longrightarrow> From (upBuf (sc \<sigma>)) 0 = Inr (agentSent \<sigma>)) \<and>
    (\<not> agentBroken (sc \<sigma>) \<longrightarrow>
      (\<exists>rest. From (downBuf (bs \<sigma>)) (downDelivered (sc \<sigma>)) = Inr rest \<and> agentGot \<sigma> @ rest = produced \<sigma>)) \<and>
    (\<not> dead (bs \<sigma>) \<longrightarrow> produced \<sigma> @ held (reader_st \<sigma>) = upSent \<sigma>)"
proof -
  have up: "up_inv \<sigma>" and down: "down_inv \<sigma>" using treach_inv [OF assms] by auto
  have u: "From (upBuf (sc \<sigma>)) (upstreamWritten (bs \<sigma>)) = Inr (drop (unat (upstreamWritten (bs \<sigma>))) (agentSent \<sigma>))"
    by (rule rb.replay_suffix) (use up in \<open>auto simp: up_inv_def up_written_def\<close>)
  have d: "From (downBuf (bs \<sigma>)) (downDelivered (sc \<sigma>)) = Inr (drop (unat (downDelivered (sc \<sigma>))) (produced \<sigma>))"
    by (rule rb.replay_suffix) (use down in \<open>auto simp: down_inv_def\<close>)
  show ?thesis
    using u d up down by (auto simp: up_inv_def down_inv_def up_written_def in_step_def)
qed

section \<open>Recovery\<close>

text \<open>
  One undisturbed resume: the sidecar's ATTACH is handled on a new tunnel, the broker's answers
  are delivered to the sidecar in order, and its answers to the broker. The result is both
  new states, the bytes the destination received and the bytes the agent received.
\<close>

definition sidecar_takes :: "csession \<times> ceffect list \<Rightarrow> frame \<Rightarrow> csession \<times> ceffect list" where
  "sidecar_takes st f = (let (c, es) = csess_frame None f (fst st) in (c, snd st @ es))"

definition broker_takes :: "env \<Rightarrow> nat \<Rightarrow> session \<times> effect list \<Rightarrow> frame \<Rightarrow> session \<times> effect list" where
  "broker_takes e tc st f = (let (b, es) = sess_frame e tc f (fst st) in (b, snd st @ es))"

definition resume_once :: "env \<Rightarrow> nat \<Rightarrow> csession \<Rightarrow> session \<Rightarrow> csession \<times> session \<times> bytes \<times> bytes" where
  "resume_once e tc c b =
     (let (b1, es1) = sess_frame e tc (attachFrame c) b;
          (c1, ces) = foldl sidecar_takes (c, []) (tunFrames es1);
          (b2, es2) = foldl (broker_takes e tc) (b1, []) (sentFrames ces)
      in (c1, b2, upBytes es2, agentBytes ces))"

lemma tunFrames_map_write [simp]: "tunFrames (map (TunnelWrite tc) fs) = fs"
  by (induction fs) simp_all

lemma sidecar_resumes:
  assumes U: "rb_retains (upBuf c) U" and "rb_first (upBuf c) \<le> unat w" and "unat w \<le> length U"
    and "\<not> cs_dead c" and "\<not> agentBroken c" and off: "unat (downDelivered c) \<le> length D" and D: "length D < 2 ^ 64"
    and fs: "fs = [attachok_frame sid w] @
      (if unat (downDelivered c) < length D then [data_frame sid (downDelivered c) (drop (unat (downDelivered c)) D)] else []) @
      (if closed then [close_frame sid ''upstream EOF''] else [])"
    and r: "foldl sidecar_takes (c, []) fs = (c', ces)"
  shows "agentBytes ces = drop (unat (downDelivered c)) D \<and> unat (downDelivered c') = length D \<and>
    (\<exists>acks. sentFrames ces = (if unat w < length U then [up_data c w (drop (unat w) U)] else []) @ acks \<and>
       (\<forall>f\<in>set acks. ftype f = TypeAck)) \<and> (\<not> closed \<longrightarrow> \<not> cs_dead c')"
proof -
  let ?off = "downDelivered c"
  define ca where "ca = c\<lparr>upBuf := TrimTo (upBuf c) w\<rparr>"
  define ea where "ea = (if unat w < length U then [Send (up_data c w (drop (unat w) U))] else [])"
  have a: "sidecar_takes (c, []) (attachok_frame sid w) = (ca, ea)"
    using onAttachOK_spec [OF U, of w] assms(2)
    by (simp add: sidecar_takes_def csess_frame_def attachok_frame_def ca_def ea_def)
  define cb where "cb = (if unat ?off < length D then ca\<lparr>downDelivered := of_nat (length D)\<rparr> else ca)"
  define eb where "eb = (if unat ?off < length D then [AgentWrite (drop (unat ?off) D), Send (down_ack cb)] else [])"
  have "?off + of_nat (length D - unat ?off) = of_nat (length D)"
    using off D by (simp add: word_unat_eq_iff unat_add_less unat_of_nat)
  then have b: "sidecar_takes (ca, ea) (data_frame sid ?off (drop (unat ?off) D)) = (cb, ea @ eb)" if "unat ?off < length D"
    using that assms(4,5)
    by (simp add: sidecar_takes_def csess_frame_def data_frame_def deliverDown_def agentWrite_def ca_def cb_def eb_def Let_def)
  have cl: "sidecar_takes (cb, ea @ eb) (close_frame sid ''upstream EOF'') =
      (fst (onClose DirDown cb), ea @ eb @ snd (onClose DirDown cb))"
    by (simp add: sidecar_takes_def csess_frame_def close_frame_def split_beta)
  have "(c', ces) = (if closed then (fst (onClose DirDown cb), ea @ eb @ snd (onClose DirDown cb)) else (cb, ea @ eb))"
    using r a b cl by (auto simp: fs cb_def eb_def split: if_splits)
  moreover have "\<not> cs_dead cb" using assms(4) by (simp add: cb_def ca_def)
  moreover have "unat (downDelivered cb) = length D"
    using off D by (simp add: cb_def ca_def unat_of_nat)
  moreover have "agentBytes (ea @ eb) = drop (unat ?off) D"
    using off by (auto simp: ea_def eb_def)
  moreover have "sentFrames (ea @ eb) = (if unat w < length U then [up_data c w (drop (unat w) U)] else []) @ sentFrames eb"
    and "\<forall>f\<in>set (sentFrames eb). ftype f = TypeAck"
    by (auto simp: ea_def eb_def down_ack_def)
  ultimately show ?thesis by (auto split: if_splits)
qed

lemma broker_takes_acks:
  assumes "\<forall>f\<in>set acks. ftype f = TypeAck" and "foldl (broker_takes e tc) (b, es) acks = (b', es')"
  shows "es' = es \<and> upstreamWritten b' = upstreamWritten b \<and> dead b' = dead b"
  using assms
  by (induction acks arbitrary: b es)
    (auto simp: broker_takes_def sess_frame_def onDownstreamAck_def Let_def)

lemma broker_resumes:
  assumes "\<not> dead b" and "connected b" and "\<not> upBroken b" and "up_take e = None"
    and U: "length U < 2 ^ 64" and w: "unat (upstreamWritten b) \<le> length U"
    and fs: "fs = (if unat (upstreamWritten b) < length U
        then [up_data c (upstreamWritten b) (drop (unat (upstreamWritten b)) U)] else []) @ acks"
    and acks: "\<forall>f\<in>set acks. ftype f = TypeAck"
    and r: "foldl (broker_takes e tc) (b, []) fs = (b', es)"
  shows "upBytes es = drop (unat (upstreamWritten b)) U \<and> unat (upstreamWritten b') = length U \<and> \<not> dead b'"
proof (cases "unat (upstreamWritten b) < length U")
  case False
  then show ?thesis using broker_takes_acks [OF acks] r fs w assms(1) by fastforce
next
  case True
  let ?q = "drop (unat (upstreamWritten b)) U"
  let ?t = "writeUpstream e ?q b"
  have "broker_takes e tc (b, []) (up_data c (upstreamWritten b) ?q) = ?t"
    using assms(1,2) by (simp add: broker_takes_def sess_frame_def up_data_def onData_def split_beta)
  then have "upstreamWritten b' = upstreamWritten (fst ?t)" "es = snd ?t" "dead b' = dead (fst ?t)"
    using broker_takes_acks [OF acks, of e tc "fst ?t" "snd ?t" b' es] r fs True by auto
  moreover have "upBytes (snd ?t) = ?q" "upstreamWritten (fst ?t) = upstreamWritten b + of_nat (length ?q)"
    using writeUpstream_ok [OF assms(3,4), of ?q] by (auto dest: core_eqD(8))
  moreover have "unat (upstreamWritten b + of_nat (length ?q)) = length U"
    using w U by (subst unat_add_less) auto
  moreover have "\<not> dead (fst ?t)" using writeUpstream_alive [OF assms(3,4)] assms(1) by simp
  ultimately show ?thesis by simp
qed

text \<open>
  The round in full, from a reachable state in which the session lives, both outer connections
  work and the replay fits in a frame: the broker's frames, what the sidecar makes of them, and
  what the broker makes of the answers.
\<close>

lemma resume_round:
  assumes "treach \<sigma>" and "\<not> dead (bs \<sigma>)" and "connected (bs \<sigma>)" and "\<not> upBroken (bs \<sigma>)"
    and "\<not> cs_dead (sc \<sigma>)" and "\<not> agentBroken (sc \<sigma>)" and "\<forall>f. tun_ok e f" and "up_take e = None"
    and "length (produced \<sigma>) - length (agentGot \<sigma>) \<le> MaxPayload"
  obtains fs gs c1 ces rest acks b2 es2 where
    "sess_frame e tc (attachFrame (sc \<sigma>)) (bs \<sigma>) = (bind tc (bs \<sigma>), map (TunnelWrite tc) (fs @ gs))"
    "foldl sidecar_takes (sc \<sigma>, []) (fs @ gs) = (c1, ces)" "length gs \<le> 1"
    "\<not> cs_dead (fst (foldl sidecar_takes (sc \<sigma>, []) fs))" "\<forall>f\<in>set (fs @ gs). ftype f \<in> {TypeAttachOK, TypeData, TypeClose}"
    "sentFrames ces = (if rest = [] then [] else [up_data (sc \<sigma>) (upstreamWritten (bs \<sigma>)) rest]) @ acks"
    "\<forall>f\<in>set acks. ftype f = TypeAck" "upGot \<sigma> @ rest = agentSent \<sigma>" "agentGot \<sigma> @ agentBytes ces = produced \<sigma>"
    "unat (downDelivered c1) = length (produced \<sigma>)"
    "foldl (broker_takes e tc) (bind tc (bs \<sigma>), []) (sentFrames ces) = (b2, es2)" "upBytes es2 = rest" "\<not> dead b2"
    "unat (upstreamWritten b2) = length (agentSent \<sigma>)"
proof -
  let ?c = "sc \<sigma>" and ?b = "bs \<sigma>" and ?U = "agentSent \<sigma>" and ?D = "produced \<sigma>"
  let ?rest = "drop (unat (upstreamWritten ?b)) ?U"
  have up: "up_inv \<sigma>" and down: "down_inv \<sigma>" using treach_inv [OF assms(1)] by auto
  have W: "upGot \<sigma> = take (unat (upstreamWritten ?b)) ?U" "unat (upstreamWritten ?b) \<le> length ?U"
    using up assms(3,4) by (auto simp: up_inv_def up_written_def in_step_def)
  have V: "agentGot \<sigma> = take (unat (downDelivered ?c)) ?D" "unat (downDelivered ?c) \<le> length ?D"
    using down assms(6) by (auto simp: down_inv_def in_step_def)
  have D: "rb_retains (downBuf ?b) ?D" "rb_first (downBuf ?b) \<le> unat (downDelivered ?c)" "length ?D < 2 ^ 64"
    using down by (auto simp: down_inv_def rb_retains_def)
  have U: "rb_retains (upBuf ?c) ?U" "rb_first (upBuf ?c) \<le> unat (upstreamWritten ?b)" "length ?U < 2 ^ 64"
    using up by (auto simp: up_inv_def rb_retains_def)
  let ?fs = "[attachok_frame (sessionID ?b) (upstreamWritten ?b)] @
      (if unat (downDelivered ?c) < length ?D
       then [data_frame (sessionID ?b) (downDelivered ?c) (drop (unat (downDelivered ?c)) ?D)] else [])"
  let ?tl = "\<lambda>closed. if closed then [close_frame (sessionID ?b) ''upstream EOF''] else []"
  have att: "sess_frame e tc (attachFrame ?c) ?b = (bind tc ?b, map (TunnelWrite tc) (?fs @ ?tl (downClosed ?b)))"
    using onSidecarAttach_exact [OF D(1,2) V(2) _ assms(7), of tc] assms(9) V
    by (simp add: sess_frame_def attachFrame_def)
  obtain c1 ces where c1: "foldl sidecar_takes (?c, []) (?fs @ ?tl (downClosed ?b)) = (c1, ces)" by (metis prod.exhaust)
  obtain c0 ces0 where c0: "foldl sidecar_takes (?c, []) (?fs @ ?tl False) = (c0, ces0)" by (metis prod.exhaust)
  obtain b2 es2 where b2: "foldl (broker_takes e tc) (bind tc ?b, []) (sentFrames ces) = (b2, es2)" by (metis prod.exhaust)
  have n: "(?rest = []) = (\<not> unat (upstreamWritten ?b) < length ?U)" by auto
  obtain acks where s: "agentBytes ces = drop (unat (downDelivered ?c)) ?D" "unat (downDelivered c1) = length ?D"
    and f: "sentFrames ces = (if unat (upstreamWritten ?b) < length ?U
       then [up_data ?c (upstreamWritten ?b) ?rest] else []) @ acks" "\<forall>f\<in>set acks. ftype f = TypeAck"
    using sidecar_resumes [OF U(1,2) W(2) assms(5,6) V(2) D(3) append_assoc c1] by blast
  have alive: "\<not> cs_dead c0"
    using sidecar_resumes [OF U(1,2) W(2) assms(5,6) V(2) D(3) append_assoc c0] by simp
  have uw: "upstreamWritten (bind tc ?b) = upstreamWritten ?b" "connected (bind tc ?b)" "\<not> dead (bind tc ?b)" "\<not> upBroken (bind tc ?b)"
    using assms(2,3,4) by (simp_all add: bind_def)
  have u: "upBytes es2 = ?rest \<and> unat (upstreamWritten b2) = length ?U \<and> \<not> dead b2"
    by (rule broker_resumes [OF uw(3,2,4) assms(8) U(3), unfolded uw(1), OF W(2) f b2])
  have types: "\<forall>f\<in>set (?fs @ ?tl (downClosed ?b)). ftype f \<in> {TypeAttachOK, TypeData, TypeClose}"
    by (auto simp: attachok_frame_def data_frame_def close_frame_def)
  have before: "\<not> cs_dead (fst (foldl sidecar_takes (?c, []) ?fs))"
    using alive c0 by (simp only: if_False append_Nil2 fst_conv simp_thms)
  have sent: "sentFrames ces = (if ?rest = [] then [] else [up_data ?c (upstreamWritten ?b) ?rest]) @ acks"
    unfolding f(1) n by simp
  have got: "upGot \<sigma> @ ?rest = ?U" "agentGot \<sigma> @ agentBytes ces = ?D" using W V s(1) by simp_all
  show thesis
    by (rule that [OF att c1 _ before types sent f(2) got s(2) b2]) (use u in simp_all)
qed

text \<open>
  One reconnect recovers everything: the destination has received everything the agent sent, the
  agent everything the broker produced, and both counters say so.
\<close>

lemma resume_completes_streams:
  assumes "treach \<sigma>" and "\<not> dead (bs \<sigma>)" and "connected (bs \<sigma>)" and "\<not> upBroken (bs \<sigma>)"
    and "\<not> cs_dead (sc \<sigma>)" and "\<not> agentBroken (sc \<sigma>)" and "\<forall>f. tun_ok e f" and "up_take e = None"
    and "length (produced \<sigma>) - length (agentGot \<sigma>) \<le> MaxPayload"
    and "resume_once e tc (sc \<sigma>) (bs \<sigma>) = (c', b', w, v)"
  shows "upGot \<sigma> @ w = agentSent \<sigma> \<and> agentGot \<sigma> @ v = produced \<sigma> \<and>
    unat (upstreamWritten b') = length (agentSent \<sigma>) \<and> unat (downDelivered c') = length (produced \<sigma>)"
  by (rule resume_round [OF assms(1-9), of tc])
    (use assms(10) in \<open>simp add: resume_once_def del: foldl_append map_append\<close>)

end
