(* ===== verification/Resumer.thy ===== *)
theory Resumer
  imports Prelude
begin

text \<open>
  Waking an actor: \<^verbatim>\<open>internal/broker/resumer.go\<close> and the actor references of
  \<^verbatim>\<open>internal/ateapi/ateapi.go\<close>. At most one resume per actor is in flight; it retries
  while the platform answers Aborted, with growing pauses, under a deadline. The gRPC call
  itself is outside the repository: its answers and their durations are parameters.
\<close>

section \<open>Actor references\<close>

record Ref =
  Atespace :: string
  Name :: string

definition Ref_String :: "Ref \<Rightarrow> string" where
  "Ref_String r = Atespace r @ ''/'' @ Name r"

definition parseRef :: "string \<Rightarrow> Ref" where
  "parseRef actorID =
     (let ns = takeWhile (\<lambda>c. c \<noteq> CHR ''/'') actorID
      in if CHR ''/'' \<in> set actorID
         then \<lparr>Atespace = ns, Name = drop (length ns + 1) actorID\<rparr>
         else \<lparr>Atespace = [], Name = actorID\<rparr>)"

section \<open>One resume in flight per actor\<close>

record resumer =
  inflight :: "string set"

definition newResumer :: resumer where
  "newResumer = \<lparr>inflight = {}\<rparr>"

text \<open>\<^verbatim>\<open>resume\<close>: the new state and whether a goroutine was started; and its deferred end.\<close>

definition resume :: "string \<Rightarrow> resumer \<Rightarrow> resumer \<times> bool" where
  "resume actor r =
     (if actor \<in> inflight r then (r, False)
      else (r\<lparr>inflight := insert actor (inflight r)\<rparr>, True))"

definition resumeDone :: "string \<Rightarrow> resumer \<Rightarrow> resumer" where
  "resumeDone actor r = r\<lparr>inflight := inflight r - {actor}\<rparr>"

section \<open>The retry loop\<close>

text \<open>
  Times are nanoseconds since the goroutine started; its context expires at
  \<open>resumeTimeout\<close>. \<open>rpc k\<close> is the answer of the \<open>k\<close>-th \<^verbatim>\<open>ResumeActor\<close> call and how
  long it took; \<open>pick k\<close> is which branch \<^verbatim>\<open>select\<close> takes when the pause and the
  context end at the same instant.
\<close>

datatype rpc_answer = RpcOk | RpcAborted | RpcOther

datatype resume_end = Resumed nat nat | Failed nat nat | GaveUp nat nat

definition resumeTimeout :: nat where
  "resumeTimeout = 30000000000"

fun backoff :: "nat \<Rightarrow> nat" where
  "backoff 0 = 200000000"
| "backoff (Suc k) = (if backoff k < 2000000000 then backoff k * 3 div 2 else backoff k)"

lemma backoff_ge: "200000000 \<le> backoff k"
  by (induction k) auto

function resumeLoop :: "(nat \<Rightarrow> rpc_answer \<times> nat) \<Rightarrow> (nat \<Rightarrow> bool) \<Rightarrow> nat \<Rightarrow> nat \<Rightarrow> resume_end" where
  "resumeLoop rpc pick k now =
     (let (answer, took) = rpc k; t = now + took; wake = t + backoff k
      in case answer of
           RpcOk \<Rightarrow> Resumed (Suc k) t
         | RpcOther \<Rightarrow> Failed (Suc k) t
         | RpcAborted \<Rightarrow>
             if wake < resumeTimeout \<or> (wake = resumeTimeout \<and> pick k)
             then resumeLoop rpc pick (Suc k) wake
             else GaveUp (Suc k) (max t resumeTimeout))"
  by pat_completeness auto
termination
proof (relation "measure (\<lambda>(rpc, pick, k, now). resumeTimeout + 1 - now)")
  fix rpc :: "nat \<Rightarrow> rpc_answer \<times> nat" and pick :: "nat \<Rightarrow> bool" and k now answer took t wake
  assume "t = now + took" "wake = t + backoff k" "wake < resumeTimeout \<or> wake = resumeTimeout \<and> pick k"
  then show "((rpc, pick, Suc k, wake), rpc, pick, k, now) \<in> measure (\<lambda>(rpc, pick, k, now). resumeTimeout + 1 - now)"
    using backoff_ge [of k] by auto
qed simp

declare resumeLoop.simps [simp del]

definition resumeActor :: "(nat \<Rightarrow> rpc_answer \<times> nat) \<Rightarrow> (nat \<Rightarrow> bool) \<Rightarrow> resume_end" where
  "resumeActor rpc pick = resumeLoop rpc pick 0 0"

fun attempts :: "resume_end \<Rightarrow> nat" where
  "attempts (Resumed n t) = n" | "attempts (Failed n t) = n" | "attempts (GaveUp n t) = n"

section \<open>Lemmas\<close>

text \<open>The earliest time the \<open>k\<close>-th call can start.\<close>

definition pauses :: "nat \<Rightarrow> nat" where
  "pauses k = sum_list (map backoff [0..<k])"

lemma pauses_simps [simp]: "pauses 0 = 0" "pauses (Suc k) = pauses k + backoff k"
  by (simp_all add: pauses_def)

lemma backoff_table:
  "backoff 1 = 300000000" "backoff 2 = 450000000" "backoff 3 = 675000000" "backoff 4 = 1012500000"
  "backoff 5 = 1518750000" "backoff 6 = 2278125000"
proof -
  have s: "backoff (numeral n) = (let b = backoff (pred_numeral n) in if b < 2000000000 then b * 3 div 2 else b)" for n
    by (subst numeral_eq_Suc) (simp add: Let_def)
  show 1: "backoff 1 = 300000000" by simp
  show 2: "backoff 2 = 450000000" using 1 by (simp add: s)
  show 3: "backoff 3 = 675000000" using 2 by (simp add: s)
  show 4: "backoff 4 = 1012500000" using 3 by (simp add: s)
  show 5: "backoff 5 = 1518750000" using 4 by (simp add: s)
  show 6: "backoff 6 = 2278125000" using 5 by (simp add: s)
qed

lemma backoff_cap: "6 \<le> k \<Longrightarrow> backoff k = 2278125000"
  by (induction k rule: dec_induct) (simp_all add: backoff_table)

lemma backoff_mono: "j \<le> k \<Longrightarrow> backoff j \<le> backoff k"
  by (rule lift_Suc_mono_le [of backoff]) auto

lemma backoff_le: "backoff k \<le> 2278125000"
  using backoff_mono [of k "max k 6"] backoff_cap [of "max k 6"] by simp

lemma pauses_18: "18 \<le> k \<Longrightarrow> resumeTimeout < pauses k"
proof -
  have "[0..<6] = [0, 1, 2, 3, 4, 5]" by (simp add: upt_conv_Cons)
  then have 6: "pauses 6 = 4156250000"
    by (simp add: pauses_def backoff_table del: backoff.simps(2) One_nat_def)
  have "pauses (6 + j) = pauses 6 + j * 2278125000" for j
  proof (induction j)
    case (Suc j)
    then show ?case using pauses_simps(2) [of "6 + j"] backoff_cap [of "6 + j"] by simp
  qed simp
  from this [of 12] have 18: "resumeTimeout < pauses 18" by (simp add: 6 resumeTimeout_def)
  assume "18 \<le> k"
  then have "pauses 18 \<le> pauses k" by (rule lift_Suc_mono_le [rotated]) simp
  then show ?thesis using 18 by simp
qed

lemma resumeLoop_attempts:
  assumes "pauses k \<le> now" and "now \<le> resumeTimeout"
  shows "k < attempts (resumeLoop rpc pick k now) \<and> attempts (resumeLoop rpc pick k now) \<le> 18"
  using assms
proof (induction rpc pick k now rule: resumeLoop.induct)
  case (1 rpc pick k now)
  have k: "k < 18" using 1(2,3) pauses_18 [of k] by linarith
  obtain answer took where r: "rpc k = (answer, took)" by fastforce
  let ?wake = "now + took + backoff k"
  show ?case
  proof (cases "answer = RpcAborted \<and> (?wake < resumeTimeout \<or> ?wake = resumeTimeout \<and> pick k)")
    case True
    then have "Suc k < attempts (resumeLoop rpc pick (Suc k) ?wake) \<and> attempts (resumeLoop rpc pick (Suc k) ?wake) \<le> 18"
      using 1(1) [OF r [symmetric] refl refl] 1(2) r by auto
    then show ?thesis using True r by (subst (1 2) resumeLoop.simps) auto
  next
    case False
    then show ?thesis using k r by (subst (1 2) resumeLoop.simps) (cases answer; auto)
  qed
qed

text \<open>The start of call \<open>k\<close> when every earlier one is answered Aborted.\<close>

definition callStart :: "(nat \<Rightarrow> rpc_answer \<times> nat) \<Rightarrow> nat \<Rightarrow> nat" where
  "callStart rpc k = sum_list (map (\<lambda>j. snd (rpc j) + backoff j) [0..<k])"

lemma callStart_Suc [simp]: "callStart rpc (Suc k) = callStart rpc k + snd (rpc k) + backoff k"
  by (simp add: callStart_def)

lemma callStart_mono: "j \<le> k \<Longrightarrow> callStart rpc j \<le> callStart rpc k"
  by (induction k) (auto simp: le_Suc_eq)

lemma resumeLoop_reaches:
  assumes "\<forall>j<k. fst (rpc j) = RpcAborted" and "callStart rpc k < resumeTimeout" and "j \<le> k"
  shows "resumeLoop rpc pick j (callStart rpc j) = resumeLoop rpc pick k (callStart rpc k)"
  using assms(3)
proof (induction rule: inc_induct)
  case (step j)
  have "callStart rpc (Suc j) < resumeTimeout"
    using callStart_mono [of "Suc j" k rpc] step(2) assms(2) by simp
  then have "resumeLoop rpc pick j (callStart rpc j) = resumeLoop rpc pick (Suc j) (callStart rpc (Suc j))"
    using assms(1) step(2) by (subst resumeLoop.simps) (cases "rpc j"; auto)
  then show ?case using step.IH by simp
qed simp

lemma resumeLoop_ends:
  "fst (rpc k) = RpcOk \<Longrightarrow> resumeLoop rpc pick k now = Resumed (Suc k) (now + snd (rpc k))"
  "fst (rpc k) = RpcOther \<Longrightarrow> resumeLoop rpc pick k now = Failed (Suc k) (now + snd (rpc k))"
  by (subst resumeLoop.simps, cases "rpc k", simp)+

text \<open>Wakes and ends of goroutines, with the number running per actor.\<close>

datatype resumer_event = Wake string | Done string

fun resumer_step :: "resumer \<times> (string \<Rightarrow> nat) \<Rightarrow> resumer_event \<Rightarrow> resumer \<times> (string \<Rightarrow> nat)" where
  "resumer_step (r, n) (Wake a) =
     (let (r', started) = resume a r in (r', if started then n(a := n a + 1) else n))"
| "resumer_step (r, n) (Done a) =
     (if n a = 0 then (r, n) else (resumeDone a r, n(a := n a - 1)))"

lemma resumer_step_keeps:
  assumes "\<forall>a. n a = (if a \<in> inflight r then 1 else 0)" and "resumer_step (r, n) ev = (r', n')"
  shows "\<forall>a. n' a = (if a \<in> inflight r' then 1 else 0)"
  using assms by (cases ev) (auto simp: resume_def resumeDone_def split: if_splits)

lemma resumer_run_keeps:
  "\<forall>a. n a = (if a \<in> inflight r then 1 else 0) \<Longrightarrow> foldl resumer_step (r, n) evs = (r', n') \<Longrightarrow>
   \<forall>a. n' a = (if a \<in> inflight r' then 1 else 0)"
proof (induction evs arbitrary: r n)
  case (Cons ev evs)
  obtain r1 n1 where 1: "resumer_step (r, n) ev = (r1, n1)" by fastforce
  show ?case using Cons.IH [OF resumer_step_keeps [OF Cons.prems(1) 1]] Cons.prems(2) 1 by simp
qed simp

section \<open>Properties\<close>

text \<open>
  C21. Single flight. After any sequence of wakes and completions, at most one resume runs for
  each actor, exactly when the actor is marked in flight; and a wake leaves exactly one
  running, so a burst of wakes makes one call and no wake of an idle actor is dropped.
\<close>

theorem resume_single_flight:
  assumes "foldl resumer_step (newResumer, \<lambda>_. 0) evs = (r, n)"
  shows "n a \<le> 1 \<and> (n a = 1 \<longleftrightarrow> a \<in> inflight r) \<and> snd (resumer_step (r, n) (Wake a)) a = 1"
proof -
  have "\<forall>a. n a = (if a \<in> inflight r then 1 else 0)"
    by (rule resumer_run_keeps [OF _ assms]) (simp add: newResumer_def)
  then show ?thesis by (simp add: resume_def)
qed

theorem resume_single_flight_witness:
  "snd (foldl resumer_step (newResumer, \<lambda>_. 0) [Wake ''a'', Wake ''a'', Wake ''b'', Done ''b'']) ''a'' = 1"
  using resume_single_flight [of "[Wake ''a'', Wake ''b'', Done ''b'']"
      "\<lparr>inflight = {''a''}\<rparr>" "(\<lambda>_. 0)(''a'' := 1)" "''a''"]
  by (simp add: newResumer_def resume_def resumeDone_def insert_commute)

text \<open>
  C24. The retry loop ends, within 18 calls: whatever the calls answer and however long they
  take, the pauses alone use up the 30 s deadline by then.
\<close>

theorem resume_attempts_bounded:
  "1 \<le> attempts (resumeActor rpc pick) \<and> attempts (resumeActor rpc pick) \<le> 18 \<and>
   (\<forall>k. 200000000 \<le> backoff k \<and> backoff k \<le> 2278125000)"
proof -
  show ?thesis
    using resumeLoop_attempts [of 0 0 rpc pick] backoff_ge backoff_le by (simp add: resumeActor_def Suc_le_eq)
qed

text \<open>
  C25. A wake that races a suspend still succeeds: if the calls are answered Aborted until the
  suspend has finished and the next one starts before the deadline and succeeds, the actor is
  resumed by exactly that call; a call answered with any other error ends the loop as failed.
\<close>

theorem resume_outlasts_suspend:
  assumes "\<forall>j<k. fst (rpc j) = RpcAborted" and "callStart rpc k < resumeTimeout"
  shows "(fst (rpc k) = RpcOk \<longrightarrow> resumeActor rpc pick = Resumed (Suc k) (callStart rpc k + snd (rpc k))) \<and>
    (fst (rpc k) = RpcOther \<longrightarrow> resumeActor rpc pick = Failed (Suc k) (callStart rpc k + snd (rpc k)))"
proof -
  have "resumeActor rpc pick = resumeLoop rpc pick k (callStart rpc k)"
    using resumeLoop_reaches [OF assms, of 0 pick] by (simp add: resumeActor_def callStart_def)
  then show ?thesis by (simp add: resumeLoop_ends)
qed

lemma callStart_2: "callStart rpc 2 = snd (rpc 0) + backoff 0 + snd (rpc 1) + backoff 1"
  by (simp add: numeral_2_eq_2 callStart_def)

theorem resume_outlasts_suspend_witness:
  "resumeActor (\<lambda>k. if k < 2 then (RpcAborted, 1000) else (RpcOk, 5)) (\<lambda>_. False) = Resumed 3 500002005"
  using resume_outlasts_suspend [of 2 "\<lambda>k. if k < 2 then (RpcAborted, 1000) else (RpcOk, 5)" "\<lambda>_. False"]
  by (simp add: callStart_2 resumeTimeout_def)

text \<open>
  Actor names round-trip: printing a reference whose atespace has no slash and parsing it gives it
  back, and so does parsing a name with a slash and printing it.
\<close>

lemma parseRef_String:
  assumes "CHR ''/'' \<notin> set (Atespace r)"
  shows "parseRef (Ref_String r) = r"
proof -
  have "takeWhile (\<lambda>c. c \<noteq> CHR ''/'') (Ref_String r) = Atespace r"
    using assms by (subst Ref_String_def, subst takeWhile_append2) auto
  then show ?thesis by (simp add: parseRef_def) (simp add: Ref_String_def)
qed

lemma String_parseRef:
  assumes "CHR ''/'' \<in> set s"
  shows "Ref_String (parseRef s) = s"
proof -
  obtain ys zs where s: "s = ys @ CHR ''/'' # zs" "CHR ''/'' \<notin> set ys"
    using split_list_first [OF assms] by blast
  then have "takeWhile (\<lambda>c. c \<noteq> CHR ''/'') s = ys"
    using takeWhile_eq_all_conv [of _ ys] by (auto simp: takeWhile_tail)
  then show ?thesis using s(1) by (simp add: parseRef_def Ref_String_def)
qed

end
