(* ===== verification/Broker.thy ===== *)
theory Broker
  imports Broker_Session Resumer
begin

text \<open>
  The broker as a whole, \<^verbatim>\<open>internal/broker/broker.go\<close> and \<^verbatim>\<open>tunnelconn.go\<close>: the
  registry of sessions, the tunnel connections with the sessions registered on them, and the
  resumer. Sessions are objects on a heap, because the registry, the tunnels and the reader
  goroutines all point at the same one.
\<close>

section \<open>State\<close>

record Config =
  SessionBufferBytes :: int
  cfgMaxSuspendWatchdog :: int
  DialTimeout :: int
  TunnelReadTimeout :: int
  AllowTarget :: "(string \<Rightarrow> bool) option"

text \<open>Durations are nanoseconds; the required lifecycle client and the logger are not modelled.\<close>

definition withDefaults :: "Config \<Rightarrow> Config" where
  "withDefaults c =
     c\<lparr>SessionBufferBytes := (if SessionBufferBytes c = 0 then 4 * 1024 * 1024 else SessionBufferBytes c),
       cfgMaxSuspendWatchdog := (if cfgMaxSuspendWatchdog c = 0 then 300000000000 else cfgMaxSuspendWatchdog c),
       DialTimeout := (if DialTimeout c = 0 then 10000000000 else DialTimeout c),
       TunnelReadTimeout := (if TunnelReadTimeout c = 0 then 4000000000 else TunnelReadTimeout c)\<rparr>"

type_synonym sessionKey = "string \<times> u64"

text \<open>
  \<open>objs\<close> is the heap; \<open>sessions\<close> the registry; \<open>registered tc\<close> the sessions bound to a
  tunnel connection over its life. \<open>nextObj\<close> is the next free address.
\<close>

record broker =
  cfg :: Config
  objs :: "nat \<Rightarrow> session option"
  nextObj :: nat
  sessions :: "sessionKey \<Rightarrow> nat option"
  registered :: "nat \<Rightarrow> u64 \<Rightarrow> nat option"
  resumer_st :: resumer

text \<open>What the broker does to the outside: session effects, frames it writes itself, goroutines.\<close>

datatype beffect =
    SessionEffect nat effect
  | ConnWrite nat frame
  | StartDial nat
  | StartResume string

type_synonym bhandler = "broker \<Rightarrow> broker \<times> beffect list"

definition bthen :: "broker \<times> beffect list \<Rightarrow> bhandler \<Rightarrow> broker \<times> beffect list" where
  "bthen m f = (let (b, es) = m; (b', es') = f b in (b', es @ es'))"

definition New :: "Config \<Rightarrow> broker" where
  "New c = \<lparr>cfg = withDefaults c, objs = Map.empty, nextObj = 0, sessions = Map.empty,
     registered = (\<lambda>_. Map.empty), resumer_st = newResumer\<rparr>"

section \<open>Registry\<close>

definition lookup :: "string \<Rightarrow> u64 \<Rightarrow> broker \<Rightarrow> nat option" where
  "lookup actor sid b = sessions b (actor, sid)"

definition removeSession :: "string \<Rightarrow> u64 \<Rightarrow> broker \<Rightarrow> broker" where
  "removeSession actor sid b = b\<lparr>sessions := (sessions b)((actor, sid) := None)\<rparr>"

definition wake :: "string \<Rightarrow> bhandler" where
  "wake actor b =
     (let (r, started) = resume actor (resumer_st b)
      in (b\<lparr>resumer_st := r\<rparr>, if started then [StartResume actor] else []))"

text \<open>
  A session method calls back into the broker: its wakes go to the resumer, its teardown
  removes the registry entry of its key.
\<close>

fun callback :: "nat \<Rightarrow> session \<Rightarrow> effect \<Rightarrow> bhandler" where
  "callback ref s (WakeActor actor reason) b =
     (let (b', es) = wake actor b in (b', SessionEffect ref (WakeActor actor reason) # es))"
| "callback ref s RemoveSession b = (removeSession (actorID s) (sessionID s) b, [SessionEffect ref RemoveSession])"
| "callback ref s ef b = (b, [SessionEffect ref ef])"

fun callbacks :: "nat \<Rightarrow> session \<Rightarrow> effect list \<Rightarrow> bhandler" where
  "callbacks ref s [] b = (b, [])"
| "callbacks ref s (ef # es) b = bthen (callback ref s ef b) (callbacks ref s es)"

text \<open>Run a session method on the object at \<open>ref\<close>.\<close>

definition run_session :: "nat \<Rightarrow> handler \<Rightarrow> bhandler" where
  "run_session ref m b =
     (case objs b ref of
        None \<Rightarrow> (b, [])
      | Some s \<Rightarrow> (let (s', es) = m s in callbacks ref s' es (b\<lparr>objs := (objs b)(ref \<mapsto> s')\<rparr>)))"

section \<open>Tunnel connections\<close>

definition register :: "nat \<Rightarrow> nat \<Rightarrow> broker \<Rightarrow> broker" where
  "register tc ref b =
     (case objs b ref of
        None \<Rightarrow> b
      | Some s \<Rightarrow> b\<lparr>registered := (registered b)(tc := (registered b tc)(sessionID s \<mapsto> ref))\<rparr>)"

text \<open>\<^verbatim>\<open>session.bind\<close> with its registration.\<close>

definition bindTo :: "nat \<Rightarrow> nat \<Rightarrow> broker \<Rightarrow> broker" where
  "bindTo tc ref b =
     (case objs b ref of
        None \<Rightarrow> b
      | Some s \<Rightarrow> register tc ref (b\<lparr>objs := (objs b)(ref \<mapsto> bind tc s)\<rparr>))"

text \<open>\<open>order\<close> are the ids registered on the tunnel, in the order the map iteration yields them.\<close>

fun detachEach :: "nat \<Rightarrow> nat list \<Rightarrow> bhandler" where
  "detachEach tc [] b = (b, [])"
| "detachEach tc (ref # refs) b = bthen (run_session ref (detach tc) b) (detachEach tc refs)"

definition detachAll :: "nat \<Rightarrow> u64 list \<Rightarrow> bhandler" where
  "detachAll tc order b =
     (let refs = List.map_filter (registered b tc) order
      in detachEach tc refs (b\<lparr>registered := (registered b)(tc := Map.empty)\<rparr>))"

section \<open>Frames\<close>

definition connWrite :: "env \<Rightarrow> nat \<Rightarrow> frame \<Rightarrow> beffect list" where
  "connWrite e tc f = (if tc_write e f then [ConnWrite tc f] else [])"

text \<open>The watchdog period of a session is the broker's.\<close>

definition at_cfg :: "broker \<Rightarrow> env \<Rightarrow> env" where
  "at_cfg b e = e\<lparr>MaxSuspendWatchdog := cfgMaxSuspendWatchdog (cfg b)\<rparr>"

definition allowed :: "broker \<Rightarrow> string \<Rightarrow> bool" where
  "allowed b tgt = (case AllowTarget (cfg b) of None \<Rightarrow> True | Some p \<Rightarrow> p tgt)"

text \<open>\<^verbatim>\<open>attachSession\<close> on a session that is in the registry.\<close>

definition reattach :: "env \<Rightarrow> nat \<Rightarrow> nat \<Rightarrow> u64 \<Rightarrow> bhandler" where
  "reattach e tc ref off b = run_session ref (onSidecarAttach e off) (bindTo tc ref b)"

definition openSession :: "env \<Rightarrow> string \<Rightarrow> nat \<Rightarrow> frame \<Rightarrow> bhandler" where
  "openSession e actor tc f b =
     (if \<not> allowed b (Target f) then
        (b, connWrite e tc (close_frame (SessionID f) ''target not allowed''))
      else case lookup actor (SessionID f) b of
        Some ref \<Rightarrow> reattach e tc ref 0 b
      | None \<Rightarrow>
          (let ref = nextObj b;
               s = newSession (SessionBufferBytes (cfg b)) (clock e) actor (SessionID f) (Target f);
               b1 = b\<lparr>objs := (objs b)(ref \<mapsto> s), nextObj := Suc ref,
                      sessions := (sessions b)((actor, SessionID f) \<mapsto> ref)\<rparr>
           in (bindTo tc ref b1, [StartDial ref])))"

definition attachSession :: "env \<Rightarrow> string \<Rightarrow> nat \<Rightarrow> frame \<Rightarrow> bhandler" where
  "attachSession e actor tc f b =
     (case lookup actor (SessionID f) b of
        Some ref \<Rightarrow> reattach e tc ref (Offset f) b
      | None \<Rightarrow>
          if Offset f = 0 \<and> Target f \<noteq> [] then
            bthen
              (openSession e actor tc
                 (zero_frame\<lparr>ftype := TypeOpen, SessionID := SessionID f, Target := Target f\<rparr>) b)
              (\<lambda>b. case lookup actor (SessionID f) b of
                     None \<Rightarrow> (b, [])
                   | Some ref \<Rightarrow> run_session ref (onSidecarAttach e (Offset f)) b)
          else (b, connWrite e tc (close_frame (SessionID f) ''session lost'')))"

definition on_session :: "string \<Rightarrow> u64 \<Rightarrow> handler \<Rightarrow> bhandler" where
  "on_session actor sid m b =
     (case lookup actor sid b of None \<Rightarrow> (b, []) | Some ref \<Rightarrow> run_session ref m b)"

definition handleFrame :: "env \<Rightarrow> string \<Rightarrow> nat \<Rightarrow> frame \<Rightarrow> bhandler" where
  "handleFrame e0 actor tc f b =
     (let e = at_cfg b e0 in
      if ftype f = TypePing then (b, connWrite e tc (zero_frame\<lparr>ftype := TypePong, Nonce := Nonce f\<rparr>))
      else if ftype f = TypeOpen then openSession e actor tc f b
      else if ftype f = TypeAttach then attachSession e actor tc f b
      else if ftype f = TypeData then on_session actor (SessionID f) (onData e (Offset f) (Payload f)) b
      else if ftype f = TypeAck then on_session actor (SessionID f) (\<lambda>s. (onDownstreamAck (Offset f) s, [])) b
      else if ftype f = TypeClose then on_session actor (SessionID f) (onSidecarClose (Dir f)) b
      else (b, []))"

section \<open>Serving a tunnel\<close>

text \<open>
  \<^verbatim>\<open>serveTunnel\<close> on the frames the connection delivers before it fails or falls silent for
  longer than the read timeout, each with the environment it is handled in.
\<close>

fun serveLoop :: "string \<Rightarrow> nat \<Rightarrow> (env \<times> frame) list \<Rightarrow> bhandler" where
  "serveLoop actor tc [] b = (b, [])"
| "serveLoop actor tc ((e, f) # fs) b = bthen (handleFrame e actor tc f b) (serveLoop actor tc fs)"

fun serveTunnel :: "nat \<Rightarrow> (env \<times> frame) list \<Rightarrow> u64 list \<Rightarrow> bhandler" where
  "serveTunnel tc [] order b = (b, [])"
| "serveTunnel tc ((e, first) # fs) order b =
     (if ftype first \<noteq> TypeHello \<or> ActorID first = [] then (b, [])
      else bthen (serveLoop (ActorID first) tc fs b) (detachAll tc order))"

text \<open>\<^verbatim>\<open>Sessions\<close>: the debug snapshot, for the registry keys in iteration order.\<close>

definition Sessions :: "sessionKey list \<Rightarrow> broker \<Rightarrow> SessionInfo list" where
  "Sessions order b =
     List.map_filter (\<lambda>k. case sessions b k of None \<Rightarrow> None | Some ref \<Rightarrow> map_option (info k) (objs b ref)) order"

section \<open>Everything that can happen to a broker\<close>

text \<open>
  Frames of a tunnel, the end of a tunnel, and the goroutines: a dial that completes, a turn of
  an upstream reader, a watchdog, a resume that ends. A tunnel serves the one actor its HELLO
  named: \<open>ta tc\<close>.
\<close>

datatype bevent =
    BFrame nat env frame
  | BTunnelEnd nat "u64 list"
  | BDial nat env "string option"
  | BRead nat env bytes "string option option"
  | BWatchdog nat
  | BResumeDone string

fun bstep :: "(nat \<Rightarrow> string) \<Rightarrow> bevent \<Rightarrow> bhandler" where
  "bstep ta (BFrame tc e f) b = handleFrame e (ta tc) tc f b"
| "bstep ta (BTunnelEnd tc order) b = detachAll tc order b"
| "bstep ta (BDial ref e r) b = run_session ref (dialUpstream (at_cfg b e) r) b"
| "bstep ta (BRead ref e p err) b = run_session ref (sess_step (EvRead (at_cfg b e) p err)) b"
| "bstep ta (BWatchdog ref) b = run_session ref watchdogFires b"
| "bstep ta (BResumeDone actor) b = (b\<lparr>resumer_st := resumeDone actor (resumer_st b)\<rparr>, [])"

section \<open>Session methods are lawful\<close>

text \<open>
  What the registry relies on: a method keeps the identity of its session, calls
  \<^verbatim>\<open>removeSession\<close> exactly when the session dies, never binds it to another tunnel, and
  wakes only its own actor.
\<close>

definition lawful :: "session \<Rightarrow> session \<times> effect list \<Rightarrow> bool" where
  "lawful s r \<longleftrightarrow> actorID (fst r) = actorID s \<and> sessionID (fst r) = sessionID s \<and> target (fst r) = target s \<and>
     (dead (fst r) \<longleftrightarrow> dead s \<or> RemoveSession \<in> set (snd r)) \<and>
     (dead s \<longrightarrow> RemoveSession \<notin> set (snd r)) \<and> (tconn (fst r) = tconn s \<or> tconn (fst r) = None) \<and>
     (\<forall>a w. WakeActor a w \<in> set (snd r) \<longrightarrow> a = actorID s)"

lemma lawful_andThen:
  "lawful s r \<Longrightarrow> lawful (fst r) (f (fst r)) \<Longrightarrow> lawful s (andThen r f)"
  by (auto simp: lawful_def)

lemma lawful_idle [simp]: "lawful s (s, [])"
  by (simp add: lawful_def)

lemma lawful_detach: "lawful s (detach tc s)"
  by (auto simp: lawful_def detach_def Let_def)

lemma lawful_send: "lawful s (sendToSidecar e f s)"
  using lawful_detach by (auto simp: sendToSidecar_def split: option.splits) (simp add: lawful_def)

lemma lawful_destroy: "lawful s (destroy s)"
  by (auto simp: lawful_def destroy_def)

lemma lawful_maybeDestroy: "lawful s (maybeDestroy s)"
  by (simp add: maybeDestroy_def lawful_destroy)

lemma lawful_closeUpstream: "lawful s (closeUpstream e c s)"
proof -
  have "lawful s (sendToSidecar e f (s\<lparr>downClosed := True\<rparr>))" for f
    using lawful_send [of "s\<lparr>downClosed := True\<rparr>" e f] by (simp add: lawful_def)
  then show ?thesis
    by (auto simp: closeUpstream_def Let_def intro!: lawful_andThen lawful_maybeDestroy) (auto simp: lawful_def)
qed

lemma lawful_update:
  assumes "lawful s' r" and "actorID s' = actorID s" and "sessionID s' = sessionID s" and "target s' = target s" and "dead s' = dead s"
    and "tconn s' = tconn s"
  shows "lawful s r"
  using assms by (simp add: lawful_def)

lemma lawful_commitUp: "lawful s (commitUp e n s)"
  by (simp add: commitUp_def Let_def) (rule lawful_update [OF lawful_send]; simp add: armWatchdogLocked_def)

lemma lawful_writeUpstream: "lawful s (writeUpstream e p s)"
  by (auto simp: writeUpstream_def upWrite_def split: option.splits
      intro!: lawful_andThen lawful_closeUpstream lawful_commitUp) (auto simp: lawful_def)

lemma lawful_onData: "lawful s (onData e off p s)"
  by (simp add: onData_def Let_def lawful_writeUpstream) (simp add: lawful_def)

lemma lawful_attach: "lawful s (onSidecarAttach e off s)"
  by (simp add: onSidecarAttach_def Let_def) (intro lawful_andThen; simp add: lawful_send)

lemma lawful_onSidecarClose: "lawful s (onSidecarClose d s)"
  by (auto simp: onSidecarClose_def intro!: lawful_andThen lawful_maybeDestroy) (auto simp: lawful_def)

lemma lawful_dial: "lawful s (dialUpstream e r s)"
proof (cases r)
  case (Some err)
  then show ?thesis
    by (auto simp: dialUpstream_def dialFailed_def intro!: lawful_andThen lawful_send lawful_destroy)
next
  case None
  let ?s1 = "fst (dialPublish e s)"
  have f: "lawful s' (dialFlush e pre s')" for pre s'
    by (auto simp: dialFlush_def upWrite_def Let_def split: option.splits
        intro!: lawful_andThen lawful_closeUpstream lawful_send) (auto simp: lawful_def)
  have "lawful s (dialFlush e (preConn s) ?s1)"
    by (rule lawful_update [OF f]) (simp_all add: dialPublish_def armWatchdogLocked_def)
  moreover have "lawful s (s, [UpClose])" by (simp add: lawful_def)
  ultimately show ?thesis using None by (simp add: dialUpstream_def dialPublish_def)
qed

lemma lawful_produce:
  "lawful s (fst (produceDownstream e p s), fst (snd (produceDownstream e p s)))"
proof -
  have "lawful t (forwardChunk e off c t)" for t off c
    by (auto simp: lawful_def forwardChunk_def Let_def split: option.splits)
  then have "lawful s (forwardChunk e off c (s\<lparr>downBuf := b\<rparr>))" for off c b
    by (rule lawful_update [where s' = "s\<lparr>downBuf := b\<rparr>"]) simp_all
  then show ?thesis by (cases rule: produce_cases [of e p s]) auto
qed

lemma lawful_read: "lawful s (sess_step (EvRead e p err) s)"
proof -
  obtain s1 es r where p: "produceDownstream e p s = (s1, es, r)" by (cases "produceDownstream e p s")
  have 1: "lawful s (s1, es)" using lawful_produce [of s e p] p by simp
  have 2: "lawful s (andThen (s1, es) (closeUpstream e c))" "lawful s (andThen (s1, es) destroy)" for c
    using 1 by (auto intro: lawful_andThen lawful_closeUpstream lawful_destroy)
  then show ?thesis
    using 1 p by (cases r; cases err) (auto simp: readUpstreamTurn_def andThen_def split_beta)
qed

lemma lawful_watchdog: "lawful s (watchdogFires s)"
  by (auto simp: lawful_def watchdogFires_def Let_def)

lemmas lawful_methods = lawful_detach lawful_onData lawful_attach lawful_onSidecarClose lawful_dial
  lawful_read lawful_watchdog

lemma lawful_ack: "lawful s (onDownstreamAck off s, [])"
  by (simp add: lawful_def onDownstreamAck_def Let_def)

section \<open>The registry invariant\<close>

text \<open>
  The registry holds exactly the live sessions, each under its own key; addresses are fresh;
  every session was admitted by the target policy; and a live session bound to a tunnel is
  registered there, on a tunnel of its own actor.
\<close>

definition reg_inv :: "(nat \<Rightarrow> string) \<Rightarrow> broker \<Rightarrow> bool" where
  "reg_inv ta b \<longleftrightarrow>
     (\<forall>k ref. sessions b k = Some ref \<longrightarrow> (\<exists>s. objs b ref = Some s \<and> \<not> dead s \<and> k = (actorID s, sessionID s))) \<and>
     (\<forall>ref s. objs b ref = Some s \<longrightarrow>
        (\<not> dead s \<longrightarrow> sessions b (actorID s, sessionID s) = Some ref) \<and> ref < nextObj b \<and> allowed b (target s) \<and>
        (\<forall>tc. \<not> dead s \<and> tconn s = Some tc \<longrightarrow> registered b tc (sessionID s) = Some ref \<and> ta tc = actorID s))"

lemma reg_invI:
  assumes "\<And>k ref. sessions b k = Some ref \<Longrightarrow> \<exists>s. objs b ref = Some s \<and> \<not> dead s \<and> k = (actorID s, sessionID s)"
    and "\<And>ref s. objs b ref = Some s \<Longrightarrow> \<not> dead s \<Longrightarrow> sessions b (actorID s, sessionID s) = Some ref"
    and "\<And>ref s. objs b ref = Some s \<Longrightarrow> ref < nextObj b \<and> allowed b (target s)"
    and "\<And>ref s tc. objs b ref = Some s \<Longrightarrow> \<not> dead s \<Longrightarrow> tconn s = Some tc \<Longrightarrow>
      registered b tc (sessionID s) = Some ref \<and> ta tc = actorID s"
  shows "reg_inv ta b"
  unfolding reg_inv_def using assms by meson

lemma reg_invD:
  assumes "reg_inv ta b"
  shows "sessions b k = Some ref \<Longrightarrow> \<exists>s. objs b ref = Some s \<and> \<not> dead s \<and> k = (actorID s, sessionID s)"
    and "objs b ref = Some s \<Longrightarrow> \<not> dead s \<Longrightarrow> sessions b (actorID s, sessionID s) = Some ref"
    and "objs b ref = Some s \<Longrightarrow> ref < nextObj b \<and> allowed b (target s)"
    and "objs b ref = Some s \<Longrightarrow> \<not> dead s \<Longrightarrow> tconn s = Some tc \<Longrightarrow>
      registered b tc (sessionID s) = Some ref \<and> ta tc = actorID s"
  using assms unfolding reg_inv_def by meson+

subsection \<open>What running a session method changes\<close>

lemma fst_bthen [simp]: "fst (bthen m f) = fst (f (fst m))"
  by (simp add: bthen_def split: prod.splits)

lemma snd_bthen [simp]: "snd (bthen m f) = snd m @ snd (f (fst m))"
  by (simp add: bthen_def split: prod.splits)

lemma callbacks_state:
  "objs (fst (callbacks ref s es b)) = objs b \<and> nextObj (fst (callbacks ref s es b)) = nextObj b \<and>
   registered (fst (callbacks ref s es b)) = registered b \<and> cfg (fst (callbacks ref s es b)) = cfg b \<and>
   sessions (fst (callbacks ref s es b)) =
     (if RemoveSession \<in> set es then (sessions b)((actorID s, sessionID s) := None) else sessions b) \<and>
   inflight (resumer_st (fst (callbacks ref s es b))) =
     inflight (resumer_st b) \<union> {a. \<exists>w. WakeActor a w \<in> set es}"
proof (induction es arbitrary: b)
  case (Cons ef es)
  show ?case
    using Cons.IH [of "fst (callback ref s ef b)"]
    by (cases ef) (auto simp: removeSession_def wake_def resume_def split_beta)
qed simp

lemma run_session_state:
  assumes "objs b ref = Some s"
  shows "objs (fst (run_session ref m b)) = (objs b)(ref \<mapsto> fst (m s))"
    and "nextObj (fst (run_session ref m b)) = nextObj b"
    and "registered (fst (run_session ref m b)) = registered b"
    and "cfg (fst (run_session ref m b)) = cfg b"
    and "sessions (fst (run_session ref m b)) =
      (if RemoveSession \<in> set (snd (m s))
       then (sessions b)((actorID (fst (m s)), sessionID (fst (m s))) := None) else sessions b)"
    and "inflight (resumer_st (fst (run_session ref m b))) =
      inflight (resumer_st b) \<union> {a. \<exists>w. WakeActor a w \<in> set (snd (m s))}"
  using assms callbacks_state [of ref "fst (m s)" "snd (m s)" "b\<lparr>objs := (objs b)(ref \<mapsto> fst (m s))\<rparr>"]
  by (simp_all add: run_session_def split_beta)

lemma run_session_none: "objs b ref = None \<Longrightarrow> run_session ref m b = (b, [])"
  by (simp add: run_session_def)

lemma allowed_cong: "cfg b = cfg b' \<Longrightarrow> allowed b = allowed b'"
  by (simp add: allowed_def fun_eq_iff)

lemma reg_inv_run:
  assumes inv: "reg_inv ta b" and law: "\<And>s. lawful s (m s)"
  shows "reg_inv ta (fst (run_session ref m b))"
proof (cases "objs b ref")
  case None
  then show ?thesis using inv by (simp add: run_session_none)
next
  case (Some s)
  define s' rm where "s' = fst (m s)" and "rm = (RemoveSession \<in> set (snd (m s)))"
  note st = run_session_state [OF Some, of m, folded s'_def rm_def] and D = reg_invD [OF inv]
  have l: "actorID s' = actorID s" "sessionID s' = sessionID s" "target s' = target s"
    "dead s' \<longleftrightarrow> dead s \<or> rm" "dead s \<longrightarrow> \<not> rm"
    "tconn s' = tconn s \<or> tconn s' = None"
    using law [of s] by (auto simp: lawful_def s'_def rm_def)
  have al: "allowed (fst (run_session ref m b)) = allowed b" using st(4) by (rule allowed_cong)
  show ?thesis
  proof (rule reg_invI)
    fix k ref'
    assume k: "sessions (fst (run_session ref m b)) k = Some ref'"
    then have "sessions b k = Some ref'" by (auto simp: st split: if_splits)
    then obtain t where t: "objs b ref' = Some t" "\<not> dead t" "k = (actorID t, sessionID t)" using D(1) by blast
    show "\<exists>s. objs (fst (run_session ref m b)) ref' = Some s \<and> \<not> dead s \<and> k = (actorID s, sessionID s)"
      using t k l Some by (cases "ref' = ref") (auto simp: st split: if_splits)
  next
    fix ref' t
    assume t: "objs (fst (run_session ref m b)) ref' = Some t" "\<not> dead t"
    then have "\<exists>u. objs b ref' = Some u \<and> \<not> dead u \<and> actorID u = actorID t \<and> sessionID u = sessionID t"
      using l Some by (auto simp: st split: if_splits)
    then have b: "sessions b (actorID t, sessionID t) = Some ref'" using D(2) by metis
    have "ref' = ref" if "(actorID t, sessionID t) = (actorID s', sessionID s')" "rm"
      using b D(2) [OF Some] that l by (cases "dead s") auto
    then show "sessions (fst (run_session ref m b)) (actorID t, sessionID t) = Some ref'"
      using b t l by (auto simp: st split: if_splits)
  next
    fix ref' t
    assume "objs (fst (run_session ref m b)) ref' = Some t"
    then show "ref' < nextObj (fst (run_session ref m b)) \<and> allowed (fst (run_session ref m b)) (target t)"
      using D(3) [of ref'] D(3) [OF Some] l unfolding al by (auto simp: st split: if_splits)
  next
    fix ref' t tc
    assume "objs (fst (run_session ref m b)) ref' = Some t" "\<not> dead t" "tconn t = Some tc"
    then show "registered (fst (run_session ref m b)) tc (sessionID t) = Some ref' \<and> ta tc = actorID t"
      using D(4) [of ref' _ tc] D(4) [OF Some, of tc] l by (auto simp: st split: if_splits)
  qed
qed

subsection \<open>Binding, opening and attaching\<close>

lemma bindTo_state:
  assumes "objs b ref = Some s"
  shows "objs (bindTo tc ref b) = (objs b)(ref \<mapsto> bind tc s)" and "sessions (bindTo tc ref b) = sessions b"
    and "nextObj (bindTo tc ref b) = nextObj b" and "cfg (bindTo tc ref b) = cfg b"
    and "registered (bindTo tc ref b) = (registered b)(tc := (registered b tc)(sessionID s \<mapsto> ref))"
    and "resumer_st (bindTo tc ref b) = resumer_st b"
  using assms by (simp_all add: bindTo_def register_def bind_def)

lemma reg_inv_bind:
  assumes inv: "reg_inv ta b" and ref: "sessions b (ta tc, sid) = Some ref"
  shows "reg_inv ta (bindTo tc ref b)"
proof -
  note D = reg_invD [OF inv]
  obtain s where s: "objs b ref = Some s" "\<not> dead s" "ta tc = actorID s" "sid = sessionID s" using D(1) [OF ref] by blast
  note st = bindTo_state [OF s(1), of tc]
  have al: "allowed (bindTo tc ref b) = allowed b" using st(4) by (rule allowed_cong)
  have k: "dead (bind tc s) = dead s" "actorID (bind tc s) = actorID s" "sessionID (bind tc s) = sessionID s"
    "target (bind tc s) = target s" "tconn (bind tc s) = Some tc"
    by (simp_all add: bind_def)
  have one: "ref' = ref" if "objs b ref' = Some t" "\<not> dead t" "tconn t = Some tc" "sessionID t = sessionID s" for ref' t
    using D(4) [OF that(1-3)] D(2) [OF that(1,2)] that(4) ref s(3,4) by simp
  show ?thesis
  proof (rule reg_invI)
    fix k ref'
    assume "sessions (bindTo tc ref b) k = Some ref'"
    then show "\<exists>s. objs (bindTo tc ref b) ref' = Some s \<and> \<not> dead s \<and> k = (actorID s, sessionID s)"
      using D(1) [of k ref'] s k by (auto simp: st)
  next
    fix ref' t
    assume "objs (bindTo tc ref b) ref' = Some t" "\<not> dead t"
    then show "sessions (bindTo tc ref b) (actorID t, sessionID t) = Some ref'"
      using D(2) [of ref' t] D(2) [OF s(1,2)] k by (auto simp: st split: if_splits)
  next
    fix ref' t
    assume "objs (bindTo tc ref b) ref' = Some t"
    then show "ref' < nextObj (bindTo tc ref b) \<and> allowed (bindTo tc ref b) (target t)"
      using D(3) [of ref' t] D(3) [OF s(1)] k unfolding al by (auto simp: st split: if_splits)
  next
    fix ref' t tc'
    assume t: "objs (bindTo tc ref b) ref' = Some t" "\<not> dead t" "tconn t = Some tc'"
    show "registered (bindTo tc ref b) tc' (sessionID t) = Some ref' \<and> ta tc' = actorID t"
    proof (cases "ref' = ref")
      case True
      then have t': "t = bind tc s" using t(1) by (simp add: st)
      then have "tc' = tc" using t(3) k by simp
      then show ?thesis unfolding t' by (simp add: True s(3) k st)
    next
      case False
      then have b: "objs b ref' = Some t" using t(1) by (simp add: st)
      then have "\<not> (tc' = tc \<and> sessionID t = sessionID s)" using one [OF b t(2)] t(3) False by blast
      then show ?thesis using D(4) [OF b t(2,3)] by (auto simp: st)
    qed
  qed
qed

lemma reg_inv_reattach:
  "reg_inv ta b \<Longrightarrow> sessions b (ta tc, sid) = Some ref \<Longrightarrow> reg_inv ta (fst (reattach e tc ref off b))"
  unfolding reattach_def by (intro reg_inv_run reg_inv_bind lawful_attach)

definition add_session :: "nat \<Rightarrow> session \<Rightarrow> broker \<Rightarrow> broker" where
  "add_session ref s b =
     b\<lparr>objs := (objs b)(ref \<mapsto> s), nextObj := Suc ref, sessions := (sessions b)((actorID s, sessionID s) \<mapsto> ref)\<rparr>"

lemma reg_inv_add:
  assumes inv: "reg_inv ta b" and "sessions b (actorID s, sessionID s) = None" and "\<not> dead s" and "tconn s = None"
    and "allowed b (target s)"
  shows "reg_inv ta (add_session (nextObj b) s b)"
proof -
  note D = reg_invD [OF inv]
  have al: "allowed (add_session (nextObj b) s b) = allowed b" by (rule allowed_cong) (simp add: add_session_def)
  have fresh: "objs b (nextObj b) = None" using D(3) by (metis less_irrefl not_None_eq)
  show ?thesis
  proof (rule reg_invI)
    fix k ref
    assume "sessions (add_session (nextObj b) s b) k = Some ref"
    then show "\<exists>s'. objs (add_session (nextObj b) s b) ref = Some s' \<and> \<not> dead s' \<and> k = (actorID s', sessionID s')"
      using D(1) [of k ref] fresh assms(3) by (auto simp: add_session_def split: if_splits)
  next
    fix ref t
    assume "objs (add_session (nextObj b) s b) ref = Some t" "\<not> dead t"
    then show "sessions (add_session (nextObj b) s b) (actorID t, sessionID t) = Some ref"
      using D(2) [of ref t] assms(2) by (auto simp: add_session_def split: if_splits)
  next
    fix ref t
    assume "objs (add_session (nextObj b) s b) ref = Some t"
    then show "ref < nextObj (add_session (nextObj b) s b) \<and> allowed (add_session (nextObj b) s b) (target t)"
      using D(3) [of ref t] assms(5) unfolding al by (auto simp: add_session_def split: if_splits)
  next
    fix ref t tc
    assume "objs (add_session (nextObj b) s b) ref = Some t" "\<not> dead t" "tconn t = Some tc"
    then show "registered (add_session (nextObj b) s b) tc (sessionID t) = Some ref \<and> ta tc = actorID t"
      using D(4) [of ref t tc] assms(4) by (auto simp: add_session_def split: if_splits)
  qed
qed

lemma openSession_new:
  assumes "allowed b (Target f)" and "sessions b (actor, SessionID f) = None"
  shows "openSession e actor tc f b =
    (bindTo tc (nextObj b) (add_session (nextObj b)
       (newSession (SessionBufferBytes (cfg b)) (clock e) actor (SessionID f) (Target f)) b), [StartDial (nextObj b)])"
  using assms by (simp add: openSession_def lookup_def add_session_def newSession_def Let_def)

lemma reg_inv_open:
  assumes inv: "reg_inv ta b"
  shows "reg_inv ta (fst (openSession e (ta tc) tc f b))"
proof (cases "allowed b (Target f)")
  case False
  then show ?thesis using inv by (simp add: openSession_def)
next
  case ok: True
  show ?thesis
  proof (cases "sessions b (ta tc, SessionID f)")
    case None
    let ?s = "newSession (SessionBufferBytes (cfg b)) (clock e) (ta tc) (SessionID f) (Target f)"
    have "reg_inv ta (add_session (nextObj b) ?s b)"
      by (rule reg_inv_add [OF inv]) (use None ok in \<open>simp_all add: newSession_def\<close>)
    moreover have "sessions (add_session (nextObj b) ?s b) (ta tc, SessionID f) = Some (nextObj b)"
      by (simp add: add_session_def newSession_def)
    ultimately show ?thesis using reg_inv_bind openSession_new [OF ok None, of e tc] by simp
  next
    case (Some ref)
    then show ?thesis using ok inv reg_inv_reattach by (simp add: openSession_def lookup_def)
  qed
qed

lemma reg_inv_attach:
  assumes inv: "reg_inv ta b"
  shows "reg_inv ta (fst (attachSession e (ta tc) tc f b))"
  using reg_inv_open [OF inv] reg_inv_reattach [OF inv] inv
  by (auto simp: attachSession_def lookup_def split: option.splits intro!: reg_inv_run lawful_attach)

lemma reg_inv_on_session: "reg_inv ta b \<Longrightarrow> (\<And>s. lawful s (m s)) \<Longrightarrow> reg_inv ta (fst (on_session actor sid m b))"
  by (simp add: on_session_def reg_inv_run split: option.splits)

lemma reg_inv_handleFrame: "reg_inv ta b \<Longrightarrow> reg_inv ta (fst (handleFrame e (ta tc) tc f b))"
  by (simp add: handleFrame_def Let_def reg_inv_open reg_inv_attach reg_inv_on_session lawful_methods lawful_ack)

subsection \<open>The end of a tunnel\<close>

lemma RemoveSession_detach: "RemoveSession \<notin> set (snd (detach tc s))"
  by (simp add: detach_def Let_def)

lemma detach_twice:
  "fst (detach tc (fst (detach tc s))) = fst (detach tc s)" "\<not> wakes (snd (detach tc (fst (detach tc s))))"
  by (simp_all add: detach_def Let_def)

lemma wakes_detach_actor:
  "{a. \<exists>w. WakeActor a w \<in> set (snd (detach tc s))} = (if wakes (snd (detach tc s)) then {actorID s} else {})"
  by (auto simp: detach_def Let_def)

lemma detachEach_objs:
  "objs (fst (detachEach tc refs b)) =
     (\<lambda>ref. if ref \<in> set refs then map_option (\<lambda>s. fst (detach tc s)) (objs b ref) else objs b ref)"
proof (induction refs arbitrary: b)
  case (Cons ref refs)
  show ?case
  proof (cases "objs b ref")
    case None
    then show ?thesis using Cons.IH [of b] by (simp add: run_session_none fun_eq_iff)
  next
    case (Some s)
    show ?thesis
      using Cons.IH [of "fst (run_session ref (detach tc) b)"]
      by (simp add: run_session_state(1) [OF Some] fun_eq_iff Some detach_twice)
  qed
qed (simp add: fun_eq_iff)

lemma detachEach_rest:
  "sessions (fst (detachEach tc refs b)) = sessions b \<and> nextObj (fst (detachEach tc refs b)) = nextObj b \<and>
   cfg (fst (detachEach tc refs b)) = cfg b \<and> registered (fst (detachEach tc refs b)) = registered b"
proof (induction refs arbitrary: b)
  case (Cons ref refs)
  show ?case
    using Cons.IH [of "fst (run_session ref (detach tc) b)"]
    by (cases "objs b ref") (simp_all add: run_session_none run_session_state RemoveSession_detach)
qed simp

lemma detachEach_wakes:
  assumes "ref \<in> set refs" and "objs b ref = Some s" and "wakes (snd (detach tc s))"
  shows "actorID s \<in> inflight (resumer_st (fst (detachEach tc refs b)))"
  using assms
proof (induction refs arbitrary: b)
  case (Cons r refs)
  have mono: "inflight (resumer_st b) \<subseteq> inflight (resumer_st (fst (detachEach tc refs b)))" for b
  proof (induction refs arbitrary: b)
    case (Cons r refs)
    have "inflight (resumer_st b) \<subseteq> inflight (resumer_st (fst (run_session r (detach tc) b)))"
      by (cases "objs b r") (auto simp: run_session_none run_session_state)
    then show ?case using Cons.IH [of "fst (run_session r (detach tc) b)"] by auto
  qed simp
  show ?case
  proof (cases "r = ref")
    case True
    have "actorID s \<in> inflight (resumer_st (fst (run_session ref (detach tc) b)))"
      using Cons.prems(3) by (simp add: run_session_state [OF Cons.prems(2)] wakes_detach_actor)
    then show ?thesis using True mono by auto
  next
    case False
    then have "objs (fst (run_session r (detach tc) b)) ref = Some s"
      using Cons.prems(2) by (cases "objs b r") (simp_all add: run_session_none run_session_state)
    then show ?thesis using Cons.IH Cons.prems(1,3) False by simp
  qed
qed simp

lemma detachAll_objs:
  assumes "dom (registered b tc) \<subseteq> set order"
  shows "objs (fst (detachAll tc order b)) =
    (\<lambda>ref. if ref \<in> ran (registered b tc) then map_option (\<lambda>s. fst (detach tc s)) (objs b ref) else objs b ref)"
proof -
  have "set (List.map_filter (registered b tc) order) = ran (registered b tc)"
  proof
    show "ran (registered b tc) \<subseteq> set (List.map_filter (registered b tc) order)"
    proof
      fix ref
      assume "ref \<in> ran (registered b tc)"
      then obtain sid where "registered b tc sid = Some ref" by (auto simp: ran_def)
      then show "ref \<in> set (List.map_filter (registered b tc) order)"
        using assms by (force simp: map_filter_def)
    qed
  qed (auto simp: map_filter_def ran_def)
  then show ?thesis by (simp add: detachAll_def Let_def detachEach_objs fun_eq_iff)
qed

lemma detachAll_rest:
  "sessions (fst (detachAll tc order b)) = sessions b" "nextObj (fst (detachAll tc order b)) = nextObj b"
  "cfg (fst (detachAll tc order b)) = cfg b"
  "registered (fst (detachAll tc order b)) = (registered b)(tc := Map.empty)"
  by (simp_all add: detachAll_def Let_def detachEach_rest)

lemma detach_simps [simp]:
  "dead (fst (detach tc s)) = dead s" "actorID (fst (detach tc s)) = actorID s"
  "sessionID (fst (detach tc s)) = sessionID s" "target (fst (detach tc s)) = target s"
  "tconn (fst (detach tc s)) = (if tconn s = Some tc then None else tconn s)"
  by (simp_all add: detach_def Let_def)

lemma reg_inv_detachAll:
  assumes inv: "reg_inv ta b" and order: "dom (registered b tc) \<subseteq> set order"
  shows "reg_inv ta (fst (detachAll tc order b))"
proof -
  note D = reg_invD [OF inv] and o = detachAll_objs [OF order] and r = detachAll_rest [of tc order b]
  have al: "allowed (fst (detachAll tc order b)) = allowed b" using r(3) by (rule allowed_cong)
  have obj: "\<exists>s. objs b ref = Some s \<and> dead t = dead s \<and> actorID t = actorID s \<and> sessionID t = sessionID s \<and>
      target t = target s \<and> (\<not> dead s \<longrightarrow> tconn t = (if tconn s = Some tc then None else tconn s))"
    if t: "objs (fst (detachAll tc order b)) ref = Some t" for ref t
  proof (cases "ref \<in> ran (registered b tc)")
    case True
    then show ?thesis using t by (auto simp: o)
  next
    case False
    then have s: "objs b ref = Some t" using t by (simp add: o)
    have "tconn t \<noteq> Some tc" if "\<not> dead t" using D(4) [OF s that, of tc] False by (auto simp: ran_def)
    then show ?thesis using s by auto
  qed
  show ?thesis
  proof (rule reg_invI)
    fix k ref
    assume "sessions (fst (detachAll tc order b)) k = Some ref"
    then show "\<exists>s. objs (fst (detachAll tc order b)) ref = Some s \<and> \<not> dead s \<and> k = (actorID s, sessionID s)"
      using D(1) [of k ref] by (auto simp: r o)
  next
    fix ref t
    assume "objs (fst (detachAll tc order b)) ref = Some t" "\<not> dead t"
    then show "sessions (fst (detachAll tc order b)) (actorID t, sessionID t) = Some ref"
      using obj [of ref t] D(2) [of ref] by (auto simp: r)
  next
    fix ref t
    assume "objs (fst (detachAll tc order b)) ref = Some t"
    then show "ref < nextObj (fst (detachAll tc order b)) \<and> allowed (fst (detachAll tc order b)) (target t)"
      using obj [of ref t] D(3) [of ref] unfolding al by (auto simp: r)
  next
    fix ref t tc'
    assume t: "objs (fst (detachAll tc order b)) ref = Some t" "\<not> dead t" "tconn t = Some tc'"
    obtain s where s: "objs b ref = Some s" "\<not> dead s" "tconn s = Some tc'" "tc' \<noteq> tc"
      "actorID t = actorID s" "sessionID t = sessionID s"
      using obj [OF t(1)] t(2,3) by (metis option.distinct(1) option.inject)
    then show "registered (fst (detachAll tc order b)) tc' (sessionID t) = Some ref \<and> ta tc' = actorID t"
      using D(4) [OF s(1,2,3)] by (simp add: r)
  qed
qed

subsection \<open>Reachable brokers\<close>

inductive breach :: "(nat \<Rightarrow> string) \<Rightarrow> Config \<Rightarrow> broker \<Rightarrow> bool" for ta c where
  start: "breach ta c (New c)"
| happens:
    "breach ta c b \<Longrightarrow>
     (\<And>tc order. ev = BTunnelEnd tc order \<Longrightarrow> dom (registered b tc) \<subseteq> set order) \<Longrightarrow>
     breach ta c (fst (bstep ta ev b))"

lemma breach_reg_inv: "breach ta c b \<Longrightarrow> reg_inv ta b"
proof (induction rule: breach.induct)
  case start
  show ?case by (rule reg_invI) (simp_all add: New_def)
next
  case (happens b ev)
  show ?case
  proof (cases ev)
    case (BResumeDone actor)
    then show ?thesis using happens.IH by (simp add: reg_inv_def allowed_def)
  qed (use happens reg_inv_detachAll in
      \<open>simp_all add: reg_inv_handleFrame reg_inv_run lawful_methods del: sess_step.simps(7)\<close>)
qed

section \<open>Frames reach only their own session\<close>

lemma run_session_other: "ref' \<noteq> ref \<Longrightarrow> objs (fst (run_session ref m b)) ref' = objs b ref'"
  by (cases "objs b ref") (simp_all add: run_session_none run_session_state)

lemma bindTo_other: "ref' \<noteq> ref \<Longrightarrow> objs (bindTo tc ref b) ref' = objs b ref'"
  by (cases "objs b ref") (simp_all add: bindTo_def register_def)

lemma reattach_other: "ref' \<noteq> ref \<Longrightarrow> objs (fst (reattach e tc ref off b)) ref' = objs b ref'"
  by (simp add: reattach_def run_session_other bindTo_other)

lemma openSession_other:
  assumes "sessions b (actor, SessionID f) \<noteq> Some ref'" and "ref' < nextObj b"
  shows "objs (fst (openSession e actor tc f b)) ref' = objs b ref'"
proof (cases "sessions b (actor, SessionID f)")
  case None
  then show ?thesis
    using assms(2) openSession_new [of b f actor e tc]
    by (cases "allowed b (Target f)") (simp_all add: bindTo_other add_session_def, simp add: openSession_def)
next
  case (Some ref)
  then show ?thesis using assms by (simp add: openSession_def lookup_def reattach_other)
qed

lemma openSession_registers:
  assumes "sessions b (actor, SessionID f) = None"
  shows "sessions (fst (openSession e actor tc f b)) (actor, SessionID f) =
    (if allowed b (Target f) then Some (nextObj b) else None)"
  using assms openSession_new [OF _ assms, of e tc]
  by (auto simp: bindTo_state(2) [of _ _ "newSession (SessionBufferBytes (cfg b)) (clock e) actor (SessionID f) (Target f)"]
      add_session_def newSession_def) (simp add: openSession_def)

lemma handleFrame_other:
  assumes "sessions b (actor, SessionID f) \<noteq> Some ref'" and "ref' < nextObj b"
  shows "objs (fst (handleFrame e actor tc f b)) ref' = objs b ref'"
proof -
  let ?o = "zero_frame\<lparr>ftype := TypeOpen, SessionID := SessionID f, Target := Target f\<rparr>"
  have att: "objs (fst (attachSession e' actor tc f b)) ref' = objs b ref'" for e'
  proof (cases "sessions b (actor, SessionID f)")
    case None
    have "sessions (fst (openSession e' actor tc ?o b)) (actor, SessionID f) \<in> {None, Some (nextObj b)}"
      using openSession_registers [of b actor ?o e' tc] None by simp
    then show ?thesis
      using None assms openSession_other [of b actor ?o ref' e' tc]
      by (auto simp: attachSession_def lookup_def run_session_other split: option.splits)
  next
    case (Some ref)
    then show ?thesis using assms by (simp add: attachSession_def lookup_def reattach_other)
  qed
  show ?thesis
    using att assms openSession_other [OF assms]
    by (auto simp: handleFrame_def Let_def on_session_def lookup_def run_session_other split: option.splits)
qed

section \<open>Properties\<close>

text \<open>
  C6. The registry is exact in every reachable broker: it holds exactly the sessions that are
  not dead, each under its own (actor, session) key, every session's target was admitted by
  the policy, and a live session that is bound to a tunnel is registered on it and belongs to
  the actor that tunnel serves. In particular a teardown never removes another session's entry.
\<close>

theorem registry_exact:
  assumes "breach ta c b"
  shows "(sessions b k = Some ref \<longleftrightarrow> (\<exists>s. objs b ref = Some s \<and> \<not> dead s \<and> k = (actorID s, sessionID s))) \<and>
    (objs b ref = Some s \<longrightarrow> allowed b (target s) \<and>
       (\<not> dead s \<and> tconn s = Some tc \<longrightarrow> registered b tc (sessionID s) = Some ref \<and> ta tc = actorID s))"
  using reg_invD [OF breach_reg_inv [OF assms]] by metis

text \<open>A broker that admits one target, after one OPEN.\<close>

definition demo_cfg :: Config where
  "demo_cfg = \<lparr>SessionBufferBytes = 0, cfgMaxSuspendWatchdog = 0, DialTimeout = 0, TunnelReadTimeout = 0,
     AllowTarget = Some (\<lambda>t. t = ''x:80'')\<rparr>"

definition demo_broker :: broker where
  "demo_broker = fst (bstep (\<lambda>_. ''ns/a'') (BFrame 7 fair_env
     (zero_frame\<lparr>ftype := TypeOpen, SessionID := 1, Target := ''x:80''\<rparr>)) (New demo_cfg))"

lemma breach_demo: "breach (\<lambda>_. ''ns/a'') demo_cfg demo_broker"
  unfolding demo_broker_def by (rule breach.happens [OF breach.start]) simp

lemmas demo_defs = demo_broker_def demo_cfg_def New_def withDefaults_def handleFrame_def at_cfg_def openSession_def
  allowed_def lookup_def bindTo_def register_def bind_def newSession_def zero_frame_def fair_env_def

lemma demo_broker_state:
  "sessions demo_broker = [(''ns/a'', 1) \<mapsto> 0]" "objs demo_broker 0 =
     Some ((newSession 4194304 0 ''ns/a'' 1 ''x:80'')\<lparr>tconn := Some 7\<rparr>)"
  "registered demo_broker 7 = [1 \<mapsto> 0]" "cfg demo_broker = withDefaults demo_cfg"
  by (simp_all add: demo_defs)

theorem registry_exact_witness:
  "sessions demo_broker (''ns/a'', 1) = Some 0 \<and> (\<exists>s. objs demo_broker 0 = Some s \<and> \<not> dead s \<and> sessionID s = 1)"
  using registry_exact [OF breach_demo, of "(''ns/a'', 1)" 0] by (auto simp: demo_broker_state)

text \<open>
  C27. Sessions are isolated: a frame on a tunnel of one actor changes at most the session
  it names, of that actor. Every other live session is left exactly as it was.
\<close>

theorem frames_isolated:
  assumes "breach ta c b" and "objs b ref = Some s" and "\<not> dead s"
    and "(actorID s, sessionID s) \<noteq> (ta tc, SessionID f)"
  shows "objs (fst (bstep ta (BFrame tc e f) b)) ref = Some s"
proof -
  note D = reg_invD [OF breach_reg_inv [OF assms(1)]]
  have "sessions b (ta tc, SessionID f) \<noteq> Some ref" using D(1) [of "(ta tc, SessionID f)" ref] assms(2,4) by auto
  then show ?thesis using handleFrame_other D(3) [OF assms(2)] assms(2) by simp
qed

theorem frames_isolated_witness:
  "objs (fst (bstep (\<lambda>tc. ''ns/a'') (BFrame 7 fair_env (close_frame 2 ''x'')) demo_broker)) 0 = objs demo_broker 0"
  using frames_isolated [OF breach_demo demo_broker_state(2),
      where tc = 7 and f = "close_frame 2 ''x''" and e = fair_env]
  by (simp add: newSession_def close_frame_def zero_frame_def demo_broker_state)

text \<open>
  A frame for a known session runs exactly the session's handler for it (an admitted
  duplicate OPEN is an ATTACH at offset zero), and the registry entry stays unless the session
  died: the broker refines its sessions.
\<close>

lemma handleFrame_runs_session:
  assumes "breach ta c b" and "sessions b (ta tc, SessionID f) = Some ref" and "objs b ref = Some s"
    and "ftype f \<in> {TypeOpen, TypeAttach, TypeData, TypeAck, TypeClose}" and "ftype f = TypeOpen \<longrightarrow> allowed b (Target f)"
  shows "objs (fst (bstep ta (BFrame tc e f) b)) ref = Some (fst (sess_frame (at_cfg b e) tc f s)) \<and>
    sessions (fst (bstep ta (BFrame tc e f) b)) (ta tc, SessionID f) =
      (if dead (fst (sess_frame (at_cfg b e) tc f s)) then None else Some ref)"
proof -
  have inv: "reg_inv ta b" by (rule breach_reg_inv [OF assms(1)])
  obtain "\<not> dead s" and key: "ta tc = actorID s" "SessionID f = sessionID s"
    using reg_invD(1) [OF inv assms(2)] assms(3) by auto
  have run: "objs (fst (run_session ref m b')) ref = Some (fst (m s')) \<and>
      sessions (fst (run_session ref m b')) (actorID s, sessionID s) = (if dead (fst (m s')) then None else Some ref)"
    if "objs b' ref = Some s'" "sessions b' = sessions b" "lawful s' (m s')" "actorID s' = actorID s"
      "sessionID s' = sessionID s" "\<not> dead s'" for m b' s'
    using that run_session_state(1,5) [OF that(1), of m] assms(2) key by (auto simp: lawful_def)
  have bnd: "objs (bindTo tc ref b) ref = Some (bind tc s)" "sessions (bindTo tc ref b) = sessions b"
    using bindTo_state [OF assms(3)] by simp_all
  have keep: "actorID (bind tc s) = actorID s" "sessionID (bind tc s) = sessionID s" "dead (bind tc s) = dead s"
    by (simp_all add: bind_def)
  show ?thesis
    using assms(2-5) \<open>\<not> dead s\<close> run [OF bnd, where m = "onSidecarAttach (at_cfg b e) off" for off] run [OF assms(3) refl] keep
    by (auto simp: handleFrame_def Let_def openSession_def attachSession_def on_session_def lookup_def reattach_def
        sess_frame_def lawful_methods lawful_ack key)
qed

text \<open>
  C16. The end of a tunnel detaches and keeps. When a tunnel ends, no live session stays bound
  to it; every session keeps its streams (buffers, counters, upstream connection) and its
  registry entry; and if a session that was bound there has an outstanding request with
  something to deliver, a resume of its actor is in flight.
\<close>

theorem tunnel_end_retains_sessions:
  assumes "breach ta c b" and "dom (registered b tc) \<subseteq> set order" and "objs b ref = Some s" and "\<not> dead s"
  shows "\<exists>s'. objs (fst (bstep ta (BTunnelEnd tc order) b)) ref = Some s' \<and> tconn s' \<noteq> Some tc \<and> core s' = core s \<and>
    \<not> dead s' \<and> sessions (fst (bstep ta (BTunnelEnd tc order) b)) (actorID s, sessionID s) = Some ref \<and>
    (tconn s = Some tc \<and> needs_wake s' \<longrightarrow>
       actorID s \<in> inflight (resumer_st (fst (bstep ta (BTunnelEnd tc order) b))))"
proof -
  note D = reg_invD [OF breach_reg_inv [OF assms(1)]]
  have reg: "sessions b (actorID s, sessionID s) = Some ref" by (rule D(2) [OF assms(3,4)])
  show ?thesis
  proof (cases "ref \<in> ran (registered b tc)")
    case True
    then obtain sid where sid: "registered b tc sid = Some ref" by (auto simp: ran_def)
    then have "ref \<in> set (List.map_filter (registered b tc) order)"
      using assms(2) by (force simp: map_filter_def)
    then have "actorID s \<in> inflight (resumer_st (fst (detachAll tc order b)))"
      if "tconn s = Some tc" "needs_wake (fst (detach tc s))"
      using that needs_wake_detach [of tc s] needs_wake_bound [of s] assms(3)
      by (auto simp: detachAll_def Let_def intro!: detachEach_wakes)
    then show ?thesis
      using True assms(3,4) reg by (simp add: detachAll_objs [OF assms(2)] detachAll_rest)
  next
    case False
    then have "tconn s \<noteq> Some tc" using D(4) [OF assms(3,4), of tc] by (auto simp: ran_def)
    then show ?thesis using False assms(3,4) reg by (simp add: detachAll_objs [OF assms(2)] detachAll_rest)
  qed
qed

theorem tunnel_end_retains_sessions_witness:
  "\<exists>s'. objs (fst (bstep (\<lambda>_. ''ns/a'') (BTunnelEnd 7 [1]) demo_broker)) 0 = Some s' \<and> tconn s' \<noteq> Some 7 \<and>
     sessions (fst (bstep (\<lambda>_. ''ns/a'') (BTunnelEnd 7 [1]) demo_broker)) (''ns/a'', 1) = Some 0"
  using tunnel_end_retains_sessions [OF breach_demo _ demo_broker_state(2), where tc = 7 and order = "[1]"]
  by (auto simp: demo_broker_state newSession_def)

text \<open>
  An ATTACH for a session the broker does not have: when the sidecar has delivered
  nothing and the target is named and admitted, the session is recreated, dialled, bound to
  the tunnel, and answered ATTACH_OK at zero so that the sidecar replays its request; when the
  target is refused, the answer is a CLOSE and nothing is created; otherwise the stream is
  lost and the answer is a CLOSE.
\<close>

lemma attach_unknown_session:
  assumes "lookup actor (SessionID f) b = None" and "\<forall>f. tun_ok e f"
  shows "attachSession e actor tc f b =
    (if Offset f \<noteq> 0 \<or> Target f = [] then (b, [ConnWrite tc (close_frame (SessionID f) ''session lost'')])
     else if \<not> allowed b (Target f) then (b, [ConnWrite tc (close_frame (SessionID f) ''target not allowed'')])
     else
       (let ref = nextObj b;
            s = newSession (SessionBufferBytes (cfg b)) (clock e) actor (SessionID f) (Target f)
        in (bindTo tc ref (add_session ref s b),
            [StartDial ref, SessionEffect ref (TunnelWrite tc (attachok_frame (SessionID f) 0))])))"
proof -
  have w: "tc_write e (close_frame (SessionID f) ''session lost'')" "tc_write e (close_frame (SessionID f) ''target not allowed'')"
    using assms(2) by (simp_all add: tc_write_def close_frame_def handler_defs)
  show ?thesis
  proof (cases "Offset f = 0 \<and> Target f \<noteq> [] \<and> allowed b (Target f)")
    case True
    let ?ref = "nextObj b" and ?s = "newSession (SessionBufferBytes (cfg b)) (clock e) actor (SessionID f) (Target f)"
    let ?b = "bindTo tc ?ref (add_session ?ref ?s b)"
    have o: "objs (add_session ?ref ?s b) ?ref = Some ?s" by (simp add: add_session_def)
    have "onSidecarAttach e 0 (bind tc ?s) = (bind tc ?s, [TunnelWrite tc (attachok_frame (SessionID f) 0)])"
      using onSidecarAttach_exact [of ?s "[]" 0 e tc] assms(2)
      by (simp add: newSession_def)
    then have "run_session ?ref (onSidecarAttach e 0) ?b = (?b, [SessionEffect ?ref (TunnelWrite tc (attachok_frame (SessionID f) 0))])"
      by (simp add: run_session_def bindTo_state [OF o] bthen_def)
    moreover have "sessions ?b (actor, SessionID f) = Some ?ref"
      by (simp add: bindTo_state [OF o]) (simp add: add_session_def newSession_def)
    ultimately show ?thesis
      using True assms(1) openSession_new [of b "zero_frame\<lparr>ftype := TypeOpen, SessionID := SessionID f, Target := Target f\<rparr>" actor e tc]
      by (simp add: attachSession_def lookup_def bthen_def Let_def)
  next
    case False
    then show ?thesis
      using assms(1) w by (auto simp: attachSession_def openSession_def lookup_def connWrite_def bthen_def)
  qed
qed

lemma breach_serveLoop: "breach ta c b \<Longrightarrow> breach ta c (fst (serveLoop (ta tc) tc fs b))"
proof (induction fs arbitrary: b)
  case (Cons ef fs)
  obtain e f where ef: "ef = (e, f)" by fastforce
  have "breach ta c (fst (bstep ta (BFrame tc e f) b))" by (rule breach.happens [OF Cons.prems]) simp
  then show ?case using Cons.IH ef by simp
qed simp



end
