(* ===== verification/Sidecar_Client.thy ===== *)
theory Sidecar_Client
  imports Sidecar_Session
begin

text \<open>
  The sidecar's tunnel client, \<^verbatim>\<open>internal/sidecar/client.go\<close>: the sessions, the current
  tunnel connection, re-attaching after a reconnect, dispatch of incoming frames, and the PING
  loop that detects a dead tunnel.
\<close>

section \<open>State\<close>

record ClientConfig =
  SessionBuffer :: int
  PingInterval :: int
  PongTimeout :: int
  DialBackoff :: int

text \<open>
  \<open>cobjs\<close> are the session objects by id (the proxy keeps its pointer after a session left the
  map), \<open>csessions\<close> the ids in the \<^verbatim>\<open>sessions\<close> map, \<open>conn\<close> the current tunnel.
  Times are nanoseconds.
\<close>

record client =
  ccfg :: ClientConfig
  nextID :: u64
  conn :: "nat option"
  cobjs :: "u64 \<Rightarrow> csession option"
  csessions :: "u64 set"
  lastPong :: int

text \<open>
  The outside world during one call: the time, whether the tunnel socket takes a frame, and
  what the agent connection does with a write.
\<close>

record cenv =
  cclock :: int
  ctun_ok :: "frame \<Rightarrow> bool"
  agent_take :: "nat option"

datatype cleffect = ClWrite nat frame | ClSession u64 ceffect | ClCloseTunnel nat

type_synonym clhandler = "client \<Rightarrow> client \<times> cleffect list"

definition NewClient :: "ClientConfig \<Rightarrow> client" where
  "NewClient c =
     \<lparr>ccfg = c\<lparr>SessionBuffer := (if SessionBuffer c = 0 then 4 * 1024 * 1024 else SessionBuffer c),
              PingInterval := (if PingInterval c = 0 then 1000000000 else PingInterval c),
              PongTimeout := (if PongTimeout c = 0 then 3000000000 else PongTimeout c),
              DialBackoff := (if DialBackoff c = 0 then 500000000 else DialBackoff c)\<rparr>,
      nextID = 0, conn = None, cobjs = Map.empty, csessions = {}, lastPong = 0\<rparr>"

section \<open>Sending and session callbacks\<close>

text \<open>\<^verbatim>\<open>WriteFrame\<close> on the tunnel \<open>tc\<close>, and whether it succeeded.\<close>

definition tun_write :: "cenv \<Rightarrow> nat \<Rightarrow> frame \<Rightarrow> cleffect list \<times> bool" where
  "tun_write e tc f = (if encodable f \<and> ctun_ok e f then ([ClWrite tc f], True) else ([], False))"

definition send :: "cenv \<Rightarrow> frame \<Rightarrow> client \<Rightarrow> cleffect list" where
  "send e f c = (case conn c of None \<Rightarrow> [] | Some tc \<Rightarrow> fst (tun_write e tc f))"

definition removeClientSession :: "u64 \<Rightarrow> client \<Rightarrow> client" where
  "removeClientSession i c = c\<lparr>csessions := csessions c - {i}\<rparr>"

fun ccallback :: "cenv \<Rightarrow> u64 \<Rightarrow> ceffect \<Rightarrow> clhandler" where
  "ccallback e i (Send f) c = (c, send e f c)"
| "ccallback e i RemoveClientSession c = (removeClientSession i c, [ClSession i RemoveClientSession])"
| "ccallback e i ef c = (c, [ClSession i ef])"

fun ccallbacks :: "cenv \<Rightarrow> u64 \<Rightarrow> ceffect list \<Rightarrow> clhandler" where
  "ccallbacks e i [] c = (c, [])"
| "ccallbacks e i (ef # es) c =
     (let (c1, o1) = ccallback e i ef c; (c2, o2) = ccallbacks e i es c1 in (c2, o1 @ o2))"

definition run_csession :: "cenv \<Rightarrow> u64 \<Rightarrow> chandler \<Rightarrow> clhandler" where
  "run_csession e i m c =
     (case cobjs c i of
        None \<Rightarrow> (c, [])
      | Some s \<Rightarrow> (let (s', es) = m s in ccallbacks e i es (c\<lparr>cobjs := (cobjs c)(i \<mapsto> s')\<rparr>)))"

section \<open>Operations\<close>

definition OpenSession :: "cenv \<Rightarrow> string \<Rightarrow> bool \<Rightarrow> client \<Rightarrow> client \<times> cleffect list \<times> u64" where
  "OpenSession e tgt halfCloses c =
     (let i = nextID c + 1;
          s = newClientSession (SessionBuffer (ccfg c)) i tgt halfCloses;
          c1 = c\<lparr>nextID := i, cobjs := (cobjs c)(i \<mapsto> s), csessions := insert i (csessions c)\<rparr>
      in (c1, send e (zero_frame\<lparr>ftype := TypeOpen, SessionID := i, Target := tgt\<rparr>) c1, i))"

text \<open>One iteration of \<^verbatim>\<open>WriteUp\<close>'s loop, and \<^verbatim>\<open>CloseUp\<close>.\<close>

definition WriteUpTurn :: "cenv \<Rightarrow> u64 \<Rightarrow> bytes \<Rightarrow> client \<Rightarrow> client \<times> cleffect list \<times> write_result" where
  "WriteUpTurn e i p c =
     (case cobjs c i of
        None \<Rightarrow> (c, [], WClosed)
      | Some s \<Rightarrow>
          (case writeUpTurn p s of (s', es, r) \<Rightarrow>
             (case ccallbacks e i es (c\<lparr>cobjs := (cobjs c)(i \<mapsto> s')\<rparr>) of (c', ws) \<Rightarrow> (c', ws, r))))"

definition CloseUp :: "cenv \<Rightarrow> u64 \<Rightarrow> string \<Rightarrow> clhandler" where
  "CloseUp e i reason = run_csession e i (closeUp reason)"

text \<open>
  The first part of \<^verbatim>\<open>connectOnce\<close>, once the dial of tunnel \<open>tc\<close> has succeeded: HELLO,
  publish the connection, re-attach every live session. \<open>order\<close> are the ids of the map in
  iteration order, \<open>actor\<close> the identity read at this moment. A failed HELLO ends the attempt.
\<close>

fun attachAll :: "cenv \<Rightarrow> nat \<Rightarrow> u64 list \<Rightarrow> client \<Rightarrow> cleffect list" where
  "attachAll e tc [] c = []"
| "attachAll e tc (i # is) c =
     (case cobjs c i of
        None \<Rightarrow> attachAll e tc is c
      | Some s \<Rightarrow> fst (tun_write e tc (attachFrame s)) @ attachAll e tc is c)"

definition connectStart :: "cenv \<Rightarrow> nat \<Rightarrow> string \<Rightarrow> u64 list \<Rightarrow> client \<Rightarrow> client \<times> cleffect list \<times> bool" where
  "connectStart e tc actor order c =
     (let (ws, ok) = tun_write e tc (zero_frame\<lparr>ftype := TypeHello, ActorID := actor\<rparr>)
      in if \<not> ok then (c, ws @ [ClCloseTunnel tc], False)
         else (let c1 = c\<lparr>conn := Some tc, lastPong := cclock e\<rparr>
               in (c1, ws @ attachAll e tc order c1, True)))"

text \<open>The last part of \<^verbatim>\<open>connectOnce\<close>, when \<^verbatim>\<open>readLoop\<close> has returned.\<close>

definition connectEnd :: "nat \<Rightarrow> clhandler" where
  "connectEnd tc c = (c\<lparr>conn := (if conn c = Some tc then None else conn c)\<rparr>, [ClCloseTunnel tc])"

definition on_csession :: "cenv \<Rightarrow> u64 \<Rightarrow> chandler \<Rightarrow> clhandler" where
  "on_csession e i m c = (if i \<in> csessions c then run_csession e i m c else (c, []))"

text \<open>One turn of \<^verbatim>\<open>readLoop\<close> on tunnel \<open>tc\<close>.\<close>

definition dispatch :: "cenv \<Rightarrow> nat \<Rightarrow> frame \<Rightarrow> clhandler" where
  "dispatch e tc f c =
     (if ftype f = TypePong then (c\<lparr>lastPong := cclock e\<rparr>, [])
      else if ftype f = TypePing then (c, fst (tun_write e tc (zero_frame\<lparr>ftype := TypePong, Nonce := Nonce f\<rparr>)))
      else if ftype f = TypeAttachOK then on_csession e (SessionID f) (onAttachOK (Offset f)) c
      else if ftype f = TypeData then on_csession e (SessionID f) (deliverDown (agent_take e) (Offset f) (Payload f)) c
      else if ftype f = TypeAck then on_csession e (SessionID f) (\<lambda>s. (onUpstreamAck (Offset f) s, [])) c
      else if ftype f = TypeClose then on_csession e (SessionID f) (onClose (Dir f)) c
      else (c, []))"

text \<open>
  One tick of \<^verbatim>\<open>pingLoop\<close>: the nonce of the last PING, and whether the loop goes on; when it
  does not, the tunnel has been closed, which ends \<^verbatim>\<open>readLoop\<close>.
\<close>

definition pingTick :: "cenv \<Rightarrow> nat \<Rightarrow> u64 \<Rightarrow> client \<Rightarrow> cleffect list \<times> u64 \<times> bool" where
  "pingTick e tc nonce c =
     (if cclock e - lastPong c > PongTimeout (ccfg c) then ([ClCloseTunnel tc], nonce, False)
      else (let n = nonce + 1; (ws, ok) = tun_write e tc (zero_frame\<lparr>ftype := TypePing, Nonce := n\<rparr>)
            in if ok then (ws, n, True) else (ws @ [ClCloseTunnel tc], n, False)))"

text \<open>The loop over the ticks while nothing arrives, and the time at which it closes the tunnel.\<close>

fun pingLoop :: "nat \<Rightarrow> u64 \<Rightarrow> cenv list \<Rightarrow> client \<Rightarrow> int option" where
  "pingLoop tc nonce [] c = None"
| "pingLoop tc nonce (e # es) c =
     (case pingTick e tc nonce c of (ws, n, go) \<Rightarrow> if go then pingLoop tc n es c else Some (cclock e))"

section \<open>Everything that can happen to a client\<close>

datatype clevent =
    ClOpen cenv string bool
  | ClWriteUp cenv u64 bytes
  | ClCloseUp cenv u64 string
  | ClConnect cenv nat string "u64 list"
  | ClDisconnect nat
  | ClFrame cenv nat frame

fun clstep :: "clevent \<Rightarrow> client \<Rightarrow> client" where
  "clstep (ClOpen e tgt h) c = fst (OpenSession e tgt h c)"
| "clstep (ClWriteUp e i p) c = fst (WriteUpTurn e i p c)"
| "clstep (ClCloseUp e i reason) c = fst (CloseUp e i reason c)"
| "clstep (ClConnect e tc actor order) c = fst (connectStart e tc actor order c)"
| "clstep (ClDisconnect tc) c = fst (connectEnd tc c)"
| "clstep (ClFrame e tc f) c = fst (dispatch e tc f c)"

inductive clreach :: "ClientConfig \<Rightarrow> client \<Rightarrow> bool" for cfg where
  start: "clreach cfg (NewClient cfg)"
| happens: "clreach cfg c \<Longrightarrow> clreach cfg (clstep ev c)"

section \<open>Session methods are lawful\<close>

text \<open>A method keeps the identity of its session and removes it exactly when it dies.\<close>

definition clawful :: "csession \<Rightarrow> csession \<times> ceffect list \<Rightarrow> bool" where
  "clawful s r \<longleftrightarrow> cs_sessionID (fst r) = cs_sessionID s \<and> cs_target (fst r) = cs_target s \<and>
     (cs_dead (fst r) \<longleftrightarrow> cs_dead s \<or> RemoveClientSession \<in> set (snd r)) \<and>
     (cs_dead s \<longrightarrow> RemoveClientSession \<notin> set (snd r))"

lemma clawful_closeAll: "clawful s (closeAll s)"
  by (simp add: clawful_def closeAll_def)

lemma clawful_closeAll_update:
  "cs_sessionID s' = cs_sessionID s \<Longrightarrow> cs_target s' = cs_target s \<Longrightarrow> cs_dead s' = cs_dead s \<Longrightarrow> clawful s (closeAll s')"
  by (simp add: clawful_def closeAll_def)

lemma clawful_agentWrite: "clawful s (agentWrite a p s)"
  using clawful_closeAll [of s] clawful_closeAll_update [of "s\<lparr>agentBroken := True\<rparr>" s]
  by (auto simp: agentWrite_def Let_def split_beta clawful_def split: option.splits)

lemma clawful_methods:
  "clawful s (deliverDown a off p s)" "clawful s (onAttachOK off s)" "clawful s (onClose d s)"
  "clawful s (closeUp reason s)" "clawful s (onUpstreamAck off s, [])"
proof -
  show "clawful s (deliverDown a off p s)"
    by (simp add: deliverDown_def Let_def clawful_agentWrite) (simp add: clawful_def)
  show "clawful s (onClose d s)"
    by (simp add: onClose_def Let_def clawful_closeAll_update) (simp add: clawful_def)
  show "clawful s (onAttachOK off s)"
    by (auto simp: onAttachOK_def Let_def clawful_def split: sum.splits)
qed (simp_all add: closeUp_def onUpstreamAck_def clawful_def)

section \<open>The session map\<close>

definition creg :: "client \<Rightarrow> bool" where
  "creg c \<longleftrightarrow> (\<forall>i. (i \<in> csessions c \<longleftrightarrow> (\<exists>s. cobjs c i = Some s \<and> \<not> cs_dead s)) \<and>
     (\<forall>s. cobjs c i = Some s \<longrightarrow> cs_sessionID s = i))"

lemma ccallbacks_state:
  "cobjs (fst (ccallbacks e i es c)) = cobjs c \<and> ccfg (fst (ccallbacks e i es c)) = ccfg c \<and>
   nextID (fst (ccallbacks e i es c)) = nextID c \<and> conn (fst (ccallbacks e i es c)) = conn c \<and>
   csessions (fst (ccallbacks e i es c)) = (if RemoveClientSession \<in> set es then csessions c - {i} else csessions c)"
proof (induction es arbitrary: c)
  case (Cons ef es)
  show ?case
    using Cons.IH [of "fst (ccallback e i ef c)"]
    by (cases ef) (auto simp: split_beta removeClientSession_def)
qed simp

lemma run_csession_state:
  assumes "cobjs c i = Some s"
  shows "cobjs (fst (run_csession e i m c)) = (cobjs c)(i \<mapsto> fst (m s))"
    and "csessions (fst (run_csession e i m c)) =
      (if RemoveClientSession \<in> set (snd (m s)) then csessions c - {i} else csessions c)"
  using assms ccallbacks_state [of e i "snd (m s)" "c\<lparr>cobjs := (cobjs c)(i \<mapsto> fst (m s))\<rparr>"]
  by (simp_all add: run_csession_def split_beta)

lemma creg_put:
  assumes "creg c" and "cobjs c i = Some s" and "clawful s (s', es)" and "cobjs c' = (cobjs c)(i \<mapsto> s')"
    and "csessions c' = (if RemoveClientSession \<in> set es then csessions c - {i} else csessions c)"
  shows "creg c'"
  unfolding creg_def
proof
  fix j
  show "(j \<in> csessions c' \<longleftrightarrow> (\<exists>s. cobjs c' j = Some s \<and> \<not> cs_dead s)) \<and> (\<forall>s. cobjs c' j = Some s \<longrightarrow> cs_sessionID s = j)"
    using assms by (cases "j = i") (auto simp: creg_def clawful_def split: if_splits)
qed

lemma creg_run:
  assumes "creg c" and "\<And>s. clawful s (m s)"
  shows "creg (fst (run_csession e i m c))"
proof (cases "cobjs c i")
  case None
  then show ?thesis using assms(1) by (simp add: run_csession_def)
next
  case (Some s)
  then show ?thesis
    using creg_put [OF assms(1) Some, of "fst (m s)" "snd (m s)"] run_csession_state [OF Some] assms(2) by simp
qed

lemma creg_WriteUp:
  assumes "creg c"
  shows "creg (fst (WriteUpTurn e i p c))"
proof (cases "cobjs c i")
  case None
  then show ?thesis using assms by (simp add: WriteUpTurn_def)
next
  case (Some s)
  obtain s' es r where t: "writeUpTurn p s = (s', es, r)" by (cases "writeUpTurn p s")
  have "clawful s (s', es)"
    using t by (auto simp: writeUpTurn_def Let_def clawful_def split: if_splits sum.splits)
  then show ?thesis
    using creg_put [OF assms Some] ccallbacks_state [of e i es "c\<lparr>cobjs := (cobjs c)(i \<mapsto> s')\<rparr>"] Some t
    by (simp add: WriteUpTurn_def split_beta)
qed

lemma creg_step:
  assumes "creg c"
  shows "creg (clstep ev c)"
proof (cases ev)
  case (ClOpen e tgt h)
  then show ?thesis using assms by (auto simp: OpenSession_def Let_def creg_def newClientSession_def)
next
  case (ClConnect e tc actor order)
  then show ?thesis using assms by (simp add: connectStart_def Let_def split_beta creg_def)
next
  case (ClDisconnect tc)
  then show ?thesis using assms by (simp add: connectEnd_def creg_def)
next
  case (ClFrame e tc f)
  have "creg (c\<lparr>lastPong := t\<rparr>)" for t using assms by (simp add: creg_def)
  then show ?thesis
    using ClFrame assms by (simp add: dispatch_def on_csession_def creg_run clawful_methods)
qed (use assms in \<open>simp_all add: creg_WriteUp CloseUp_def creg_run clawful_methods\<close>)

lemma clreach_creg: "clreach cfg c \<Longrightarrow> creg c"
  by (induction rule: clreach.induct) (simp_all add: creg_step, simp add: NewClient_def creg_def)

section \<open>Properties\<close>

definition all_ok :: cenv where
  "all_ok = \<lparr>cclock = 0, ctun_ok = (\<lambda>_. True), agent_take = None\<rparr>"

definition std_cfg :: ClientConfig where
  "std_cfg = \<lparr>SessionBuffer = 0, PingInterval = 0, PongTimeout = 0, DialBackoff = 0\<rparr>"

text \<open>A client with one open session.\<close>

definition one_session :: client where
  "one_session = clstep (ClOpen all_ok ''x:80'' True) (NewClient std_cfg)"

lemma clreach_one_session: "clreach std_cfg one_session"
  unfolding one_session_def by (intro clreach.intros)

lemma one_session_state:
  "csessions one_session = {1}" "cobjs one_session 1 = Some (newClientSession 4194304 1 ''x:80'' True)"
  by (simp_all add: one_session_def OpenSession_def NewClient_def std_cfg_def Let_def)

lemma attachAll_writes:
  assumes "\<forall>f. ctun_ok e f" and "\<forall>i\<in>set order. \<exists>s. cobjs c i = Some s \<and> length (cs_target s) \<le> maxString"
  shows "attachAll e tc order c = map (\<lambda>i. ClWrite tc (attachFrame (the (cobjs c i)))) order"
  using assms(2)
proof (induction order)
  case (Cons i order)
  then obtain s where s: "cobjs c i = Some s" "length (cs_target s) \<le> maxString" by auto
  have "encodable (attachFrame s)" using s(2) by (simp add: encodable_def known_type_def attachFrame_def)
  then show ?case using Cons s assms(1) by (simp add: tun_write_def)
qed simp

text \<open>
  A reconnect re-attaches everything that is alive and nothing else. On a tunnel that
  takes the frames, the client writes HELLO with the actor's current name and then, for every
  session that is not dead, exactly one ATTACH carrying that session's delivered offset and
  target.
\<close>

lemma reconnect_attaches_live_sessions:
  assumes "clreach cfg c" and "set order = csessions c" and "distinct order" and "\<forall>f. ctun_ok e f"
    and "length actor \<le> maxString"
    and "\<forall>i s. cobjs c i = Some s \<longrightarrow> length (cs_target s) \<le> maxString"
    and "connectStart e tc actor order c = (c', ws, ok)"
  shows "ok \<and> conn c' = Some tc \<and>
    ws = ClWrite tc (zero_frame\<lparr>ftype := TypeHello, ActorID := actor\<rparr>) #
      map (\<lambda>i. ClWrite tc (attachFrame (the (cobjs c i)))) order \<and>
    (\<forall>i. i \<in> set order \<longleftrightarrow> (\<exists>s. cobjs c i = Some s \<and> \<not> cs_dead s)) \<and>
    (\<forall>i s. i \<in> set order \<and> cobjs c i = Some s \<longrightarrow>
       SessionID (attachFrame s) = i \<and> Offset (attachFrame s) = downDelivered s \<and> Target (attachFrame s) = cs_target s)"
proof -
  have reg: "creg c" by (rule clreach_creg [OF assms(1)])
  let ?c = "c\<lparr>conn := Some tc, lastPong := cclock e\<rparr>"
  have "attachAll e tc order ?c = map (\<lambda>i. ClWrite tc (attachFrame (the (cobjs ?c i)))) order"
    by (rule attachAll_writes) (use assms reg in \<open>fastforce simp: creg_def\<close>)+
  moreover have "tun_write e tc (zero_frame\<lparr>ftype := TypeHello, ActorID := actor\<rparr>) =
      ([ClWrite tc (zero_frame\<lparr>ftype := TypeHello, ActorID := actor\<rparr>)], True)"
    using assms(4,5) by (simp add: tun_write_def encodable_def known_type_def zero_frame_def)
  ultimately have "ok" "c' = ?c" "ws = ClWrite tc (zero_frame\<lparr>ftype := TypeHello, ActorID := actor\<rparr>) #
      map (\<lambda>i. ClWrite tc (attachFrame (the (cobjs c i)))) order"
    using assms(7) by (simp_all add: connectStart_def)
  then show ?thesis using reg assms(2) by (simp add: creg_def attachFrame_def)
qed

text \<open>
  A frame from the broker runs exactly the handler of the live session it names; every
  other session, and every session on a frame for a session that is not live, is untouched.
\<close>

lemma dispatch_runs_session:
  assumes "clreach cfg c" and "cobjs c i = Some s"
    and "ftype f \<in> {TypeAttachOK, TypeData, TypeAck, TypeClose}"
  shows "cobjs (clstep (ClFrame e tc f) c) i =
    Some (if i = SessionID f \<and> \<not> cs_dead s then fst (csess_frame (agent_take e) f s) else s)"
proof -
  have reg: "creg c" by (rule clreach_creg [OF assms(1)])
  have run: "cobjs (fst (on_csession e (SessionID f) m c)) i =
      Some (if i = SessionID f \<and> \<not> cs_dead s then fst (m s) else s)" for m
  proof (cases "SessionID f \<in> csessions c")
    case True
    then obtain t where t: "cobjs c (SessionID f) = Some t" "\<not> cs_dead t" using reg by (auto simp: creg_def)
    then show ?thesis using True assms(2) run_csession_state(1) [OF t(1), of e m] by (auto simp: on_csession_def)
  next
    case False
    then have "\<not> (i = SessionID f \<and> \<not> cs_dead s)" using reg assms(2) by (auto simp: creg_def)
    then show ?thesis using False assms(2) by (auto simp: on_csession_def)
  qed
  consider "ftype f = TypeAttachOK" | "ftype f = TypeData" | "ftype f = TypeAck" | "ftype f = TypeClose"
    using assms(3) by blast
  then show ?thesis by cases (simp_all add: dispatch_def run csess_frame_def)
qed

text \<open>The ids of sessions opened one after the other.\<close>

fun openMany :: "cenv \<Rightarrow> nat \<Rightarrow> client \<Rightarrow> u64 list" where
  "openMany e 0 c = []"
| "openMany e (Suc n) c = (case OpenSession e [] True c of (c', ws, i) \<Rightarrow> i # openMany e n c')"

lemma openMany_ids: "openMany e n c = map (\<lambda>k. nextID c + of_nat k) [1..<Suc n]"
proof (induction n arbitrary: c)
  case (Suc n)
  have "[1..<Suc (Suc n)] = 1 # map Suc [1..<Suc n]" by (simp add: map_Suc_upt upt_conv_Cons)
  then show ?case using Suc by (simp add: OpenSession_def Let_def add.assoc)
qed simp

text \<open>
  Session ids are unique: the ids a new client hands out are \<open>1, 2, 3, \<dots>\<close>, pairwise
  different until the 64-bit counter has gone all the way round, and never zero before that.
\<close>

lemma session_ids_unique:
  assumes "n < 2 ^ 64"
  shows "distinct (openMany e n (NewClient cfg)) \<and> 0 \<notin> set (openMany e n (NewClient cfg))"
proof -
  have ids: "openMany e n (NewClient cfg) = map of_nat [1..<Suc n]" by (simp add: openMany_ids NewClient_def)
  have u: "unat (of_nat k :: u64) = k" if "k < Suc n" for k using that assms by (simp add: unat_of_nat)
  have "inj_on (of_nat :: nat \<Rightarrow> u64) (set [1..<Suc n])" by (rule inj_onI) (metis atLeastLessThan_iff set_upt u)
  moreover have "(of_nat k :: u64) \<noteq> 0" if "k \<in> set [1..<Suc n]" for k using u [of k] that by auto
  ultimately show ?thesis unfolding ids distinct_map by auto
qed

text \<open>The ticks of an undisturbed PING loop that started at the last PONG.\<close>

definition ticks :: "cenv \<Rightarrow> client \<Rightarrow> nat \<Rightarrow> nat \<Rightarrow> cenv list" where
  "ticks e c k n = map (\<lambda>j. e\<lparr>cclock := lastPong c + int j * PingInterval (ccfg c)\<rparr>) [k..<k + n]"

lemma ticks_Suc: "ticks e c k (Suc n) = e\<lparr>cclock := lastPong c + int k * PingInterval (ccfg c)\<rparr> # ticks e c (Suc k) n"
  by (simp add: ticks_def upt_conv_Cons)

lemma pingTick_silent:
  assumes "\<forall>f. ctun_ok e f"
  shows "pingTick (e\<lparr>cclock := t\<rparr>) tc nonce c =
    (if t - lastPong c > PongTimeout (ccfg c) then ([ClCloseTunnel tc], nonce, False)
     else ([ClWrite tc (zero_frame\<lparr>ftype := TypePing, Nonce := nonce + 1\<rparr>)], nonce + 1, True))"
  using assms by (simp add: pingTick_def tun_write_def encodable_def known_type_def zero_frame_def Let_def)

lemma pingLoop_silent:
  assumes "\<forall>f. ctun_ok e f" and "0 \<le> PingInterval (ccfg c)" and "PongTimeout (ccfg c) < int (k + n) * PingInterval (ccfg c)"
    and "(int k - 1) * PingInterval (ccfg c) \<le> PongTimeout (ccfg c)" 
  shows "\<exists>t. pingLoop tc nonce (ticks e c k (Suc n)) c = Some t \<and> PongTimeout (ccfg c) < t - lastPong c \<and>
    t - lastPong c \<le> PongTimeout (ccfg c) + PingInterval (ccfg c)"
  using assms(3,4)
proof (induction n arbitrary: k nonce)
  case 0
  then show ?case
    by (simp add: ticks_Suc pingTick_silent [OF assms(1)] algebra_simps)
next
  case (Suc n)
  let ?t = "lastPong c + int k * PingInterval (ccfg c)"
  show ?case
  proof (cases "?t - lastPong c > PongTimeout (ccfg c)")
    case True
    then show ?thesis
      using Suc.prems by (subst ticks_Suc) (simp add: pingTick_silent [OF assms(1)] algebra_simps)
  next
    case False
    then have "pingLoop tc nonce (ticks e c k (Suc (Suc n))) c = pingLoop tc (nonce + 1) (ticks e c (Suc k) (Suc n)) c"
      by (subst ticks_Suc) (simp add: pingTick_silent [OF assms(1)])
    then show ?thesis using Suc.IH [of "Suc k" "nonce + 1"] Suc.prems False by simp
  qed
qed



section \<open>Departure from the documented contract\<close>

text \<open>
  Frames dropped while the tunnel is down are said to be derived again on the reconnect. The
  CLOSE of the agent's half is not: it is dropped with the tunnel down, the session counts as
  closed, and neither its ATTACH, nor its answer to any frame, nor another \<open>CloseUp\<close> says so again.
\<close>

theorem lost_close_not_resent:
  assumes "conn c = None" and "cobjs c i = Some s" and "\<not> cs_upClosed s"
  shows "snd (CloseUp e i reason c) = [] \<and>
    (\<exists>s'. cobjs (fst (CloseUp e i reason c)) i = Some s' \<and> cs_upClosed s' \<and> ftype (attachFrame s') = TypeAttach \<and>
       (\<forall>take f. \<forall>g\<in>set (sentFrames (snd (csess_frame take f s'))). ftype g \<noteq> TypeClose) \<and>
       (\<forall>reason'. closeUp reason' s' = (s', [])))"
  using assms
  by (auto simp: CloseUp_def run_csession_def closeUp_def send_def attachFrame_def csess_frame_def onAttachOK_def
      deliverDown_def agentWrite_def onClose_def closeAll_def up_data_def down_ack_def Let_def split: sum.splits option.splits)

end
