(* ===== verification/Deployment.thy ===== *)
theory Deployment
  imports Tunnel_System Broker Sidecar_Client
begin

text \<open>
  The two ends put together: the broker with its registry and one actor's client with its
  session map, over tunnels that come and go. The frames between them may be lost, repeated,
  delayed or reordered; the tunnels of all other actors deliver whatever they like. Each session
  of the client is then a run of the single-session system of \<open>Tunnel_System\<close>, so that its
  properties hold for every session of the deployment.
\<close>

section \<open>The composed system\<close>

text \<open>
  The client's events with their effects; \<^const>\<open>clstep\<close> is the state part.
\<close>

fun clrun :: "clevent \<Rightarrow> clhandler" where
  "clrun (ClOpen e tgt h) c = (case OpenSession e tgt h c of (c', ws, i) \<Rightarrow> (c', ws))"
| "clrun (ClWriteUp e i p) c = (case WriteUpTurn e i p c of (c', ws, r) \<Rightarrow> (c', ws))"
| "clrun (ClCloseUp e i reason) c = CloseUp e i reason c"
| "clrun (ClConnect e tc actor order) c = (case connectStart e tc actor order c of (c', ws, ok) \<Rightarrow> (c', ws))"
| "clrun (ClDisconnect tc) c = connectEnd tc c"
| "clrun (ClFrame e tc f) c = dispatch e tc f c"

lemma fst_clrun: "fst (clrun ev c) = clstep ev c"
  by (cases ev) (simp_all split: prod.splits)

text \<open>The frames a run of the client writes, and the bytes it gives to the agent of session \<open>i\<close>.\<close>

definition clFrames :: "cleffect list \<Rightarrow> frame set" where
  "clFrames ws = {f. \<exists>tc. ClWrite tc f \<in> set ws}"

fun clAgent :: "u64 \<Rightarrow> cleffect list \<Rightarrow> bytes" where
  "clAgent i [] = []"
| "clAgent i (ClSession j (AgentWrite p) # ws) = (if j = i then p else []) @ clAgent i ws"
| "clAgent i (_ # ws) = clAgent i ws"

text \<open>The frames a run of the broker writes on the tunnels of actor \<open>A\<close>, and the bytes to the upstream of \<open>n\<close>.\<close>

definition bFrames :: "(nat \<Rightarrow> string) \<Rightarrow> string \<Rightarrow> beffect list \<Rightarrow> frame set" where
  "bFrames ta A es =
     {f. \<exists>tc. ta tc = A \<and> ((\<exists>n. SessionEffect n (TunnelWrite tc f) \<in> set es) \<or> ConnWrite tc f \<in> set es)}"

fun bUpstream :: "nat \<Rightarrow> beffect list \<Rightarrow> bytes" where
  "bUpstream n [] = []"
| "bUpstream n (SessionEffect k (UpWrite p) # es) = (if k = n then p else []) @ bUpstream n es"
| "bUpstream n (_ # es) = bUpstream n es"

text \<open>
  The state: the broker, the client, the frames ever sent each way, and for each session of the
  client and each session object of the broker the bytes exchanged with the agent and the
  upstream, as in \<^typ>\<open>tsys\<close>.
\<close>

record deploy =
  br :: broker
  clt :: client
  netB :: "frame set"
  netS :: "frame set"
  dAgentSent :: "u64 \<Rightarrow> bytes"
  dAgentGot :: "u64 \<Rightarrow> bytes"
  dUpGot :: "nat \<Rightarrow> bytes"
  dUpSent :: "nat \<Rightarrow> bytes"
  dReader :: "nat \<Rightarrow> reader_state"

definition clientRan :: "client \<times> cleffect list \<Rightarrow> deploy \<Rightarrow> deploy" where
  "clientRan r d =
     d\<lparr>clt := fst r, netB := netB d \<union> clFrames (snd r),
       dAgentGot := (\<lambda>i. dAgentGot d i @ clAgent i (snd r))\<rparr>"

definition brokerRan :: "(nat \<Rightarrow> string) \<Rightarrow> string \<Rightarrow> broker \<times> beffect list \<Rightarrow> deploy \<Rightarrow> deploy" where
  "brokerRan ta A r d =
     d\<lparr>br := fst r, netS := netS d \<union> bFrames ta A (snd r),
       dUpGot := (\<lambda>n. dUpGot d n @ bUpstream n (snd r))\<rparr>"

text \<open>
  The steps. \<open>ta tc\<close> is the actor that the HELLO of tunnel \<open>tc\<close> names and \<open>A\<close> is the actor of the
  client. An id is not handed out twice (the counter has not gone round), streams stay below
  \<open>2 ^ 63\<close> bytes, a session is dialled while it is not connected, and the upstream reader reads
  when it is not holding bytes for which there is no room.
\<close>

definition taken_up :: "u64 \<Rightarrow> client \<Rightarrow> client \<Rightarrow> bytes" where
  "taken_up i c c' =
     (case (cobjs c i, cobjs c' i) of (Some s, Some s') \<Rightarrow> taken (upBuf s) (upBuf s') | _ \<Rightarrow> [])"

inductive dstep :: "(nat \<Rightarrow> string) \<Rightarrow> string \<Rightarrow> deploy \<Rightarrow> deploy \<Rightarrow> bool" for ta A where
  agent_opens: "cobjs (clt d) (nextID (clt d) + 1) = None \<Longrightarrow> dstep ta A d (clientRan (clrun (ClOpen e tgt h) (clt d)) d)"
| agent_writes: "length (dAgentSent d i) + length p < 2 ^ 63 \<Longrightarrow> r = clrun (ClWriteUp e i p) (clt d) \<Longrightarrow>
    dstep ta A d ((clientRan r d)\<lparr>dAgentSent := (dAgentSent d)(i := dAgentSent d i @ taken_up i (clt d) (fst r))\<rparr>)"
| agent_closes: "dstep ta A d (clientRan (clrun (ClCloseUp e i reason) (clt d)) d)"
| connects: "set order \<subseteq> csessions (clt d) \<Longrightarrow> dstep ta A d (clientRan (clrun (ClConnect e tc A order) (clt d)) d)"
| disconnects: "dstep ta A d (clientRan (clrun (ClDisconnect tc) (clt d)) d)"
| sidecar_receives: "f \<in> netS d \<Longrightarrow> dstep ta A d (clientRan (clrun (ClFrame e tc f) (clt d)) d)"
| broker_receives: "(ta tc = A \<Longrightarrow> f \<in> netB d) \<Longrightarrow> dstep ta A d (brokerRan ta A (bstep ta (BFrame tc e f) (br d)) d)"
| tunnel_ends: "dom (registered (br d) tc) \<subseteq> set order \<Longrightarrow>
    dstep ta A d (brokerRan ta A (bstep ta (BTunnelEnd tc order) (br d)) d)"
| dials: "objs (br d) n = Some s \<Longrightarrow> \<not> connected s \<Longrightarrow> dstep ta A d (brokerRan ta A (bstep ta (BDial n e result) (br d)) d)"
| upstream_sends: "objs (br d) n = Some s \<Longrightarrow> connected s \<Longrightarrow> dReader d n = Reading \<Longrightarrow>
    length (dUpSent d n) + length p < 2 ^ 63 \<Longrightarrow> readUpstreamTurn (at_cfg (br d) e) p err s = (s', es, rd) \<Longrightarrow>
    dstep ta A d ((brokerRan ta A (bstep ta (BRead n e p err) (br d)) d)
      \<lparr>dUpSent := (dUpSent d)(n := dUpSent d n @ p), dReader := (dReader d)(n := rd)\<rparr>)"
| reader_retries: "objs (br d) n = Some s \<Longrightarrow> dReader d n = Holding q err \<Longrightarrow>
    readUpstreamTurn (at_cfg (br d) e) q err s = (s', es, rd) \<Longrightarrow>
    dstep ta A d ((brokerRan ta A (bstep ta (BRead n e q err) (br d)) d)\<lparr>dReader := (dReader d)(n := rd)\<rparr>)"
| watchdog_fires: "dstep ta A d (brokerRan ta A (bstep ta (BWatchdog n) (br d)) d)"
| resume_ends: "dstep ta A d (brokerRan ta A (bstep ta (BResumeDone actor) (br d)) d)"

definition deploy0 :: "Config \<Rightarrow> ClientConfig \<Rightarrow> deploy" where
  "deploy0 bc cc = \<lparr>br = New bc, clt = NewClient cc, netB = {}, netS = {}, dAgentSent = (\<lambda>_. []), dAgentGot = (\<lambda>_. []),
     dUpGot = (\<lambda>_. []), dUpSent = (\<lambda>_. []), dReader = (\<lambda>_. Reading)\<rparr>"

inductive dreach :: "(nat \<Rightarrow> string) \<Rightarrow> string \<Rightarrow> Config \<Rightarrow> ClientConfig \<Rightarrow> deploy \<Rightarrow> bool" for ta A bc cc where
  start: "0 \<le> SessionBufferBytes bc \<Longrightarrow> 0 \<le> SessionBuffer cc \<Longrightarrow> dreach ta A bc cc (deploy0 bc cc)"
| happens: "dreach ta A bc cc d \<Longrightarrow> dstep ta A d d' \<Longrightarrow> dreach ta A bc cc d'"

section \<open>The parts are reachable\<close>

lemma clientRan_simps [simp]:
  "br (clientRan r d) = br d" "clt (clientRan r d) = fst r" "netS (clientRan r d) = netS d"
  "dUpGot (clientRan r d) = dUpGot d" "dUpSent (clientRan r d) = dUpSent d" "dReader (clientRan r d) = dReader d"
  "dAgentSent (clientRan r d) = dAgentSent d" "netB (clientRan r d) = netB d \<union> clFrames (snd r)"
  by (simp_all add: clientRan_def)

lemma brokerRan_simps [simp]:
  "br (brokerRan ta A r d) = fst r" "clt (brokerRan ta A r d) = clt d" "netB (brokerRan ta A r d) = netB d"
  "dAgentSent (brokerRan ta A r d) = dAgentSent d" "dAgentGot (brokerRan ta A r d) = dAgentGot d"
  "dUpSent (brokerRan ta A r d) = dUpSent d" "dReader (brokerRan ta A r d) = dReader d"
  "netS (brokerRan ta A r d) = netS d \<union> bFrames ta A (snd r)"
  by (simp_all add: brokerRan_def)

lemma dreach_parts: "dreach ta A bc cc d \<Longrightarrow> breach ta bc (br d) \<and> clreach cc (clt d)"
proof (induction rule: dreach.induct)
  case start
  then show ?case by (simp add: deploy0_def breach.start clreach.start)
next
  case (happens d d')
  have c: "clreach cc (fst (clrun ev (clt d)))" for ev
    using happens.IH by (simp add: fst_clrun clreach.happens)
  have b: "breach ta bc (fst (bstep ta ev (br d)))"
    if "\<And>tc order. ev = BTunnelEnd tc order \<Longrightarrow> dom (registered (br d) tc) \<subseteq> set order" for ev
    using happens.IH that by (blast intro: breach.happens)
  have b': "breach ta bc (fst (bstep ta (BTunnelEnd tc order) (br d)))" if "dom (registered (br d) tc) \<subseteq> set order" for tc order
    using b [of "BTunnelEnd tc order"] that by blast
  from happens(2) show ?case
    by cases (use happens.IH c b b' in \<open>auto simp del: clrun.simps bstep.simps\<close>)
qed

section \<open>Frames carry the id of their session\<close>

text \<open>
  A broker method writes only frames with its session's id, and only on the tunnel the session is
  bound to when it starts.
\<close>

definition framed :: "session \<Rightarrow> session \<times> effect list \<Rightarrow> bool" where
  "framed s r \<longleftrightarrow> (\<forall>tc f. TunnelWrite tc f \<in> set (snd r) \<longrightarrow> SessionID f = sessionID s \<and> tconn s = Some tc) \<and>
     sessionID (fst r) = sessionID s \<and> (tconn (fst r) = tconn s \<or> tconn (fst r) = None)"

lemma framed_andThen: "framed s r \<Longrightarrow> framed (fst r) (f (fst r)) \<Longrightarrow> framed s (andThen r f)"
  by (auto simp: framed_def)

lemma framed_same: "framed s' r \<Longrightarrow> sessionID s' = sessionID s \<Longrightarrow> tconn s' = tconn s \<Longrightarrow> framed s r"
  by (simp add: framed_def)

lemma framed_idle [simp]: "framed s (s, [])"
  by (simp add: framed_def)

lemma framed_send: "SessionID f = sessionID s \<Longrightarrow> framed s (sendToSidecar e f s)"
  by (auto simp: framed_def sendToSidecar_def detach_def Let_def split: option.splits if_splits)

lemma framed_destroy: "framed s (destroy s)"
  by (auto simp: framed_def destroy_def)

lemma framed_maybeDestroy: "framed s (maybeDestroy s)"
  by (simp add: maybeDestroy_def framed_destroy)

lemma frame_ids [simp]:
  "SessionID (close_frame i r) = i" "SessionID (ack_frame i off) = i" "SessionID (data_frame i off p) = i"
  "SessionID (attachok_frame i off) = i"
  by (simp_all add: close_frame_def ack_frame_def data_frame_def attachok_frame_def)

lemma framed_closeUpstream: "framed s (closeUpstream e c s)"
proof -
  have "framed s (sendToSidecar e (close_frame (sessionID s) r) (s\<lparr>downClosed := True\<rparr>))" for r
    by (rule framed_same [OF framed_send]) simp_all
  then show ?thesis
    by (auto simp: closeUpstream_def Let_def intro!: framed_andThen framed_maybeDestroy) (auto simp: framed_def)
qed

lemma framed_commitUp: "framed s (commitUp e n s)"
  by (simp add: commitUp_def Let_def) (rule framed_same [OF framed_send]; simp add: armWatchdogLocked_def)

lemma framed_writeUpstream: "framed s (writeUpstream e p s)"
  by (auto simp: writeUpstream_def upWrite_def split: option.splits
      intro!: framed_andThen framed_closeUpstream framed_commitUp) (auto simp: framed_def)

lemma framed_onData: "framed s (onData e off p s)"
  by (simp add: onData_def Let_def framed_writeUpstream) (simp add: framed_def)

lemma sessionID_send [simp]: "sessionID (fst (sendToSidecar e f s)) = sessionID s"
  by (rule core_eqD) simp

lemma framed_attach: "framed s (onSidecarAttach e off s)"
  by (simp add: onSidecarAttach_def Let_def) (intro framed_andThen; simp add: framed_send)

lemma framed_onSidecarClose: "framed s (onSidecarClose d s)"
  by (auto simp: onSidecarClose_def intro!: framed_andThen framed_maybeDestroy) (auto simp: framed_def)

lemma framed_detach: "framed s (detach tc s)"
  by (auto simp: framed_def detach_def Let_def split: if_splits)

lemma framed_dial: "framed s (dialUpstream e r s)"
proof (cases r)
  case (Some err)
  then show ?thesis
    by (auto simp: dialUpstream_def dialFailed_def intro!: framed_andThen framed_send framed_destroy)
next
  case None
  have f: "framed s' (dialFlush e pre s')" for pre s'
    by (auto simp: dialFlush_def upWrite_def Let_def split: option.splits
        intro!: framed_andThen framed_closeUpstream framed_send) (auto simp: framed_def)
  have "framed s (dialFlush e (preConn s) (fst (dialPublish e s)))"
    by (rule framed_same [OF f]) (simp_all add: dialPublish_def armWatchdogLocked_def)
  moreover have "framed s (s, [UpClose])" by (simp add: framed_def)
  ultimately show ?thesis using None by (simp add: dialUpstream_def dialPublish_def)
qed

lemma framed_read:
  assumes "readUpstreamTurn e p err s = (s', es, rd)"
  shows "framed s (s', es)"
proof -
  obtain s1 es1 r where p: "produceDownstream e p s = (s1, es1, r)" by (cases "produceDownstream e p s")
  have "framed t (forwardChunk e off c t)" for t off c
    by (auto simp: framed_def forwardChunk_def Let_def split: option.splits)
  then have "framed s (forwardChunk e off c (s\<lparr>downBuf := b\<rparr>))" for off c b
    by (rule framed_same [where s' = "s\<lparr>downBuf := b\<rparr>"]) simp_all
  then have "framed s (fst (produceDownstream e p s), fst (snd (produceDownstream e p s)))"
    by (cases rule: produce_cases [of e p s]) auto
  then have 1: "framed s (s1, es1)" using p by simp
  have "framed s (andThen (s1, es1) (closeUpstream e c))" "framed s (andThen (s1, es1) destroy)" for c
    using 1 by (auto intro: framed_andThen framed_closeUpstream framed_destroy)
  then show ?thesis
    using assms 1 p by (cases r; cases err) (auto simp: readUpstreamTurn_def andThen_def split_beta)
qed

lemma framed_watchdog: "framed s (watchdogFires s)"
  by (auto simp: framed_def watchdogFires_def Let_def)

lemma framed_ack: "framed s (onDownstreamAck off s, [])"
  by (simp add: framed_def onDownstreamAck_def Let_def)

section \<open>What a run of one session adds\<close>

lemma bFrames_append [simp]: "bFrames ta A (es @ es') = bFrames ta A es \<union> bFrames ta A es'"
  by (auto simp: bFrames_def)

lemma bFrames_Nil [simp]: "bFrames ta A [] = {}"
  by (simp add: bFrames_def)

lemma bUpstream_append [simp]: "bUpstream n (es @ es') = bUpstream n es @ bUpstream n es'"
  by (induction n es rule: bUpstream.induct) simp_all

lemma clFrames_append [simp]: "clFrames (ws @ ws') = clFrames ws \<union> clFrames ws'"
  by (auto simp: clFrames_def)

lemma clFrames_Nil [simp]: "clFrames [] = {}"
  by (simp add: clFrames_def)

lemma clAgent_append [simp]: "clAgent i (ws @ ws') = clAgent i ws @ clAgent i ws'"
  by (induction i ws rule: clAgent.induct) simp_all

lemma set_tunFrames: "f \<in> set (tunFrames es) \<longleftrightarrow> (\<exists>tc. TunnelWrite tc f \<in> set es)"
  by (induction es rule: tunFrames.induct) auto

lemma callback_effects:
  "bFrames ta A (snd (callback ref s ef b)) = {f. \<exists>tc. ta tc = A \<and> ef = TunnelWrite tc f}"
  "bUpstream n (snd (callback ref s ef b)) = (if n = ref then upBytes [ef] else [])"
  by (cases ef; auto simp: bFrames_def wake_def resume_def Let_def)+

lemma callbacks_effects:
  "bFrames ta A (snd (callbacks ref s es b)) = {f. \<exists>tc. ta tc = A \<and> TunnelWrite tc f \<in> set es}"
  "bUpstream n (snd (callbacks ref s es b)) = (if n = ref then upBytes es else [])"
proof (induction es arbitrary: b)
  case (Cons ef es)
  case 1
  show ?case using Cons.IH(1) by (auto simp: callback_effects)
  case 2
  show ?case using Cons.IH(2) upBytes_append [of "[ef]" es] by (simp add: callback_effects)
qed simp_all

lemma run_session_effects:
  assumes "objs b ref = Some s"
  shows "bFrames ta A (snd (run_session ref m b)) = {f. \<exists>tc. ta tc = A \<and> TunnelWrite tc f \<in> set (snd (m s))}"
    and "bUpstream n (snd (run_session ref m b)) = (if n = ref then upBytes (snd (m s)) else [])"
  using assms by (simp_all add: run_session_def split_beta callbacks_effects)

lemma ccallback_effects:
  "clFrames (snd (ccallback e i ef c)) \<subseteq> set (sentFrames [ef])"
  "clAgent j (snd (ccallback e i ef c)) = (if j = i then agentBytes [ef] else [])"
  by (cases ef; auto simp: clFrames_def send_def tun_write_def split: option.splits)+

lemma ccallbacks_effects:
  "clFrames (snd (ccallbacks e i es c)) \<subseteq> set (sentFrames es)"
  "clAgent j (snd (ccallbacks e i es c)) = (if j = i then agentBytes es else [])"
proof (induction es arbitrary: c)
  case (Cons ef es)
  case 1
  show ?case
    using Cons.IH(1) [of "fst (ccallback e i ef c)"] ccallback_effects(1) [of e i ef c] sentFrames_append [of "[ef]" es]
    by (auto simp: split_beta)
  case 2
  show ?case
    using Cons.IH(2) [of "fst (ccallback e i ef c)"] agentBytes_append [of "[ef]" es] by (simp add: split_beta ccallback_effects)
qed simp_all

lemma run_csession_effects:
  assumes "cobjs c i = Some s"
  shows "clFrames (snd (run_csession e i m c)) \<subseteq> set (sentFrames (snd (m s)))"
    and "clAgent j (snd (run_csession e i m c)) = (if j = i then agentBytes (snd (m s)) else [])"
  using assms ccallbacks_effects by (simp_all add: run_csession_def split_beta)

text \<open>A method of the client's session sends no OPEN or ATTACH, and only frames with its id.\<close>

definition cframed :: "csession \<Rightarrow> csession \<times> ceffect list \<Rightarrow> bool" where
  "cframed s r \<longleftrightarrow> (\<forall>f\<in>set (sentFrames (snd r)). SessionID f = cs_sessionID s \<and> ftype f \<notin> {TypeOpen, TypeAttach})"

lemma cframed_methods:
  "cframed s (deliverDown a off p s)" "cframed s (onAttachOK off s)" "cframed s (onClose d s)"
  "cframed s (closeUp reason s)" "cframed s (onUpstreamAck off s, [])"
  by (auto simp: cframed_def deliverDown_def agentWrite_def closeAll_def Let_def onAttachOK_def onClose_def closeUp_def
      up_data_def down_ack_def split: option.splits sum.splits)

lemma csess_frame_lawful: "clawful s (csess_frame a f s) \<and> cframed s (csess_frame a f s)"
  by (simp add: csess_frame_def clawful_methods cframed_methods) (simp add: clawful_def cframed_def)

lemma writeUpTurn_lawful:
  assumes "writeUpTurn p s = (s', es, r)"
  shows "clawful s (s', es) \<and> cframed s (s', es)"
  using assms by (auto simp: writeUpTurn_def Let_def clawful_def cframed_def up_data_def split: if_splits sum.splits)

section \<open>Each session is a run of the single-session system\<close>

definition stypes :: "u8 set" where
  "stypes = {TypeOpen, TypeAttach, TypeAttachOK, TypeData, TypeAck, TypeClose}"

definition rel :: "u64 \<Rightarrow> frame set \<Rightarrow> frame set" where
  "rel i N = {f \<in> N. SessionID f = i \<and> ftype f \<in> stypes}"

text \<open>
  The objects the broker has made for the actor's session \<open>i\<close>, and the broker's part of the session
  while there is none (it would be made at time \<open>t\<close>) or exactly one, \<open>n\<close>.
\<close>

definition mine :: "string \<Rightarrow> broker \<Rightarrow> u64 \<Rightarrow> nat set" where
  "mine A b i = {n. \<exists>s. objs b n = Some s \<and> actorID s = A \<and> sessionID s = i}"

fun owned :: "string \<Rightarrow> broker \<Rightarrow> u64 \<Rightarrow> int + nat \<Rightarrow> bool" where
  "owned A b i (Inl t) \<longleftrightarrow> mine A b i = {}"
| "owned A b i (Inr n) \<longleftrightarrow> mine A b i = {n}"

fun bpart :: "string \<Rightarrow> deploy \<Rightarrow> u64 \<Rightarrow> string \<Rightarrow> int + nat \<Rightarrow> tsys \<Rightarrow> bool" where
  "bpart A d i tgt (Inl t) \<sigma> \<longleftrightarrow> bs \<sigma> = newSession (SessionBufferBytes (cfg (br d))) t A i tgt \<and>
     upGot \<sigma> = [] \<and> upSent \<sigma> = [] \<and> reader_st \<sigma> = Reading"
| "bpart A d i tgt (Inr n) \<sigma> \<longleftrightarrow> objs (br d) n = Some (bs \<sigma>) \<and> upGot \<sigma> = dUpGot d n \<and>
     upSent \<sigma> = dUpSent d n \<and> reader_st \<sigma> = dReader d n"

definition sim :: "string \<Rightarrow> deploy \<Rightarrow> u64 \<Rightarrow> int + nat \<Rightarrow> tsys \<Rightarrow> bool" where
  "sim A d i w \<sigma> \<longleftrightarrow> treach \<sigma> \<and> cobjs (clt d) i = Some (sc \<sigma>) \<and> bpart A d i (cs_target (sc \<sigma>)) w \<sigma> \<and>
     rel i (netB d) \<subseteq> toBroker \<sigma> \<and> rel i (netS d) \<subseteq> toSidecar \<sigma> \<and>
     agentSent \<sigma> = dAgentSent d i \<and> agentGot \<sigma> = dAgentGot d i"

text \<open>
  The invariant: registry entries and bindings respect keys and actors; every session frame and
  every broker object of the actor belongs to a session of the client; what is not there yet has
  no history; and every session with at most one broker object is simulated.
\<close>

definition known :: "client \<Rightarrow> frame \<Rightarrow> bool" where
  "known c f \<longleftrightarrow> (\<exists>s. cobjs c (SessionID f) = Some s \<and> (ftype f \<in> {TypeOpen, TypeAttach} \<longrightarrow> Target f = cs_target s))"

definition obj_ok :: "(nat \<Rightarrow> string) \<Rightarrow> string \<Rightarrow> client \<Rightarrow> session \<Rightarrow> bool" where
  "obj_ok ta A c s \<longleftrightarrow> (\<forall>tc. tconn s = Some tc \<longrightarrow> ta tc = actorID s) \<and>
     (actorID s = A \<longrightarrow> cobjs c (sessionID s) \<noteq> None)"

definition broker_wf :: "(nat \<Rightarrow> string) \<Rightarrow> string \<Rightarrow> deploy \<Rightarrow> bool" where
  "broker_wf ta A d \<longleftrightarrow>
     (\<forall>k ref. sessions (br d) k = Some ref \<longrightarrow> (\<exists>s. objs (br d) ref = Some s \<and> k = (actorID s, sessionID s))) \<and>
     (\<forall>n s. objs (br d) n = Some s \<longrightarrow> n < nextObj (br d) \<and> obj_ok ta A (clt d) s) \<and>
     (\<forall>n \<ge> nextObj (br d). dUpGot d n = [] \<and> dUpSent d n = [] \<and> dReader d n = Reading) \<and>
     0 \<le> SessionBufferBytes (cfg (br d))"

lemma broker_wfI:
  assumes "\<And>k ref. sessions (br d) k = Some ref \<Longrightarrow> \<exists>s. objs (br d) ref = Some s \<and> k = (actorID s, sessionID s)"
    and "\<And>n s. objs (br d) n = Some s \<Longrightarrow> n < nextObj (br d) \<and> obj_ok ta A (clt d) s"
    and "\<And>n. n \<ge> nextObj (br d) \<Longrightarrow> dUpGot d n = [] \<and> dUpSent d n = [] \<and> dReader d n = Reading"
    and "0 \<le> SessionBufferBytes (cfg (br d))"
  shows "broker_wf ta A d"
  using assms unfolding broker_wf_def by blast

lemma broker_wfD:
  assumes "broker_wf ta A d"
  shows "sessions (br d) k = Some ref \<Longrightarrow> \<exists>s. objs (br d) ref = Some s \<and> k = (actorID s, sessionID s)"
    and "objs (br d) n = Some s \<Longrightarrow> n < nextObj (br d) \<and> obj_ok ta A (clt d) s"
    and "n \<ge> nextObj (br d) \<Longrightarrow> dUpGot d n = [] \<and> dUpSent d n = [] \<and> dReader d n = Reading"
    and "0 \<le> SessionBufferBytes (cfg (br d))"
  using assms unfolding broker_wf_def by blast+

definition client_wf :: "deploy \<Rightarrow> bool" where
  "client_wf d \<longleftrightarrow>
     (\<forall>f\<in>netB d. ftype f \<in> stypes \<longrightarrow> known (clt d) f) \<and>
     (\<forall>f\<in>netS d. ftype f \<in> stypes \<longrightarrow> cobjs (clt d) (SessionID f) \<noteq> None) \<and>
     (\<forall>i. cobjs (clt d) i = None \<longrightarrow> dAgentSent d i = [] \<and> dAgentGot d i = []) \<and>
     0 \<le> SessionBuffer (ccfg (clt d))"

definition simulated :: "string \<Rightarrow> deploy \<Rightarrow> bool" where
  "simulated A d \<longleftrightarrow>
     (\<forall>i w. cobjs (clt d) i \<noteq> None \<and> owned A (br d) i w \<longrightarrow> (\<exists>\<sigma>. sim A d i w \<sigma>))"

lemma simulatedD: "simulated A d \<Longrightarrow> cobjs (clt d) i \<noteq> None \<Longrightarrow> owned A (br d) i w \<Longrightarrow> \<exists>\<sigma>. sim A d i w \<sigma>"
  by (simp add: simulated_def)

definition deploy_inv :: "(nat \<Rightarrow> string) \<Rightarrow> string \<Rightarrow> deploy \<Rightarrow> bool" where
  "deploy_inv ta A d \<longleftrightarrow> broker_wf ta A d \<and> client_wf d \<and> simulated A d"

lemma rel_Un [simp]: "rel i (M \<union> N) = rel i M \<union> rel i N"
  by (auto simp: rel_def)

lemma rel_other: "\<forall>f\<in>N. ftype f \<in> stypes \<longrightarrow> SessionID f \<noteq> i \<Longrightarrow> rel i N = {}"
  by (auto simp: rel_def)

lemma rel_subset: "N \<subseteq> M \<Longrightarrow> rel i N \<subseteq> M"
  by (auto simp: rel_def)

subsection \<open>A change of one broker object\<close>

lemma mine_upd:
  assumes "objs b n = Some s" and "objs b' = (objs b)(n \<mapsto> s')" and "actorID s' = actorID s" and "sessionID s' = sessionID s"
  shows "mine A b' i = mine A b i"
  using assms by (auto simp: mine_def)

lemma owned_upd:
  "mine A b' i = mine A b i \<Longrightarrow> owned A b' i w = owned A b i w"
  by (cases w) simp_all

lemma object_changes:
  assumes inv: "deploy_inv ta A d" and s: "objs (br d) n = Some s"
    and o: "objs (br d') = (objs (br d))(n \<mapsto> s')" "actorID s' = actorID s" "sessionID s' = sessionID s"
    and tcs: "\<forall>tc. tconn s' = Some tc \<longrightarrow> ta tc = actorID s"
    and same: "cfg (br d') = cfg (br d)" "nextObj (br d') = nextObj (br d)" "clt d' = clt d" "netB d' = netB d"
      "dAgentSent d' = dAgentSent d" "dAgentGot d' = dAgentGot d"
    and reg: "\<And>k ref. sessions (br d') k = Some ref \<Longrightarrow> sessions (br d) k = Some ref"
    and ghosts: "\<And>k. k \<noteq> n \<Longrightarrow> dUpGot d' k = dUpGot d k \<and> dUpSent d' k = dUpSent d k \<and> dReader d' k = dReader d k"
    and F: "netS d' = netS d \<union> F" "\<forall>f\<in>F. SessionID f = sessionID s \<and> actorID s = A"
    and step: "\<And>\<sigma>. actorID s = A \<Longrightarrow> sim A d (sessionID s) (Inr n) \<sigma> \<Longrightarrow> \<exists>\<sigma>'. sim A d' (sessionID s) (Inr n) \<sigma>'"
  shows "deploy_inv ta A d'"
proof -
  have b: "broker_wf ta A d" and c: "client_wf d" and sm: "simulated A d" using inv by (auto simp: deploy_inv_def)
  have n: "n < nextObj (br d)" "actorID s = A \<Longrightarrow> cobjs (clt d) (sessionID s) \<noteq> None"
    using b s by (auto simp: broker_wf_def obj_ok_def)
  have "obj_ok ta A (clt d) s'" using n(2) o tcs by (simp add: obj_ok_def)
  moreover have "\<exists>t. objs (br d') ref = Some t \<and> k = (actorID t, sessionID t)" if "sessions (br d') k = Some ref" for k ref
    using broker_wfD(1) [OF b reg [OF that]] o s by auto
  ultimately have "broker_wf ta A d'"
    using b n o s same ghosts by (intro broker_wfI) (auto dest!: broker_wfD(2) [OF b] split: if_splits simp: broker_wfD [OF b])
  moreover have "client_wf d'" using c F n(2) same by (auto simp: client_wf_def)
  moreover have "\<exists>\<sigma>. sim A d' i w \<sigma>" if i: "cobjs (clt d') i \<noteq> None" "owned A (br d') i w" for i w
  proof -
    have m: "owned A (br d) i w" using i(2) owned_upd [OF mine_upd [OF s o]] by simp
    then obtain \<sigma> where \<sigma>: "sim A d i w \<sigma>" using simulatedD [OF sm _ m] i(1) same(3) by auto
    show ?thesis
    proof (cases "n \<in> mine A (br d) i")
      case True
      then have "w = Inr n" "actorID s = A" "i = sessionID s" using m s by (cases w; auto simp: mine_def)+
      then show ?thesis using step \<sigma> by blast
    next
      case False
      then have w: "w \<noteq> Inr n" using m by auto
      have F': "rel i F = {}" using False F s by (auto simp: rel_def mine_def)
      have "bpart A d' i tgt w \<sigma> = bpart A d i tgt w \<sigma>" for tgt
        using w same o ghosts by (cases w) auto
      then have "sim A d' i w \<sigma>" using \<sigma> F F' same by (simp add: sim_def)
      then show ?thesis ..
    qed
  qed
  ultimately show ?thesis by (auto simp: deploy_inv_def simulated_def)
qed


lemma simD:
  assumes "sim A d i w \<sigma>"
  shows "treach \<sigma>" and "cobjs (clt d) i = Some (sc \<sigma>)" and "bpart A d i (cs_target (sc \<sigma>)) w \<sigma>"
    and "f \<in> netB d \<Longrightarrow> SessionID f = i \<Longrightarrow> ftype f \<in> stypes \<Longrightarrow> f \<in> toBroker \<sigma>"
    and "f \<in> netS d \<Longrightarrow> SessionID f = i \<Longrightarrow> ftype f \<in> stypes \<Longrightarrow> f \<in> toSidecar \<sigma>"
  using assms by (auto simp: sim_def rel_def)

lemma brokerRan_upGot [simp]: "dUpGot (brokerRan ta A r d) n = dUpGot d n @ bUpstream n (snd r)"
  by (simp add: brokerRan_def)

lemma reader_runs:
  assumes inv: "deploy_inv ta A d" and s: "objs (br d) n = Some s"
    and law: "lawful s (m s)" and fr: "framed s (m s)"
    and step: "\<And>\<sigma>. actorID s = A \<Longrightarrow> sim A d (sessionID s) (Inr n) \<sigma> \<Longrightarrow> bs \<sigma> = s \<Longrightarrow>
      \<exists>P. treach ((broker_ran (m s) \<sigma>)\<lparr>produced := P, reader_st := rd, upSent := U\<rparr>)"
  shows "deploy_inv ta A ((brokerRan ta A (run_session n m (br d)) d)
    \<lparr>dUpSent := (dUpSent d)(n := U), dReader := (dReader d)(n := rd)\<rparr>)" (is "deploy_inv ta A ?d")
proof (rule object_changes [OF inv s])
  have ok: "tconn s = Some tc \<Longrightarrow> ta tc = actorID s" for tc
    using inv s broker_wfD(2) by (auto simp: deploy_inv_def obj_ok_def)
  note st = run_session_state [OF s, of m] run_session_effects [OF s, where m = m]
  show "objs (br ?d) = (objs (br d))(n \<mapsto> fst (m s))" using st by simp
  show "\<forall>f\<in>bFrames ta A (snd (run_session n m (br d))). SessionID f = sessionID s \<and> actorID s = A"
    using fr ok by (fastforce simp: st framed_def)
  show "\<forall>tc. tconn (fst (m s)) = Some tc \<longrightarrow> ta tc = actorID s" using law ok by (auto simp: lawful_def)
  show "sessions (br ?d) k = Some ref \<Longrightarrow> sessions (br d) k = Some ref" for k ref
    using st by (auto split: if_splits)
  fix \<sigma>
  assume a: "actorID s = A" and \<sigma>: "sim A d (sessionID s) (Inr n) \<sigma>"
  have "bs \<sigma> = s" using simD(3) [OF \<sigma>] s by simp
  then obtain P where P: "treach ((broker_ran (m s) \<sigma>)\<lparr>produced := P, reader_st := rd, upSent := U\<rparr>)"
    using step [OF a \<sigma>] by blast
  have "sim A ?d (sessionID s) (Inr n) ((broker_ran (m s) \<sigma>)\<lparr>produced := P, reader_st := rd, upSent := U\<rparr>)"
    using P \<sigma> st by (auto simp: sim_def broker_ran_def rel_def set_tunFrames)
  then show "\<exists>\<sigma>'. sim A ?d (sessionID s) (Inr n) \<sigma>'" ..
qed (use law run_session_state [OF s, of m] run_session_effects [OF s, where m = m] in \<open>simp_all add: lawful_def\<close>)

lemma session_runs:
  assumes inv: "deploy_inv ta A d" and s: "objs (br d) n = Some s"
    and law: "lawful s (m s)" and fr: "framed s (m s)"
    and step: "\<And>\<sigma>. actorID s = A \<Longrightarrow> sim A d (sessionID s) (Inr n) \<sigma> \<Longrightarrow> bs \<sigma> = s \<Longrightarrow> treach (broker_ran (m s) \<sigma>)"
  shows "deploy_inv ta A (brokerRan ta A (run_session n m (br d)) d)"
proof -
  have "\<exists>P. treach ((broker_ran (m s) \<sigma>)\<lparr>produced := P, reader_st := dReader d n, upSent := dUpSent d n\<rparr>)"
    if a: "actorID s = A" and \<sigma>: "sim A d (sessionID s) (Inr n) \<sigma>" "bs \<sigma> = s" for \<sigma>
  proof
    have "upSent \<sigma> = dUpSent d n" "reader_st \<sigma> = dReader d n" using simD(3) [OF \<sigma>(1)] by simp_all
    then have "(broker_ran (m s) \<sigma>)\<lparr>produced := produced \<sigma>, reader_st := dReader d n, upSent := dUpSent d n\<rparr> = broker_ran (m s) \<sigma>"
      unfolding broker_ran_def by (intro tsys.equality) simp_all
    then show "treach ((broker_ran (m s) \<sigma>)\<lparr>produced := produced \<sigma>, reader_st := dReader d n, upSent := dUpSent d n\<rparr>)"
      using step [OF a \<sigma>] by (simp only:)
  qed
  then have run: "deploy_inv ta A ((brokerRan ta A (run_session n m (br d)) d)
      \<lparr>dUpSent := (dUpSent d)(n := dUpSent d n), dReader := (dReader d)(n := dReader d n)\<rparr>)"
    by (rule reader_runs [where m = m, OF inv s law fr])
  have "(brokerRan ta A r d)\<lparr>dUpSent := dUpSent d, dReader := dReader d\<rparr> = brokerRan ta A r d" for r
    unfolding brokerRan_def by (intro deploy.equality) simp_all
  then show ?thesis using run by (simp only: fun_upd_triv)
qed

lemma deploy_inv_irrelevant:
  assumes "deploy_inv ta A d" and "objs b = objs (br d)" "nextObj b = nextObj (br d)" "cfg b = cfg (br d)"
    "sessions b = sessions (br d)"
  shows "deploy_inv ta A (d\<lparr>br := b\<rparr>)"
proof -
  have "bpart A (d\<lparr>br := b\<rparr>) i tgt w \<sigma> = bpart A d i tgt w \<sigma>" "owned A b i w = owned A (br d) i w" for i tgt w \<sigma>
    using assms by (cases w; simp add: mine_def)+
  then show ?thesis
    using assms by (auto simp: deploy_inv_def broker_wf_def client_wf_def simulated_def sim_def)
qed


lemma binds:
  assumes inv: "deploy_inv ta A d" and s: "objs (br d) n = Some s" and tc: "ta tc = actorID s"
  shows "deploy_inv ta A (d\<lparr>br := bindTo tc n (br d)\<rparr>)"
proof (rule object_changes [OF inv s, where s' = "bind tc s" and F = "{}"])
  have o: "objs (bindTo tc n (br d)) = (objs (br d))(n \<mapsto> bind tc s)" using s by (simp add: bindTo_def register_def)
  then show "objs (br (d\<lparr>br := bindTo tc n (br d)\<rparr>)) = (objs (br d))(n \<mapsto> bind tc s)" by simp
  fix \<sigma>
  assume "sim A d (sessionID s) (Inr n) \<sigma>"
  then have "sim A (d\<lparr>br := bindTo tc n (br d)\<rparr>) (sessionID s) (Inr n) (\<sigma>\<lparr>bs := bind tc (bs \<sigma>)\<rparr>)"
    using s o treach.step [OF _ tstep.opens [of \<sigma> tc]] by (auto simp: sim_def)
  then show "\<exists>\<sigma>'. sim A (d\<lparr>br := bindTo tc n (br d)\<rparr>) (sessionID s) (Inr n) \<sigma>'" ..
qed (use s tc in \<open>simp_all add: bindTo_def register_def bind_def\<close>)

subsection \<open>Frames the broker writes itself\<close>

lemma refuses:
  assumes inv: "deploy_inv ta A d" and f: "cobjs (clt d) i \<noteq> None"
  shows "deploy_inv ta A (d\<lparr>netS := insert (close_frame i reason) (netS d)\<rparr>)" (is "deploy_inv ta A ?d")
proof -
  have "\<exists>\<sigma>. sim A ?d j w \<sigma>" if j: "cobjs (clt d) j \<noteq> None" "owned A (br d) j w" for j w
  proof -
    obtain \<sigma> where \<sigma>: "sim A d j w \<sigma>" using inv simulatedD j unfolding deploy_inv_def by blast
    have b: "bpart A ?d k tgt w (\<sigma>\<lparr>toSidecar := N\<rparr>) = bpart A d k tgt w \<sigma>" for k tgt N by (cases w) simp_all
    have "sim A ?d j w (\<sigma>\<lparr>toSidecar := insert (close_frame i reason) (toSidecar \<sigma>)\<rparr>)"
      using \<sigma> b treach.step [OF _ tstep.refuses [of \<sigma> i reason]] by (auto simp: sim_def rel_def)
    then show ?thesis ..
  qed
  then show ?thesis
    using inv f by (auto simp: deploy_inv_def broker_wf_def client_wf_def simulated_def)
qed

lemma pongs:
  assumes inv: "deploy_inv ta A d" and f: "ftype f \<notin> stypes"
  shows "deploy_inv ta A (d\<lparr>netS := insert f (netS d)\<rparr>)"
proof -
  have "rel i (insert f (netS d)) = rel i (netS d)" for i using f by (auto simp: rel_def)
  moreover have "bpart A (d\<lparr>netS := N\<rparr>) i tgt w \<sigma> = bpart A d i tgt w \<sigma>" for i tgt w \<sigma> N by (cases w) simp_all
  ultimately have "sim A (d\<lparr>netS := insert f (netS d)\<rparr>) i w \<sigma> = sim A d i w \<sigma>" for i w \<sigma> by (simp add: sim_def)
  then show ?thesis using inv f by (auto simp: deploy_inv_def broker_wf_def client_wf_def simulated_def)
qed

lemma brokerRan_connWrite:
  "brokerRan ta A (br d, connWrite e tc f) d =
     (if ta tc = A \<and> tc_write e f then d\<lparr>netS := insert f (netS d)\<rparr> else d)"
  by (simp add: brokerRan_def connWrite_def bFrames_def)

lemma brokerRan_state: "bFrames ta A es = {} \<Longrightarrow> (\<And>n. bUpstream n es = []) \<Longrightarrow> brokerRan ta A (b, es) d = d\<lparr>br := b\<rparr>"
  by (simp add: brokerRan_def)

lemma brokerRan_bthen: "brokerRan ta A (bthen r h) d = brokerRan ta A (h (br (brokerRan ta A r d))) (brokerRan ta A r d)"
  by (simp add: brokerRan_def bthen_def split_beta Un_assoc)

subsection \<open>A session the broker creates\<close>

definition created :: "env \<Rightarrow> string \<Rightarrow> u64 \<Rightarrow> string \<Rightarrow> broker \<Rightarrow> broker" where
  "created e actor i tgt b =
     b\<lparr>objs := (objs b)(nextObj b \<mapsto> newSession (SessionBufferBytes (cfg b)) (clock e) actor i tgt),
       nextObj := Suc (nextObj b), sessions := (sessions b)((actor, i) \<mapsto> nextObj b)\<rparr>"

lemma newSession_id [simp]:
  "actorID (newSession m t actor i tgt) = actor" "sessionID (newSession m t actor i tgt) = i"
  "tconn (newSession m t actor i tgt) = None"
  by (simp_all add: newSession_def)

lemma creates:
  assumes inv: "deploy_inv ta A d" and f: "actor = A \<Longrightarrow> \<exists>s. cobjs (clt d) i = Some s \<and> cs_target s = tgt"
  shows "deploy_inv ta A (d\<lparr>br := created e actor i tgt (br d)\<rparr>)" (is "deploy_inv ta A ?d")
proof -
  let ?n = "nextObj (br d)"
  have b: "broker_wf ta A d" and sm: "simulated A d" using inv by (auto simp: deploy_inv_def)
  have fresh: "objs (br d) ?n = None" using broker_wfD(2) [OF b, of ?n] by fastforce
  have mine: "mine A (br ?d) j = (if actor = A \<and> i = j then insert ?n (mine A (br d) j) else mine A (br d) j)" for j
    using fresh by (auto simp: mine_def created_def)
  have n: "?n \<notin> mine A (br d) j" for j using fresh by (simp add: mine_def)
  have "\<exists>\<sigma>. sim A ?d j w \<sigma>" if j: "cobjs (clt d) j \<noteq> None" "owned A (br ?d) j w" for j w
  proof (cases "actor = A \<and> i = j")
    case True
    then have w: "w = Inr ?n" "mine A (br d) j = {}" using j(2) mine n by (cases w; auto)+
    then obtain \<sigma> where \<sigma>: "sim A d j (Inl (clock e)) \<sigma>" using simulatedD [OF sm j(1), of "Inl (clock e)"] by auto
    then have "sim A ?d j w \<sigma>" using True w f broker_wfD(3) [OF b, of ?n] by (auto simp: sim_def created_def)
    then show ?thesis ..
  next
    case False
    then have "owned A (br d) j w" "w \<noteq> Inr ?n" using j(2) mine n by (cases w; auto)+
    moreover from this have "bpart A ?d j tgt w \<sigma> = bpart A d j tgt w \<sigma>" for tgt \<sigma> by (cases w) (auto simp: created_def)
    ultimately show ?thesis using simulatedD [OF sm j(1)] by (fastforce simp: sim_def)
  qed
  moreover have "broker_wf ta A ?d"
  proof (rule broker_wfI)
    show "\<exists>s. objs (br ?d) ref = Some s \<and> k = (actorID s, sessionID s)" if "sessions (br ?d) k = Some ref" for k ref
    proof (cases "k = (actor, i)")
      case False
      then have "sessions (br d) k = Some ref" using that by (simp add: created_def)
      from broker_wfD(1) [OF b this] show ?thesis using fresh by (auto simp: created_def)
    qed (use that in \<open>simp add: created_def\<close>)
    show "m < nextObj (br ?d) \<and> obj_ok ta A (clt ?d) s" if "objs (br ?d) m = Some s" for m s
      using that f broker_wfD(2) [OF b, of m s] by (auto simp: created_def obj_ok_def split: if_splits)
  qed (use broker_wfD(3,4) [OF b] in \<open>simp_all add: created_def\<close>)
  ultimately show ?thesis using inv by (simp add: deploy_inv_def client_wf_def simulated_def)
qed


subsection \<open>The broker's steps\<close>

lemma looked_up:
  assumes "deploy_inv ta A d" and "lookup actor i (br d) = Some ref"
  shows "\<exists>s. objs (br d) ref = Some s \<and> actorID s = actor \<and> sessionID s = i"
  using broker_wfD(1) [of ta A d "(actor, i)" ref] assms by (auto simp: deploy_inv_def lookup_def)

lemma on_session_runs:
  assumes inv: "deploy_inv ta A d" and f: "ta tc = A \<Longrightarrow> f \<in> netB d" "ftype f \<in> stypes"
    and m: "\<And>s. lawful s (m s)" "\<And>s. framed s (m s)" "\<And>s. m s = sess_frame e tc f s"
  shows "deploy_inv ta A (brokerRan ta A (on_session (ta tc) (SessionID f) m (br d)) d)"
proof (cases "lookup (ta tc) (SessionID f) (br d)")
  case None
  then show ?thesis using inv by (simp add: on_session_def brokerRan_def)
next
  case (Some ref)
  from looked_up [OF inv Some] obtain s where
    s: "objs (br d) ref = Some s" "actorID s = ta tc" "sessionID s = SessionID f" by blast
  have "treach (broker_ran (m s) \<sigma>)" if "actorID s = A" "sim A d (sessionID s) (Inr ref) \<sigma>" "bs \<sigma> = s" for \<sigma>
    using treach.step [OF simD(1) tstep.broker_receives, OF that(2) simD(4) [OF that(2)], of f e tc] that s f m(3) by simp
  then have "deploy_inv ta A (brokerRan ta A (run_session ref m (br d)) d)" by (rule session_runs [where m = m, OF inv s(1) m(1) m(2)])
  then show ?thesis using Some by (simp add: on_session_def)
qed

text \<open>An OPEN or ATTACH reaches a session that is bound to the tunnel it came on.\<close>

lemma attach_runs:
  assumes inv: "deploy_inv ta A d" and f: "ta tc = A \<Longrightarrow> f \<in> netB d" "ftype f = TypeOpen \<and> off = 0 \<or> ftype f = TypeAttach \<and> off = Offset f"
    and s: "objs (br d) ref = Some s" "actorID s = ta tc" "sessionID s = SessionID f" "tconn s = Some tc"
  shows "deploy_inv ta A (brokerRan ta A (run_session ref (onSidecarAttach e off) (br d)) d)"
proof -
  have "bind tc s = s" using s(4) by (simp add: bind_def)
  then have "sess_frame e tc f s = onSidecarAttach e off s" using f(2) by (auto simp: sess_frame_def)
  then have "treach (broker_ran (onSidecarAttach e off s) \<sigma>)"
    if "actorID s = A" "sim A d (sessionID s) (Inr ref) \<sigma>" "bs \<sigma> = s" for \<sigma>
    using treach.step [OF simD(1) tstep.broker_receives, OF that(2) simD(4) [OF that(2)], of f e tc] that s f
    by (auto simp: stypes_def)
  then show ?thesis by (rule session_runs [where m = "onSidecarAttach e off", OF inv s(1) lawful_attach framed_attach])
qed

lemma reattach_runs:
  assumes inv: "deploy_inv ta A d" and f: "ta tc = A \<Longrightarrow> f \<in> netB d" "ftype f = TypeOpen \<and> off = 0 \<or> ftype f = TypeAttach \<and> off = Offset f"
    and look: "lookup (ta tc) (SessionID f) (br d) = Some ref"
  shows "deploy_inv ta A (brokerRan ta A (reattach e tc ref off (br d)) d)"
proof -
  from looked_up [OF inv look] obtain s where
    s: "objs (br d) ref = Some s" "actorID s = ta tc" "sessionID s = SessionID f" by blast
  let ?d = "d\<lparr>br := bindTo tc ref (br d)\<rparr>"
  have "deploy_inv ta A ?d" using binds [OF inv s(1)] s(2) by simp
  moreover have "objs (br ?d) ref = Some (bind tc s)" using s(1) by (simp add: bindTo_def register_def)
  ultimately have "deploy_inv ta A (brokerRan ta A (run_session ref (onSidecarAttach e off) (br ?d)) ?d)"
    using f s by (intro attach_runs [of ta A ?d tc f _ _ "bind tc s"]) (simp_all add: bind_def)
  then show ?thesis by (simp add: reattach_def brokerRan_def)
qed

lemma refusal_runs:
  assumes "deploy_inv ta A d" and "ta tc = A \<Longrightarrow> cobjs (clt d) i \<noteq> None"
  shows "deploy_inv ta A (brokerRan ta A (br d, connWrite e tc (close_frame i reason)) d)"
  using assms refuses by (auto simp: brokerRan_connWrite)

lemma openSession_creates:
  assumes "lookup actor (SessionID f) b = None"
  shows "openSession e actor tc f b =
    (if allowed b (Target f) then (bindTo tc (nextObj b) (created e actor (SessionID f) (Target f) b), [StartDial (nextObj b)])
     else (b, connWrite e tc (close_frame (SessionID f) ''target not allowed'')))"
  using assms by (simp add: openSession_def created_def Let_def)

lemma openSession_runs:
  assumes inv: "deploy_inv ta A d" and f: "ta tc = A \<Longrightarrow> \<exists>s. cobjs (clt d) (SessionID f) = Some s \<and> cs_target s = Target f"
    and seen: "ftype f = TypeOpen" "lookup (ta tc) (SessionID f) (br d) \<noteq> None \<Longrightarrow> ta tc = A \<Longrightarrow> f \<in> netB d"
  shows "deploy_inv ta A (brokerRan ta A (openSession e (ta tc) tc f (br d)) d)"
proof -
  have refused: "deploy_inv ta A (brokerRan ta A (br d, connWrite e tc (close_frame (SessionID f) ''target not allowed'')) d)"
    by (rule refusal_runs [OF inv]) (use f in auto)
  let ?d = "d\<lparr>br := created e (ta tc) (SessionID f) (Target f) (br d)\<rparr>"
  have "deploy_inv ta A ?d" by (rule creates [OF inv]) (use f in auto)
  then have "deploy_inv ta A (?d\<lparr>br := bindTo tc (nextObj (br d)) (br ?d)\<rparr>)"
    by (rule binds) (simp add: created_def, simp)
  then have opened: "deploy_inv ta A (brokerRan ta A (bindTo tc (nextObj (br d)) (br ?d), [StartDial (nextObj (br d))]) d)"
    by (simp add: brokerRan_state bFrames_def)
  show ?thesis
  proof (cases "lookup (ta tc) (SessionID f) (br d)")
    case None
    then show ?thesis using opened refused by (simp add: openSession_creates)
  next
    case (Some ref)
    have "deploy_inv ta A (brokerRan ta A (reattach e tc ref 0 (br d)) d)"
      by (rule reattach_runs [OF inv _ _ Some]) (use seen Some in simp_all)
    then show ?thesis using refused Some by (simp add: openSession_def)
  qed
qed


lemma bound_new:
  assumes "lookup actor i b = None" and "b' = bindTo tc (nextObj b) (created e actor i tgt b)"
  shows "lookup actor i b' = Some (nextObj b) \<and>
    objs b' (nextObj b) = Some (bind tc (newSession (SessionBufferBytes (cfg b)) (clock e) actor i tgt))"
  using assms by (simp add: bindTo_def register_def created_def lookup_def)

lemma attachSession_runs:
  assumes inv: "deploy_inv ta A d" and f: "ta tc = A \<Longrightarrow> f \<in> netB d" "ftype f = TypeAttach"
  shows "deploy_inv ta A (brokerRan ta A (attachSession e (ta tc) tc f (br d)) d)"
proof (cases "lookup (ta tc) (SessionID f) (br d)")
  case (Some ref)
  have "deploy_inv ta A (brokerRan ta A (reattach e tc ref (Offset f) (br d)) d)"
    by (rule reattach_runs [OF inv _ _ Some]) (use f in simp_all)
  then show ?thesis using Some by (simp add: attachSession_def)
next
  case None
  have c: "ta tc = A \<Longrightarrow> \<exists>s. cobjs (clt d) (SessionID f) = Some s \<and> cs_target s = Target f"
    using inv f by (auto simp: deploy_inv_def client_wf_def known_def stypes_def)
  let ?f = "zero_frame\<lparr>ftype := TypeOpen, SessionID := SessionID f, Target := Target f\<rparr>"
  let ?r = "openSession e (ta tc) tc ?f (br d)"
  let ?d = "brokerRan ta A ?r d"
  have d: "deploy_inv ta A ?d"
    by (rule openSession_runs [OF inv]) (use c None in simp_all)
  have opened: "deploy_inv ta A (brokerRan ta A (case lookup (ta tc) (SessionID f) (br ?d) of
      None \<Rightarrow> (br ?d, []) | Some ref \<Rightarrow> run_session ref (onSidecarAttach e (Offset f)) (br ?d)) ?d)"
  proof (cases "allowed (br d) (Target f)")
    case True
    then have "fst ?r = bindTo tc (nextObj (br d)) (created e (ta tc) (SessionID f) (Target f) (br d))"
      using None by (simp add: openSession_creates)
    note b = bound_new [OF None this]
    have "deploy_inv ta A (brokerRan ta A (run_session (nextObj (br d)) (onSidecarAttach e (Offset f)) (br ?d)) ?d)"
      by (rule attach_runs [OF d, of tc f _ _ "bind tc (newSession (SessionBufferBytes (cfg (br d))) (clock e) (ta tc) (SessionID f) (Target f))"])
        (use f b in \<open>simp_all add: bind_def\<close>)
    then show ?thesis using b by simp
  next
    case False
    then show ?thesis using None d by (simp add: openSession_creates brokerRan_def)
  qed
  have lost: "deploy_inv ta A (brokerRan ta A (br d, connWrite e tc (close_frame (SessionID f) ''session lost'')) d)"
    by (rule refusal_runs [OF inv]) (use c in auto)
  show ?thesis
  proof (cases "Offset f = 0 \<and> Target f \<noteq> []")
    case True
    show ?thesis unfolding attachSession_def None option.case if_P [OF True] brokerRan_bthen by (rule opened)
  next
    case False
    show ?thesis unfolding attachSession_def None option.case if_not_P [OF False] by (rule lost)
  qed
qed

lemma handleFrame_runs:
  assumes inv: "deploy_inv ta A d" and f: "ta tc = A \<Longrightarrow> f \<in> netB d"
  shows "deploy_inv ta A (brokerRan ta A (handleFrame e (ta tc) tc f (br d)) d)"
proof -
  let ?e = "at_cfg (br d) e"
  have k: "ta tc = A \<Longrightarrow> \<exists>s. cobjs (clt d) (SessionID f) = Some s \<and> cs_target s = Target f" if "ftype f = TypeOpen"
    using inv f that by (auto simp: deploy_inv_def client_wf_def known_def stypes_def)
  consider "ftype f = TypePing" | "ftype f = TypeOpen" | "ftype f = TypeAttach" | "ftype f = TypeData"
    | "ftype f = TypeAck" | "ftype f = TypeClose"
    | "ftype f \<notin> {TypePing, TypeOpen, TypeAttach, TypeData, TypeAck, TypeClose}" by blast
  then show ?thesis
  proof cases
    case 1
    have "ftype (zero_frame\<lparr>ftype := TypePong, Nonce := Nonce f\<rparr>) \<notin> stypes" by (simp add: stypes_def)
    from pongs [OF inv this] show ?thesis using inv 1 by (simp add: handleFrame_def Let_def brokerRan_connWrite)
  next
    case 2
    have "deploy_inv ta A (brokerRan ta A (openSession ?e (ta tc) tc f (br d)) d)"
      by (rule openSession_runs [OF inv]) (use 2 k f in simp_all)
    then show ?thesis using 2 by (simp add: handleFrame_def)
  next
    case 3
    have "deploy_inv ta A (brokerRan ta A (attachSession ?e (ta tc) tc f (br d)) d)"
      by (rule attachSession_runs [OF inv]) (use 3 f in simp_all)
    then show ?thesis using 3 by (simp add: handleFrame_def)
  next
    case 4
    have "deploy_inv ta A (brokerRan ta A (on_session (ta tc) (SessionID f) (onData ?e (Offset f) (Payload f)) (br d)) d)"
      by (rule on_session_runs [OF inv, where e = ?e]) (use 4 f in \<open>simp_all add: lawful_onData framed_onData sess_frame_def stypes_def\<close>)
    then show ?thesis using 4 by (simp add: handleFrame_def Let_def)
  next
    case 5
    have "deploy_inv ta A (brokerRan ta A (on_session (ta tc) (SessionID f) (\<lambda>s. (onDownstreamAck (Offset f) s, [])) (br d)) d)"
      by (rule on_session_runs [OF inv, where e = ?e]) (use 5 f in \<open>simp_all add: lawful_ack framed_ack sess_frame_def stypes_def\<close>)
    then show ?thesis using 5 by (simp add: handleFrame_def)
  next
    case 6
    have "deploy_inv ta A (brokerRan ta A (on_session (ta tc) (SessionID f) (onSidecarClose (Dir f)) (br d)) d)"
      by (rule on_session_runs [OF inv, where e = ?e])
        (use 6 f in \<open>simp_all add: lawful_onSidecarClose framed_onSidecarClose sess_frame_def stypes_def\<close>)
    then show ?thesis using 6 by (simp add: handleFrame_def)
  next
    case 7
    then show ?thesis using inv by (simp add: handleFrame_def brokerRan_def)
  qed
qed

lemma run_if_there:
  assumes inv: "deploy_inv ta A d" and law: "\<And>s. lawful s (m s)" "\<And>s. framed s (m s)"
    and step: "\<And>\<sigma>. objs (br d) n = Some (bs \<sigma>) \<Longrightarrow> tstep \<sigma> (broker_ran (m (bs \<sigma>)) \<sigma>)"
  shows "deploy_inv ta A (brokerRan ta A (run_session n m (br d)) d)"
proof (cases "objs (br d) n")
  case None
  then show ?thesis using inv by (simp add: run_session_none brokerRan_def)
next
  case (Some s)
  show ?thesis
    by (rule session_runs [where m = m, OF inv Some law(1) law(2)]) (use step simD(1) treach.step Some in blast)
qed

lemma detachEach_runs:
  "deploy_inv ta A d \<Longrightarrow> deploy_inv ta A (brokerRan ta A (detachEach tc refs (br d)) d)"
proof (induction refs arbitrary: d)
  case Nil
  then show ?case by (simp add: brokerRan_def)
next
  case (Cons ref refs)
  have "deploy_inv ta A (brokerRan ta A (run_session ref (detach tc) (br d)) d)"
    by (rule run_if_there [OF Cons.prems lawful_detach framed_detach tstep.tunnel_ends])
  from Cons.IH [OF this] show ?case by (simp only: detachEach.simps brokerRan_bthen)
qed


lemma read_runs:
  assumes inv: "deploy_inv ta A d" and s: "objs (br d) n = Some s"
    and r: "readUpstreamTurn (at_cfg (br d) e) p err s = (s', es, rd)"
    and step: "\<And>\<sigma>. sim A d (sessionID s) (Inr n) \<sigma> \<Longrightarrow> bs \<sigma> = s \<Longrightarrow>
      tstep \<sigma> ((reader_ran (s', es, rd) \<sigma>)\<lparr>upSent := U\<rparr>)"
  shows "deploy_inv ta A ((brokerRan ta A (bstep ta (BRead n e p err) (br d)) d)
    \<lparr>dUpSent := (dUpSent d)(n := U), dReader := (dReader d)(n := rd)\<rparr>)"
proof -
  let ?m = "sess_step (EvRead (at_cfg (br d) e) p err)"
  have m: "?m s = (s', es)" using r by simp
  have "\<exists>P. treach ((broker_ran (?m s) \<sigma>)\<lparr>produced := P, reader_st := rd, upSent := U\<rparr>)"
    if "sim A d (sessionID s) (Inr n) \<sigma>" "bs \<sigma> = s" for \<sigma>
    using treach.step [OF simD(1) step, OF that(1) that] m
    by (intro exI [of _ "produced \<sigma> @ taken (downBuf (bs \<sigma>)) (downBuf s')"]) (simp add: reader_ran_def broker_ran_def)
  then show ?thesis
    using reader_runs [where m = ?m and U = U and rd = rd, OF inv s lawful_read] framed_read [OF r] m by simp
qed

lemma broker_steps_inv:
  assumes inv: "deploy_inv ta A d"
  shows "deploy_inv ta A (brokerRan ta A (bstep ta (BTunnelEnd tc order) (br d)) d)"
    and "deploy_inv ta A (brokerRan ta A (bstep ta (BWatchdog n) (br d)) d)"
    and "deploy_inv ta A (brokerRan ta A (bstep ta (BResumeDone actor) (br d)) d)"
    and "objs (br d) n = Some s \<Longrightarrow> \<not> connected s \<Longrightarrow>
      deploy_inv ta A (brokerRan ta A (bstep ta (BDial n e result) (br d)) d)"
proof -
  let ?d = "d\<lparr>br := (br d)\<lparr>registered := (registered (br d))(tc := Map.empty)\<rparr>\<rparr>"
  have "deploy_inv ta A ?d" by (rule deploy_inv_irrelevant [OF inv]) simp_all
  from detachEach_runs [OF this, of tc "List.map_filter (registered (br d) tc) order"]
  show "deploy_inv ta A (brokerRan ta A (bstep ta (BTunnelEnd tc order) (br d)) d)"
    by (simp add: detachAll_def Let_def brokerRan_def)
  show "deploy_inv ta A (brokerRan ta A (bstep ta (BWatchdog n) (br d)) d)"
    using run_if_there [OF inv lawful_watchdog framed_watchdog tstep.watchdog_fires] by simp
  show "deploy_inv ta A (brokerRan ta A (bstep ta (BResumeDone actor) (br d)) d)"
    by (simp add: brokerRan_state) (rule deploy_inv_irrelevant [OF inv]; simp)
  show "deploy_inv ta A (brokerRan ta A (bstep ta (BDial n e result) (br d)) d)"
    if "objs (br d) n = Some s" "\<not> connected s"
    unfolding bstep.simps by (rule run_if_there [OF inv lawful_dial framed_dial tstep.dials]) (use that in simp)
qed


subsection \<open>A change of one client session\<close>

lemma known_upd:
  "cobjs c i = Some s \<Longrightarrow> cobjs c' = (cobjs c)(i \<mapsto> s') \<Longrightarrow> cs_target s' = cs_target s \<Longrightarrow> known c' f = known c f"
  by (auto simp: known_def)

lemma csession_changes:
  assumes inv: "deploy_inv ta A d" and s: "cobjs (clt d) i = Some s"
    and o: "cobjs (clt d') = (cobjs (clt d))(i \<mapsto> s')" "cs_target s' = cs_target s"
    and same: "ccfg (clt d') = ccfg (clt d)" "br d' = br d" "netS d' = netS d" "dUpGot d' = dUpGot d"
      "dUpSent d' = dUpSent d" "dReader d' = dReader d"
    and ghosts: "\<And>k. k \<noteq> i \<Longrightarrow> dAgentSent d' k = dAgentSent d k \<and> dAgentGot d' k = dAgentGot d k"
    and F: "netB d' = netB d \<union> F"
      "\<forall>f\<in>F. ftype f \<in> stypes \<longrightarrow> SessionID f = i \<and> (ftype f \<in> {TypeOpen, TypeAttach} \<longrightarrow> Target f = cs_target s)"
    and step: "\<And>w \<sigma>. sim A d i w \<sigma> \<Longrightarrow> \<exists>\<sigma>'. sim A d' i w \<sigma>'"
  shows "deploy_inv ta A d'"
proof -
  have b: "broker_wf ta A d" and c: "client_wf d" and sm: "simulated A d" using inv by (auto simp: deploy_inv_def)
  have dom: "cobjs (clt d') j = None \<longleftrightarrow> cobjs (clt d) j = None" for j using o s by simp
  have ok: "obj_ok ta A (clt d') t = obj_ok ta A (clt d) t" for t by (simp add: obj_ok_def dom del: not_None_eq)
  have "broker_wf ta A d'"
    by (rule broker_wfI) (use b same in \<open>simp_all add: ok broker_wfD [OF b]\<close>)
  moreover have "client_wf d'"
  proof -
    have "known (clt d) f" if "f \<in> netB d'" "ftype f \<in> stypes" for f
      using that c F s by (auto simp: client_wf_def known_def)
    moreover have "dAgentSent d' j = [] \<and> dAgentGot d' j = []" if "cobjs (clt d) j = None" for j
      using that c s ghosts [of j] by (cases "j = i") (auto simp: client_wf_def)
    ultimately show ?thesis using c same known_upd [OF s o] by (simp add: client_wf_def dom del: not_None_eq)
  qed
  moreover have "\<exists>\<sigma>. sim A d' j w \<sigma>" if j: "cobjs (clt d') j \<noteq> None" "owned A (br d') j w" for j w
  proof -
    obtain \<sigma> where \<sigma>: "sim A d j w \<sigma>" using simulatedD [OF sm] j same(2) dom by metis
    show ?thesis
    proof (cases "j = i")
      case True
      then show ?thesis using step \<sigma> by blast
    next
      case False
      then have "rel j F = {}" using F by (auto simp: rel_def)
      moreover have "bpart A d' j tgt w \<sigma> = bpart A d j tgt w \<sigma>" for tgt using same by (cases w) simp_all
      ultimately have "sim A d' j w \<sigma>" using \<sigma> F(1) o(1) False same ghosts by (simp add: sim_def)
      then show ?thesis ..
    qed
  qed
  ultimately show ?thesis by (auto simp: deploy_inv_def simulated_def)
qed

lemma clientRan_agentGot [simp]: "dAgentGot (clientRan r d) i = dAgentGot d i @ clAgent i (snd r)"
  by (simp add: clientRan_def)

text \<open>
  A method that ran on session \<open>i\<close>, with what it may have taken from the agent.
\<close>

lemma csession_ran:
  assumes inv: "deploy_inv ta A d" and s: "cobjs (clt d) i = Some s" "cs_sessionID s = i"
    and law: "clawful s (s', es)" "cframed s (s', es)"
    and r: "r = ccallbacks e i es ((clt d)\<lparr>cobjs := (cobjs (clt d))(i \<mapsto> s')\<rparr>)"
    and step: "\<And>w \<sigma>. sim A d i w \<sigma> \<Longrightarrow> sc \<sigma> = s \<Longrightarrow> treach ((sidecar_ran (s', es) \<sigma>)\<lparr>agentSent := dAgentSent d i @ P\<rparr>)"
  shows "deploy_inv ta A ((clientRan r d)\<lparr>dAgentSent := (dAgentSent d)(i := dAgentSent d i @ P)\<rparr>)" (is "deploy_inv ta A ?d")
proof (rule csession_changes [OF inv s(1), where s' = s' and F = "clFrames (snd r)"])
  have st: "cobjs (fst r) = (cobjs (clt d))(i \<mapsto> s')" "ccfg (fst r) = ccfg (clt d)"
    using ccallbacks_state [of e i es] by (simp_all add: r)
  have fr: "clFrames (snd r) \<subseteq> set (sentFrames es)" and ag: "clAgent j (snd r) = (if j = i then agentBytes es else [])" for j
    using ccallbacks_effects by (simp_all add: r)
  show "cobjs (clt ?d) = (cobjs (clt d))(i \<mapsto> s')" "ccfg (clt ?d) = ccfg (clt d)" using st by simp_all
  show "cs_target s' = cs_target s" using law by (simp add: clawful_def)
  show "\<forall>f\<in>clFrames (snd r). ftype f \<in> stypes \<longrightarrow> SessionID f = i \<and> (ftype f \<in> {TypeOpen, TypeAttach} \<longrightarrow> Target f = cs_target s)"
    using fr law(2) s(2) by (auto simp: cframed_def)
  show "k \<noteq> i \<Longrightarrow> dAgentSent ?d k = dAgentSent d k \<and> dAgentGot ?d k = dAgentGot d k" for k by (simp add: ag)
  fix w \<sigma>
  assume \<sigma>: "sim A d i w \<sigma>"
  have sc: "sc \<sigma> = s" using simD(2) [OF \<sigma>] s by simp
  let ?\<sigma> = "(sidecar_ran (s', es) \<sigma>)\<lparr>agentSent := dAgentSent d i @ P\<rparr>"
  have "cs_target s' = cs_target (sc \<sigma>)" using law sc by (simp add: clawful_def)
  then have "bpart A ?d i (cs_target (sc ?\<sigma>)) w ?\<sigma>" using simD(3) [OF \<sigma>] by (cases w) (simp_all add: sidecar_ran_def)
  then have "sim A ?d i w ?\<sigma>"
    using step [OF \<sigma> sc] \<sigma> st fr by (auto simp: sim_def sidecar_ran_def ag rel_def)
  then show "\<exists>\<sigma>'. sim A ?d i w \<sigma>'" ..
qed simp_all

lemma csession_runs:
  assumes inv: "deploy_inv ta A d" and reg: "creg (clt d)"
    and law: "\<And>s. clawful s (m s)" "\<And>s. cframed s (m s)"
    and step: "\<And>w \<sigma>. sim A d i w \<sigma> \<Longrightarrow> tstep \<sigma> (sidecar_ran (m (sc \<sigma>)) \<sigma>)"
  shows "deploy_inv ta A (clientRan (run_csession e i m (clt d)) d)"
proof (cases "cobjs (clt d) i")
  case None
  then show ?thesis using inv by (simp add: run_csession_def clientRan_def)
next
  case (Some s)
  have "cs_sessionID s = i" using reg Some by (simp add: creg_def)
  moreover have "treach ((sidecar_ran (fst (m s), snd (m s)) \<sigma>)\<lparr>agentSent := dAgentSent d i @ []\<rparr>)"
    if \<sigma>: "sim A d i w \<sigma>" "sc \<sigma> = s" for w \<sigma>
  proof -
    have "(sidecar_ran (m s) \<sigma>)\<lparr>agentSent := dAgentSent d i\<rparr> = sidecar_ran (m s) \<sigma>"
      using \<sigma>(1) unfolding sidecar_ran_def sim_def by (intro tsys.equality) simp_all
    then show ?thesis using treach.step [OF simD(1) [OF \<sigma>(1)] step [OF \<sigma>(1)]] \<sigma>(2) by simp
  qed
  ultimately have "deploy_inv ta A ((clientRan (run_csession e i m (clt d)) d)\<lparr>dAgentSent := (dAgentSent d)(i := dAgentSent d i @ [])\<rparr>)"
    using Some law by (intro csession_ran [OF inv Some, where s' = "fst (m s)" and es = "snd (m s)" and e = e])
      (simp_all add: run_csession_def split_beta)
  moreover have "(clientRan r d)\<lparr>dAgentSent := dAgentSent d\<rparr> = clientRan r d" for r
    unfolding clientRan_def by (intro deploy.equality) simp_all
  ultimately show ?thesis by (simp only: append_Nil2 fun_upd_triv)
qed


subsection \<open>The client's steps\<close>

lemma client_rest:
  assumes inv: "deploy_inv ta A d" and c: "cobjs (fst r) = cobjs (clt d)" "ccfg (fst r) = ccfg (clt d)"
    and ws: "\<forall>f\<in>clFrames (snd r). ftype f \<notin> stypes" "\<And>i. clAgent i (snd r) = []"
  shows "deploy_inv ta A (clientRan r d)"
proof -
  have "rel i (netB (clientRan r d)) = rel i (netB d)" for i using ws by (auto simp: rel_def)
  moreover have "bpart A (clientRan r d) i tgt w \<sigma> = bpart A d i tgt w \<sigma>" for i tgt w \<sigma> by (cases w) simp_all
  ultimately have "sim A (clientRan r d) i w \<sigma> = sim A d i w \<sigma>" for i w \<sigma> using c ws by (simp add: sim_def)
  moreover have "known (fst r) f = known (clt d) f" for f using c by (simp add: known_def)
  ultimately show ?thesis
    using inv c ws by (auto simp: deploy_inv_def broker_wf_def client_wf_def simulated_def obj_ok_def)
qed

lemma agent_writes_inv:
  assumes inv: "deploy_inv ta A d" and reg: "creg (clt d)" and bound: "length (dAgentSent d i) + length p < 2 ^ 63"
    and r: "r = clrun (ClWriteUp e i p) (clt d)"
  shows "deploy_inv ta A ((clientRan r d)\<lparr>dAgentSent := (dAgentSent d)(i := dAgentSent d i @ taken_up i (clt d) (fst r))\<rparr>)"
proof (cases "cobjs (clt d) i")
  case None
  then have "r = (clt d, [])" using r by (simp add: WriteUpTurn_def)
  then show ?thesis using inv None by (simp add: taken_up_def clientRan_def)
next
  case (Some s)
  obtain s' es x where t: "writeUpTurn p s = (s', es, x)" by (cases "writeUpTurn p s")
  have r': "r = ccallbacks e i es ((clt d)\<lparr>cobjs := (cobjs (clt d))(i \<mapsto> s')\<rparr>)"
    using r Some t by (simp add: WriteUpTurn_def split_beta)
  have "cobjs (fst r) i = Some s'" using ccallbacks_state [of e i es] by (simp add: r')
  then have P: "taken_up i (clt d) (fst r) = taken (upBuf s) (upBuf s')" using Some by (simp add: taken_up_def)
  have "cs_sessionID s = i" using reg Some by (simp add: creg_def)
  then show ?thesis unfolding P
  proof (rule csession_ran [OF inv Some _ _ _ r'])
    fix w \<sigma>
    assume \<sigma>: "sim A d i w \<sigma>" "sc \<sigma> = s"
    then show "treach ((sidecar_ran (s', es) \<sigma>)\<lparr>agentSent := dAgentSent d i @ taken (upBuf s) (upBuf s')\<rparr>)"
      using treach.step [OF simD(1) [OF \<sigma>(1)] tstep.agent_writes [of p \<sigma> s' es x]] t bound by (simp add: sim_def)
  qed (use writeUpTurn_lawful [OF t] in simp_all)
qed

lemma dispatch_inv:
  assumes inv: "deploy_inv ta A d" and reg: "creg (clt d)" and f: "f \<in> netS d"
  shows "deploy_inv ta A (clientRan (dispatch e tc f (clt d)) d)"
proof -
  have run: "deploy_inv ta A (clientRan (on_csession e (SessionID f) m (clt d)) d)"
    if t: "ftype f \<in> stypes" and m: "m = csess_frame (agent_take e) f" for m
  proof -
    have "deploy_inv ta A (clientRan (run_csession e (SessionID f) m (clt d)) d)"
      by (rule csession_runs [OF inv reg])
        (use m csess_frame_lawful simD(5) f t in \<open>auto intro!: tstep.sidecar_receives\<close>)
    then show ?thesis using inv by (simp add: on_csession_def clientRan_def)
  qed
  have "ftype f = TypeAttachOK \<Longrightarrow> deploy_inv ta A (clientRan (on_csession e (SessionID f) (onAttachOK (Offset f)) (clt d)) d)"
    "ftype f = TypeData \<Longrightarrow> deploy_inv ta A (clientRan (on_csession e (SessionID f) (deliverDown (agent_take e) (Offset f) (Payload f)) (clt d)) d)"
    "ftype f = TypeAck \<Longrightarrow> deploy_inv ta A (clientRan (on_csession e (SessionID f) (\<lambda>s. (onUpstreamAck (Offset f) s, [])) (clt d)) d)"
    "ftype f = TypeClose \<Longrightarrow> deploy_inv ta A (clientRan (on_csession e (SessionID f) (onClose (Dir f)) (clt d)) d)"
    by (rule run; simp add: stypes_def csess_frame_def fun_eq_iff)+
  moreover have "deploy_inv ta A (clientRan ((clt d)\<lparr>lastPong := t\<rparr>, []) d)" "deploy_inv ta A (clientRan (clt d, []) d)" for t
    by (rule client_rest [OF inv]; simp)+
  moreover have "deploy_inv ta A (clientRan (clt d, fst (tun_write e tc (zero_frame\<lparr>ftype := TypePong, Nonce := n\<rparr>))) d)" for n
    by (rule client_rest [OF inv]) (simp_all add: tun_write_def clFrames_def stypes_def)
  ultimately show ?thesis by (simp add: dispatch_def)
qed

lemma clFrames_write: "clFrames (fst (tun_write e tc f)) \<subseteq> {f}" "clAgent i (fst (tun_write e tc f)) = []"
  by (auto simp: tun_write_def clFrames_def)

lemma clientRan_append: "clientRan (clt d, ws @ ws') d = clientRan (clt d, ws') (clientRan (clt d, ws) d)"
  by (simp add: clientRan_def Un_assoc)

lemma attachAll_inv:
  assumes "deploy_inv ta A d" and "creg (clt d)" and "set order \<subseteq> csessions (clt d)"
  shows "deploy_inv ta A (clientRan (clt d, attachAll e tc order (clt d)) d)"
  using assms
proof (induction order arbitrary: d)
  case Nil
  then show ?case by (simp add: clientRan_def)
next
  case (Cons i order)
  then obtain s where s: "cobjs (clt d) i = Some s" "\<not> cs_dead s" "cs_sessionID s = i"
    by (auto simp: creg_def)
  let ?ws = "fst (tun_write e tc (attachFrame s))"
  let ?d = "clientRan (clt d, ?ws) d"
  have "deploy_inv ta A ?d"
  proof (rule csession_changes [OF Cons.prems(1) s(1), where s' = s and F = "clFrames ?ws"])
    fix w \<sigma>
    assume \<sigma>: "sim A d i w \<sigma>"
    then have sc: "sc \<sigma> = s" using simD(2) s by fastforce
    let ?\<sigma> = "\<sigma>\<lparr>toBroker := insert (attachFrame (sc \<sigma>)) (toBroker \<sigma>)\<rparr>"
    have "treach ?\<sigma>" by (rule treach.step [OF simD(1) [OF \<sigma>] tstep.reconnects]) (use sc s in simp)
    moreover have "bpart A ?d i tgt w ?\<sigma> = bpart A d i tgt w \<sigma>" for tgt by (cases w) simp_all
    ultimately have "sim A ?d i w ?\<sigma>" using \<sigma> clFrames_write(1) [of e tc "attachFrame s"] clFrames_write(2) sc by (auto simp: sim_def rel_def)
    then show "\<exists>\<sigma>'. sim A ?d i w \<sigma>'" ..
  qed (use s clFrames_write(1) [of e tc "attachFrame s"] clFrames_write(2) in \<open>auto simp: attachFrame_def\<close>)
  from Cons.IH [OF this] show ?case using Cons.prems s by (simp add: clientRan_append)
qed

lemma connects_inv:
  assumes inv: "deploy_inv ta A d" and reg: "creg (clt d)" and o: "set order \<subseteq> csessions (clt d)"
  shows "deploy_inv ta A (clientRan (clrun (ClConnect e tc actor order) (clt d)) d)"
proof -
  let ?h = "fst (tun_write e tc (zero_frame\<lparr>ftype := TypeHello, ActorID := actor\<rparr>))"
  let ?c = "(clt d)\<lparr>conn := Some tc, lastPong := cclock e\<rparr>"
  have h: "\<forall>f\<in>clFrames ?h. ftype f \<notin> stypes"
    using clFrames_write(1) [of e tc "zero_frame\<lparr>ftype := TypeHello, ActorID := actor\<rparr>"] by (auto simp: stypes_def)
  have failed: "deploy_inv ta A (clientRan (clt d, ?h @ [ClCloseTunnel tc]) d)"
    by (rule client_rest [OF inv]) (use h clFrames_write(2) in \<open>simp_all add: clFrames_def\<close>)
  let ?d = "clientRan (?c, ?h) d"
  have d: "deploy_inv ta A ?d" by (rule client_rest [OF inv]) (use h clFrames_write(2) in simp_all)
  have "deploy_inv ta A (clientRan (clt ?d, attachAll e tc order (clt ?d)) ?d)"
    by (rule attachAll_inv [OF d]) (use reg o in \<open>simp_all add: creg_def\<close>)
  then have "deploy_inv ta A (clientRan (?c, ?h @ attachAll e tc order ?c) d)" by (simp add: clientRan_def Un_assoc)
  then show ?thesis using failed by (simp add: connectStart_def Let_def split_beta)
qed


lemma csession_added:
  assumes inv: "deploy_inv ta A d" and new: "cobjs (clt d) i = None"
    and cl: "cobjs (clt d') = (cobjs (clt d))(i \<mapsto> newClientSession (SessionBuffer (ccfg (clt d))) i tgt h)" "ccfg (clt d') = ccfg (clt d)"
    and same: "br d' = br d" "netS d' = netS d" "dUpGot d' = dUpGot d" "dUpSent d' = dUpSent d" "dReader d' = dReader d"
      "dAgentSent d' = dAgentSent d" "dAgentGot d' = dAgentGot d"
    and F: "netB d' = netB d \<union> F" "F \<subseteq> {open_frame i tgt}"
  shows "deploy_inv ta A d'"
proof -
  let ?s = "newClientSession (SessionBuffer (ccfg (clt d))) i tgt h"
  have b: "broker_wf ta A d" and c: "client_wf d" and sm: "simulated A d" using inv by (auto simp: deploy_inv_def)
  have t: "cs_target ?s = tgt" by (simp add: newClientSession_def)
  have fresh: "rel i (netB d) = {}" "rel i (netS d) = {}" "mine A (br d) i = {}"
    using c b new by (fastforce simp: client_wf_def broker_wf_def obj_ok_def known_def rel_def mine_def)+
  have old: "cobjs (clt d') j \<noteq> None" if "cobjs (clt d) j \<noteq> None" for j using that cl(1) by auto
  have "obj_ok ta A (clt d') x" if "obj_ok ta A (clt d) x" for x using that old by (auto simp: obj_ok_def)
  then have "broker_wf ta A d'" by (intro broker_wfI) (simp_all add: same broker_wfD [OF b])
  moreover have "client_wf d'"
  proof -
    have "known (clt d') (open_frame i tgt)" by (simp add: known_def cl t open_frame_def)
    moreover have "known (clt d') f" if "f \<in> netB d" "ftype f \<in> stypes" for f
      using that c new by (auto simp: client_wf_def known_def cl)
    ultimately have "known (clt d') f" if "f \<in> netB d'" "ftype f \<in> stypes" for f
      using that F by blast
    moreover have "dAgentSent d' j = [] \<and> dAgentGot d' j = []" if "cobjs (clt d') j = None" for j
      using that c cl(1) same by (auto simp: client_wf_def split: if_splits)
    ultimately show ?thesis using c old cl(2) same(2) by (simp add: client_wf_def)
  qed
  moreover have "\<exists>\<sigma>. sim A d' j w \<sigma>" if j: "cobjs (clt d') j \<noteq> None" "owned A (br d') j w" for j w
  proof (cases "j = i")
    case True
    then obtain x where w: "w = Inl x" using j(2) fresh(3) same(1) by (cases w) auto
    let ?\<sigma> = "tsys_init (SessionBuffer (ccfg (clt d))) (SessionBufferBytes (cfg (br d))) x A i tgt h"
    have "treach ?\<sigma>" by (rule treach.init) (use c b in \<open>auto simp: client_wf_def broker_wf_def\<close>)
    moreover have "dAgentSent d i = []" "dAgentGot d i = []" using c new by (simp_all add: client_wf_def)
    ultimately have "sim A d' j w ?\<sigma>"
      using True F(2) fresh by (auto simp: sim_def tsys_init_def cl t w same F(1) rel_def)
    then show ?thesis ..
  next
    case False
    then obtain \<sigma> where \<sigma>: "sim A d j w \<sigma>" using simulatedD [OF sm, of j w] j cl(1) same(1) by auto
    have "rel j F = {}" using F(2) False by (auto simp: rel_def open_frame_def)
    moreover have "bpart A d' j tgt w \<sigma> = bpart A d j tgt w \<sigma>" for tgt using same by (cases w) simp_all
    ultimately have "sim A d' j w \<sigma>" using \<sigma> False cl(1) same F(1) by (simp add: sim_def)
    then show ?thesis ..
  qed
  ultimately show ?thesis by (auto simp: deploy_inv_def simulated_def)
qed

lemma opens_inv:
  assumes inv: "deploy_inv ta A d" and new: "cobjs (clt d) (nextID (clt d) + 1) = None"
  shows "deploy_inv ta A (clientRan (clrun (ClOpen e tgt h) (clt d)) d)"
proof -
  have "clFrames (snd (clrun (ClOpen e tgt h) (clt d))) \<subseteq> {open_frame (nextID (clt d) + 1) tgt}"
    "clAgent j (snd (clrun (ClOpen e tgt h) (clt d))) = []" for j
    by (auto simp: OpenSession_def Let_def send_def tun_write_def clFrames_def open_frame_def split: option.splits)
  then show ?thesis
    by (intro csession_added [OF inv new, where tgt = tgt and h = h])
      (auto simp: OpenSession_def Let_def clientRan_def)
qed


section \<open>The simulation\<close>

lemma deploy_inv_step:
  assumes inv: "deploy_inv ta A d" and reg: "creg (clt d)" and step: "dstep ta A d d'"
  shows "deploy_inv ta A d'"
  using step
proof cases
  case (agent_opens e tgt h)
  then show ?thesis using opens_inv [OF inv] by blast
next
  case (agent_writes i p r e)
  then show ?thesis using agent_writes_inv [OF inv reg] by blast
next
  case (agent_closes e i reason)
  have "deploy_inv ta A (clientRan (run_csession e i (closeUp reason) (clt d)) d)"
    by (rule csession_runs [OF inv reg clawful_methods(4) cframed_methods(4)]) (rule tstep.agent_closes)
  then show ?thesis using agent_closes by (simp add: CloseUp_def)
next
  case (connects order e tc)
  then show ?thesis using connects_inv [OF inv reg] by blast
next
  case (disconnects tc)
  have "deploy_inv ta A (clientRan (connectEnd tc (clt d)) d)"
    by (rule client_rest [OF inv]) (simp_all add: connectEnd_def clFrames_def)
  then show ?thesis using disconnects by simp
next
  case (sidecar_receives f e tc)
  then show ?thesis using dispatch_inv [OF inv reg] by simp
next
  case (broker_receives tc f e)
  then show ?thesis using handleFrame_runs [OF inv] by simp
next
  case (upstream_sends n s p e err s' es rd)
  have "tstep \<sigma> ((reader_ran (s', es, rd) \<sigma>)\<lparr>upSent := dUpSent d n @ p\<rparr>)"
    if "sim A d (sessionID s) (Inr n) \<sigma>" "bs \<sigma> = s" for \<sigma>
    using tstep.upstream_sends [of \<sigma> p "at_cfg (br d) e" err] simD(3) [OF that(1)] that(2) upstream_sends by simp
  then show ?thesis using read_runs [OF inv] upstream_sends by blast
next
  case (reader_retries n s q err e s' es rd)
  have "tstep \<sigma> ((reader_ran (s', es, rd) \<sigma>)\<lparr>upSent := dUpSent d n\<rparr>)"
    if "sim A d (sessionID s) (Inr n) \<sigma>" "bs \<sigma> = s" for \<sigma>
  proof -
    have "reader_st \<sigma> = Holding q err" "upSent \<sigma> = dUpSent d n" using simD(3) [OF that(1)] reader_retries by simp_all
    moreover from this have "(reader_ran (s', es, rd) \<sigma>)\<lparr>upSent := dUpSent d n\<rparr> = reader_ran (s', es, rd) \<sigma>"
      unfolding reader_ran_def broker_ran_def by (intro tsys.equality) simp_all
    ultimately show ?thesis using tstep.reader_retries [of \<sigma> q err "at_cfg (br d) e"] that(2) reader_retries by simp
  qed
  from read_runs [OF inv _ _ this] reader_retries
  have "deploy_inv ta A ((brokerRan ta A (bstep ta (BRead n e q err) (br d)) d)
      \<lparr>dUpSent := (dUpSent d)(n := dUpSent d n), dReader := (dReader d)(n := rd)\<rparr>)" by blast
  moreover have "(brokerRan ta A r d)\<lparr>dUpSent := dUpSent d, dReader := x\<rparr> = (brokerRan ta A r d)\<lparr>dReader := x\<rparr>" for r x
    unfolding brokerRan_def by (intro deploy.equality) simp_all
  ultimately show ?thesis using reader_retries by (simp only: fun_upd_triv)
qed (use broker_steps_inv [OF inv] in blast)+

lemma deploy_inv_reach: "dreach ta A bc cc d \<Longrightarrow> deploy_inv ta A d"
proof (induction rule: dreach.induct)
  case start
  then show ?case
    by (simp add: deploy_inv_def broker_wf_def client_wf_def simulated_def deploy0_def New_def withDefaults_def NewClient_def)
next
  case (happens d d')
  have "creg (clt d)" using dreach_parts [OF happens(1)] clreach_creg by blast
  then show ?case using deploy_inv_step happens by blast
qed

lemma session_simulated:
  assumes "dreach ta A bc cc d" and "cobjs (clt d) i \<noteq> None" and "owned A (br d) i w"
  shows "\<exists>\<sigma>. sim A d i w \<sigma>"
  using simulatedD deploy_inv_reach [OF assms(1)] assms(2,3) unfolding deploy_inv_def by blast


section \<open>Properties\<close>


text \<open>
  A run: the client connects, opens a session and sends two bytes on it; the broker admits the
  session, queues the bytes and writes them out when its dial has succeeded.
\<close>

definition dw_ta :: "nat \<Rightarrow> string" where "dw_ta tc = (if tc = 2 then ''ns/b'' else ''ns/a'')"

definition dw_cfg :: Config where
  "dw_cfg = \<lparr>SessionBufferBytes = 100, cfgMaxSuspendWatchdog = 300, DialTimeout = 1, TunnelReadTimeout = 1, AllowTarget = None\<rparr>"

definition dw1 :: deploy where
  "dw1 = clientRan (clrun (ClConnect all_ok 1 ''ns/a'' []) (clt (deploy0 dw_cfg std_cfg))) (deploy0 dw_cfg std_cfg)"

definition dw2 :: deploy where
  "dw2 = clientRan (clrun (ClOpen all_ok ''x:80'' True) (clt dw1)) dw1"

definition dw3 :: deploy where
  "dw3 = (let r = clrun (ClWriteUp all_ok 1 [1, 2]) (clt dw2)
     in (clientRan r dw2)\<lparr>dAgentSent := (dAgentSent dw2)(1 := dAgentSent dw2 1 @ taken_up 1 (clt dw2) (fst r))\<rparr>)"

definition dw4 :: deploy where
  "dw4 = brokerRan dw_ta ''ns/a'' (bstep dw_ta (BFrame 1 fair_env (open_frame 1 ''x:80'')) (br dw3)) dw3"

definition dw5 :: deploy where
  "dw5 = brokerRan dw_ta ''ns/a'' (bstep dw_ta (BFrame 1 fair_env (data_frame 1 0 [1, 2])) (br dw4)) dw4"

definition dw6 :: deploy where
  "dw6 = brokerRan dw_ta ''ns/a'' (bstep dw_ta (BDial 0 fair_env None) (br dw5)) dw5"

lemma dw2_state:
  "clt dw2 = \<lparr>ccfg = ccfg (NewClient std_cfg), nextID = 1, conn = Some 1, cobjs = [1 \<mapsto> newClientSession 4194304 1 ''x:80'' True],
     csessions = {1}, lastPong = 0\<rparr>"
  "open_frame 1 ''x:80'' \<in> netB dw2" "br dw2 = New dw_cfg" "dAgentSent dw2 = (\<lambda>_. [])" "dAgentGot dw2 = (\<lambda>_. [])"
  "dUpGot dw2 = (\<lambda>_. [])"
  by (simp_all add: dw2_def dw1_def deploy0_def connectStart_def tun_write_def all_ok_def encodable_def known_type_def
      zero_frame_def OpenSession_def Let_def NewClient_def std_cfg_def send_def clientRan_def clFrames_def open_frame_def maxString_def)


lemma dw3_state:
  "cobjs (clt dw3) = [1 \<mapsto> (newClientSession 4194304 1 ''x:80'' True)\<lparr>upBuf := \<lparr>base = 0, buf = [1, 2], rmax = 4194304\<rparr>\<rparr>]"
  "{open_frame 1 ''x:80'', data_frame 1 0 [1, 2]} \<subseteq> netB dw3" "br dw3 = New dw_cfg" "dAgentSent dw3 1 = [1, 2]"
  "dUpGot dw3 = (\<lambda>_. [])"
  using dw2_state(2)
  by (simp_all add: dw3_def dw2_state WriteUpTurn_def Let_def newClientSession_def handler_defs taken_up_def taken_def
      send_def tun_write_def all_ok_def encodable_def known_type_def zero_frame_def clFrames_def)

lemma dw4_state:
  "objs (br dw4) = [0 \<mapsto> (newSession 100 0 ''ns/a'' 1 ''x:80'')\<lparr>tconn := Some 1\<rparr>]" "sessions (br dw4) = [(''ns/a'', 1) \<mapsto> 0]"
  "cfg (br dw4) = dw_cfg" "dUpGot dw4 = (\<lambda>_. [])"
  by (simp_all add: dw4_def dw3_state handleFrame_def openSession_def allowed_def lookup_def New_def withDefaults_def
      dw_cfg_def dw_ta_def open_frame_def zero_frame_def at_cfg_def bindTo_def register_def bind_def fair_env_def newSession_def Let_def fun_eq_iff)

lemma dw5_state:
  "objs (br dw5) = [0 \<mapsto> (newSession 100 0 ''ns/a'' 1 ''x:80'')\<lparr>tconn := Some 1, preConn := [1, 2]\<rparr>]"
  "cfg (br dw5) = dw_cfg" "dUpGot dw5 = (\<lambda>_. [])"
  by (simp_all add: dw5_def dw4_state handleFrame_def on_session_def run_session_def lookup_def dw_ta_def
      at_cfg_def newSession_def handler_defs data_frame_def zero_frame_def fun_eq_iff)

lemma dw5_rest: "clt dw5 = clt dw3" "dAgentSent dw5 = dAgentSent dw3"
  and dw5_object: "objs (br dw5) 0 = Some ((newSession 100 0 ''ns/a'' 1 ''x:80'')\<lparr>tconn := Some 1, preConn := [1, 2]\<rparr>)"
  by (simp_all add: dw5_state) (simp_all add: dw5_def dw4_def)

lemma dw6_state: "mine ''ns/a'' (br dw6) 1 = {0}" "dUpGot dw6 0 = [1, 2]"
  by (auto simp: dw6_def dw5_state run_session_def at_cfg_def newSession_def handler_defs dw_cfg_def mine_def split: if_splits)

lemma dw6_client: "cobjs (clt dw6) 1 \<noteq> None"
  by (simp add: dw6_def dw5_rest dw3_state)

lemma dreach_dw3: "dreach dw_ta ''ns/a'' dw_cfg std_cfg dw3"
proof -
  have 0: "dreach dw_ta ''ns/a'' dw_cfg std_cfg (deploy0 dw_cfg std_cfg)"
    by (rule dreach.start) (simp_all add: dw_cfg_def std_cfg_def)
  have 1: "dreach dw_ta ''ns/a'' dw_cfg std_cfg dw1"
    unfolding dw1_def by (rule dreach.happens [OF 0 dstep.connects]) simp
  have 2: "dreach dw_ta ''ns/a'' dw_cfg std_cfg dw2"
    unfolding dw2_def by (rule dreach.happens [OF 1 dstep.agent_opens]) (simp add: dw1_def deploy0_def NewClient_def connectStart_def Let_def split_beta)
  show ?thesis
    unfolding dw3_def Let_def by (rule dreach.happens [OF 2 dstep.agent_writes [OF _ refl]]) (simp add: dw2_state)
qed

lemma dreach_dw6: "dreach dw_ta ''ns/a'' dw_cfg std_cfg dw5" "dreach dw_ta ''ns/a'' dw_cfg std_cfg dw6"
proof -
  have 4: "dreach dw_ta ''ns/a'' dw_cfg std_cfg dw4"
    unfolding dw4_def by (rule dreach.happens [OF dreach_dw3 dstep.broker_receives]) (use dw3_state(2) in blast)
  have "netB dw4 = netB dw3" by (simp add: dw4_def)
  then show 5: "dreach dw_ta ''ns/a'' dw_cfg std_cfg dw5"
    unfolding dw5_def by (intro dreach.happens [OF 4 dstep.broker_receives]) (use dw3_state(2) in blast)
  show "dreach dw_ta ''ns/a'' dw_cfg std_cfg dw6"
    unfolding dw6_def by (rule dreach.happens [OF 5 dstep.dials [OF dw5_object]]) (simp add: newSession_def)
qed




end
