(* ===== verification/Reconnect.thy ===== *)
theory Reconnect
  imports Deployment
begin

text \<open>
  The sidecar's \<^verbatim>\<open>Client.Run\<close> and \<^verbatim>\<open>connectOnce\<close> of \<^verbatim>\<open>internal/sidecar/client.go\<close> as a
  whole: connect, announce, re-attach, serve the tunnel until it fails, pause, and again, until the
  context is cancelled. What the agent and the broker do meanwhile is interleaved as events of the
  client.
\<close>

section \<open>The loop\<close>

text \<open>
  One turn: the tunnel that the dial yields, if any; the identity read and the map order at that
  moment; what happens while the read loop runs and during the pause that follows; and whether the
  context is cancelled by the end of the pause.
\<close>

record attempt =
  at_dial :: "nat option"
  at_env :: cenv
  at_actor :: string
  at_order :: "client \<Rightarrow> u64 list"
  at_serving :: "clevent list"
  at_pause :: "clevent list"
  at_cancel :: bool

fun runEvents :: "clevent list \<Rightarrow> clhandler" where
  "runEvents [] c = (c, [])"
| "runEvents (ev # evs) c = (let (c1, ws1) = clrun ev c; (c2, ws2) = runEvents evs c1 in (c2, ws1 @ ws2))"

definition connectOnce :: "attempt \<Rightarrow> clhandler" where
  "connectOnce a c =
     (case at_dial a of
        None \<Rightarrow> (c, [])
      | Some tc \<Rightarrow>
          (case connectStart (at_env a) tc (at_actor a) (at_order a c) c of (c1, ws1, ok) \<Rightarrow>
             if \<not> ok then (c1, ws1)
             else (let (c2, ws2) = runEvents (at_serving a) c1; (c3, ws3) = connectEnd tc c2 in (c3, ws1 @ ws2 @ ws3))))"

fun Run :: "attempt list \<Rightarrow> clhandler" where
  "Run [] c = (c, [])"
| "Run (a # as) c =
     (let (c1, ws1) = connectOnce a c; (c2, ws2) = runEvents (at_pause a) c1
      in if at_cancel a then (c2, ws1 @ ws2)
         else (let (c3, ws3) = Run as c2 in (c3, ws1 @ ws2 @ ws3)))"

text \<open>Nothing but the loop connects and disconnects the client.\<close>

definition in_tunnel :: "clevent \<Rightarrow> bool" where
  "in_tunnel ev = (case ev of ClConnect _ _ _ _ \<Rightarrow> False | ClDisconnect _ \<Rightarrow> False | _ \<Rightarrow> True)"

definition proper :: "attempt \<Rightarrow> bool" where
  "proper a \<longleftrightarrow> (\<forall>ev\<in>set (at_serving a @ at_pause a). in_tunnel ev)"

section \<open>Lemmas\<close>

lemma runEvents_reach: "clreach cc c \<Longrightarrow> clreach cc (fst (runEvents evs c))"
proof (induction evs arbitrary: c)
  case (Cons ev evs)
  have "clreach cc (fst (clrun ev c))" using Cons.prems by (simp add: fst_clrun clreach.happens)
  then show ?case using Cons.IH by (simp add: split_beta)
qed simp

lemma connectOnce_reach:
  assumes "clreach cc c"
  shows "clreach cc (fst (connectOnce a c))"
proof (cases "at_dial a")
  case None
  then show ?thesis using assms by (simp add: connectOnce_def)
next
  case (Some tc)
  obtain c1 ws1 ok where s: "connectStart (at_env a) tc (at_actor a) (at_order a c) c = (c1, ws1, ok)"
    by (cases "connectStart (at_env a) tc (at_actor a) (at_order a c) c")
  have "clreach cc c1"
    using clreach.happens [OF assms, of "ClConnect (at_env a) tc (at_actor a) (at_order a c)"] s by simp
  moreover from this have "clreach cc (fst (connectEnd tc (fst (runEvents (at_serving a) c1))))"
    using clreach.happens [OF runEvents_reach, of cc c1 "ClDisconnect tc" "at_serving a"] by simp
  ultimately show ?thesis using Some s by (simp add: connectOnce_def split_beta)
qed

lemma Run_reach: "clreach cc c \<Longrightarrow> clreach cc (fst (Run as c))"
proof (induction as arbitrary: c)
  case (Cons a as)
  have "clreach cc (fst (runEvents (at_pause a) (fst (connectOnce a c))))"
    using Cons.prems by (intro runEvents_reach connectOnce_reach)
  then show ?case using Cons.IH by (simp add: split_beta)
qed simp

lemma Run_append:
  "\<forall>a\<in>set as. \<not> at_cancel a \<Longrightarrow> Run (as @ rest) c = (let (c1, ws1) = Run as c; (c2, ws2) = Run rest c1 in (c2, ws1 @ ws2))"
  by (induction as arbitrary: c) (simp_all add: split_beta Let_def)

lemma conn_in_tunnel: "in_tunnel ev \<Longrightarrow> conn (fst (clrun ev c)) = conn c"
proof (cases ev)
  case (ClOpen e tgt h)
  then show ?thesis by (simp add: OpenSession_def Let_def)
next
  case (ClWriteUp e i p)
  then show ?thesis
    using ccallbacks_state by (auto simp: WriteUpTurn_def split_beta split: option.splits)
next
  case (ClCloseUp e i reason)
  then show ?thesis using ccallbacks_state by (auto simp: CloseUp_def run_csession_def split_beta split: option.splits)
next
  case (ClFrame e tc f)
  have "conn (fst (on_csession e i m c)) = conn c" for i m
    using ccallbacks_state by (auto simp: on_csession_def run_csession_def split_beta split: option.splits)
  then show ?thesis using ClFrame by (simp add: dispatch_def)
qed (simp_all add: in_tunnel_def)

lemma conn_runEvents: "\<forall>ev\<in>set evs. in_tunnel ev \<Longrightarrow> conn (fst (runEvents evs c)) = conn c"
  by (induction evs arbitrary: c) (simp_all add: split_beta conn_in_tunnel)

lemma conn_connectOnce:
  assumes "conn c = None" and "proper a"
  shows "conn (fst (connectOnce a c)) = None"
proof (cases "at_dial a")
  case None
  then show ?thesis using assms by (simp add: connectOnce_def)
next
  case (Some tc)
  have "conn (fst (connectEnd tc (fst (runEvents (at_serving a) c1)))) = None" if "conn c1 = Some tc" for c1
    using assms(2) that conn_runEvents [of "at_serving a" c1] by (auto simp: proper_def connectEnd_def)
  then show ?thesis
    using Some assms(1) by (auto simp: connectOnce_def connectStart_def Let_def split_beta)
qed

lemma conn_Run: "conn c = None \<Longrightarrow> \<forall>a\<in>set as. proper a \<Longrightarrow> conn (fst (Run as c)) = None"
proof (induction as arbitrary: c)
  case (Cons a as)
  have "conn (fst (runEvents (at_pause a) (fst (connectOnce a c)))) = None"
    using Cons.prems conn_connectOnce [of c a] conn_runEvents [of "at_pause a"] by (simp add: proper_def)
  then show ?case using Cons by (simp add: split_beta)
qed simp

section \<open>Properties\<close>

text \<open>
  C11. The tunnel heals. Take a client that is not connected and any sequence of attempts, none of
  them cancelled, that failed or were cut in any way, with anything the agent did meanwhile. The
  client is then not connected, whatever happened; and if the next dial succeeds, over a socket
  that takes the frames, the loop writes on the new tunnel the HELLO with the actor's name of that
  moment, and then for every session still alive its ATTACH with the offset delivered so far.
\<close>

theorem run_heals:
  assumes "clreach cc c" and "conn c = None" and "\<forall>a\<in>set as. proper a \<and> \<not> at_cancel a" and "c' = fst (Run as c)"
    and "at_dial a = Some tc" and "\<forall>f. ctun_ok (at_env a) f" and "set (at_order a c') = csessions c'"
    and "length (at_actor a) \<le> maxString" and "\<forall>i s. cobjs c' i = Some s \<longrightarrow> length (cs_target s) \<le> maxString"
  shows "conn c' = None \<and>
    (\<exists>ws. snd (Run (as @ [a]) c) =
       snd (Run as c) @ ClWrite tc (zero_frame\<lparr>ftype := TypeHello, ActorID := at_actor a\<rparr>) #
       map (\<lambda>i. ClWrite tc (attachFrame (the (cobjs c' i)))) (at_order a c') @ ws) \<and>
    (\<forall>i. i \<in> set (at_order a c') \<longleftrightarrow> (\<exists>s. cobjs c' i = Some s \<and> \<not> cs_dead s))"
proof -
  have reg: "creg c'" using Run_reach [OF assms(1)] clreach_creg assms(4) by blast
  have live: "i \<in> set (at_order a c') \<longleftrightarrow> (\<exists>s. cobjs c' i = Some s \<and> \<not> cs_dead s)" for i
    using reg assms(7) by (simp add: creg_def)
  let ?h = "zero_frame\<lparr>ftype := TypeHello, ActorID := at_actor a\<rparr>"
  let ?c = "c'\<lparr>conn := Some tc, lastPong := cclock (at_env a)\<rparr>"
  have "attachAll (at_env a) tc (at_order a c') ?c = map (\<lambda>i. ClWrite tc (attachFrame (the (cobjs ?c i)))) (at_order a c')"
    by (rule attachAll_writes) (use assms(6,9) live in \<open>auto\<close>)
  moreover have "tun_write (at_env a) tc ?h = ([ClWrite tc ?h], True)"
    using assms(6,8) by (simp add: tun_write_def encodable_def known_type_def zero_frame_def)
  ultimately obtain ws where w: "snd (connectOnce a c') =
      ClWrite tc ?h # map (\<lambda>i. ClWrite tc (attachFrame (the (cobjs c' i)))) (at_order a c') @ ws"
    using assms(5) by (simp add: connectOnce_def connectStart_def split_beta)
  have "\<forall>a\<in>set as. \<not> at_cancel a" using assms(3) by blast
  then have "snd (Run (as @ [a]) c) =
      snd (Run as c) @ snd (connectOnce a c') @ snd (runEvents (at_pause a) (fst (connectOnce a c')))"
    by (simp add: Run_append assms(4) split_beta Let_def)
  then have "\<exists>ws. snd (Run (as @ [a]) c) = snd (Run as c) @ ClWrite tc ?h #
      map (\<lambda>i. ClWrite tc (attachFrame (the (cobjs c' i)))) (at_order a c') @ ws"
    unfolding w append_Cons append_assoc by blast
  moreover have "conn c' = None" unfolding assms(4) by (rule conn_Run [OF assms(2)]) (use assms(3) in blast)
  ultimately show ?thesis using live by blast
qed


definition no_answer :: attempt where
  "no_answer = \<lparr>at_dial = None, at_env = all_ok, at_actor = ''ns/golden'', at_order = (\<lambda>_. []), at_serving = [], at_pause = [],
     at_cancel = False\<rparr>"

definition answered_dial :: attempt where
  "answered_dial = no_answer\<lparr>at_dial := Some 4, at_actor := ''ns/a'', at_order := (\<lambda>_. [1])\<rparr>"

theorem run_heals_witness:
  "\<exists>ws. snd (Run [no_answer, answered_dial] one_session) =
     ClWrite 4 (zero_frame\<lparr>ftype := TypeHello, ActorID := ''ns/a''\<rparr>) #
     ClWrite 4 (zero_frame\<lparr>ftype := TypeAttach, SessionID := 1, Target := ''x:80''\<rparr>) # ws"
proof -
  have r: "Run [no_answer] one_session = (one_session, [])" by (simp add: no_answer_def connectOnce_def)
  have c: "cobjs one_session = [1 \<mapsto> newClientSession 4194304 1 ''x:80'' True]" "conn one_session = None"
    by (simp_all add: one_session_def OpenSession_def NewClient_def std_cfg_def Let_def)
  have t: "\<forall>i s. cobjs one_session i = Some s \<longrightarrow> length (cs_target s) \<le> maxString"
    by (auto simp: c newClientSession_def maxString_def split: if_splits)
  have "\<exists>ws. snd (Run ([no_answer] @ [answered_dial]) one_session) =
      snd (Run [no_answer] one_session) @ ClWrite 4 (zero_frame\<lparr>ftype := TypeHello, ActorID := at_actor answered_dial\<rparr>) #
      map (\<lambda>i. ClWrite 4 (attachFrame (the (cobjs one_session i)))) (at_order answered_dial one_session) @ ws"
    by (rule run_heals [OF clreach_one_session c(2), THEN conjunct2, THEN conjunct1])
      (use t in \<open>simp_all add: r answered_dial_def no_answer_def proper_def all_ok_def maxString_def one_session_state connectOnce_def\<close>)
  moreover have "at_actor answered_dial = ''ns/a''" "at_order answered_dial one_session = [1]" by (simp_all add: answered_dial_def)
  moreover have "attachFrame (the (cobjs one_session 1)) = zero_frame\<lparr>ftype := TypeAttach, SessionID := 1, Target := ''x:80''\<rparr>"
    by (simp add: c newClientSession_def attachFrame_def zero_frame_def)
  ultimately show ?thesis by (simp only: r append.simps list.map snd_conv)
qed

end
