(* ===== verification/Recovery.thy ===== *)
theory Recovery
  imports Reconnect
begin

text \<open>
  A reconnect of the whole client: HELLO, the ATTACH of every live session, the broker's answers to
  all of them on the one tunnel, and the client's answers to those. Seen from one session the
  others' frames are noise, so that the round of \<open>Tunnel_System\<close> is repeated for every session at
  once, and every stream is completed.
\<close>

section \<open>An undisturbed tunnel\<close>

text \<open>The frames that a run of the broker, or of the client, writes on one tunnel, in order.\<close>

fun tunnelOut :: "nat \<Rightarrow> beffect list \<Rightarrow> frame list" where
  "tunnelOut tc [] = []"
| "tunnelOut tc (SessionEffect n (TunnelWrite t f) # es) = (if t = tc then [f] else []) @ tunnelOut tc es"
| "tunnelOut tc (ConnWrite t f # es) = (if t = tc then [f] else []) @ tunnelOut tc es"
| "tunnelOut tc (_ # es) = tunnelOut tc es"

fun clientOut :: "nat \<Rightarrow> cleffect list \<Rightarrow> frame list" where
  "clientOut tc [] = []"
| "clientOut tc (ClWrite t f # ws) = (if t = tc then [f] else []) @ clientOut tc ws"
| "clientOut tc (_ # ws) = clientOut tc ws"

text \<open>The client's \<^verbatim>\<open>readLoop\<close> on the frames that arrive, and the start of the broker's \<^verbatim>\<open>serveTunnel\<close>.\<close>

fun readLoop :: "cenv \<Rightarrow> nat \<Rightarrow> frame list \<Rightarrow> clhandler" where
  "readLoop e tc [] c = (c, [])"
| "readLoop e tc (f # fs) c =
     (let (c1, ws1) = dispatch e tc f c; (c2, ws2) = readLoop e tc fs c1 in (c2, ws1 @ ws2))"

fun greeted :: "nat \<Rightarrow> (env \<times> frame) list \<Rightarrow> bhandler" where
  "greeted tc [] b = (b, [])"
| "greeted tc ((e, first) # fs) b =
     (if ftype first \<noteq> TypeHello \<or> ActorID first = [] then (b, []) else serveLoop (ActorID first) tc fs b)"

text \<open>
  The whole exchange: the client connects, the broker serves what it wrote, the client reads the
  answers, and the broker serves what the client wrote on reading them. The results are the new
  states with the effects at the broker and those of the client's reading.
\<close>

definition recover ::
  "env \<Rightarrow> cenv \<Rightarrow> nat \<Rightarrow> string \<Rightarrow> u64 list \<Rightarrow> broker \<Rightarrow> client \<Rightarrow> broker \<times> client \<times> beffect list \<times> cleffect list" where
  "recover e ce tc actor order b c =
     (let (c1, ws1, ok) = connectStart ce tc actor order c;
          (b1, es1) = greeted tc (map (Pair e) (clientOut tc ws1)) b;
          (c2, ws2) = readLoop ce tc (tunnelOut tc es1) c1;
          (b2, es2) = serveLoop actor tc (map (Pair e) (clientOut tc ws2)) b1
      in (b2, c2, es1 @ es2, ws2))"

definition ofSession :: "u64 \<Rightarrow> frame \<Rightarrow> bool" where
  "ofSession i f \<longleftrightarrow> SessionID f = i \<and> ftype f \<in> stypes"

lemma tunnelOut_append [simp]: "tunnelOut tc (es @ es') = tunnelOut tc es @ tunnelOut tc es'"
  by (induction tc es rule: tunnelOut.induct) simp_all

lemma clientOut_append [simp]: "clientOut tc (ws @ ws') = clientOut tc ws @ clientOut tc ws'"
  by (induction tc ws rule: clientOut.induct) simp_all

section \<open>What the broker's effects concern\<close>

definition concerns :: "nat \<Rightarrow> u64 \<Rightarrow> beffect list \<Rightarrow> bool" where
  "concerns n i es \<longleftrightarrow>
     (\<forall>k ef. SessionEffect k ef \<in> set es \<longrightarrow> k = n) \<and>
     (\<forall>k t f. SessionEffect k (TunnelWrite t f) \<in> set es \<longrightarrow> SessionID f = i) \<and>
     (\<forall>t f. ConnWrite t f \<in> set es \<longrightarrow> SessionID f = i \<or> ftype f \<notin> stypes)"

lemma concerns_simps [simp]:
  "concerns n i []" "concerns n i (es @ es') \<longleftrightarrow> concerns n i es \<and> concerns n i es'" "concerns n i [StartDial k]"
  by (auto simp: concerns_def)

lemma concerns_connWrite: "SessionID f = i \<or> ftype f \<notin> stypes \<Longrightarrow> concerns n i (connWrite e tc f)"
  by (simp add: concerns_def connWrite_def)

lemma callback_writes:
  "x \<in> set (snd (callback n s ef b)) \<Longrightarrow> x = SessionEffect n ef \<or> (\<exists>a. x = StartResume a)"
  by (cases ef) (auto simp: wake_def Let_def split_beta)

lemma callbacks_writes:
  "x \<in> set (snd (callbacks n s es b)) \<Longrightarrow> (\<exists>ef\<in>set es. x = SessionEffect n ef) \<or> (\<exists>a. x = StartResume a)"
  by (induction es arbitrary: b) (auto dest: callback_writes)

lemma concerns_run:
  assumes "objs b n = Some s" and "framed s (m s)"
  shows "concerns n (sessionID s) (snd (run_session n m b))"
proof -
  have "(\<exists>ef\<in>set (snd (m s)). x = SessionEffect n ef) \<or> (\<exists>a. x = StartResume a)"
    if "x \<in> set (snd (run_session n m b))" for x
    using that assms(1) callbacks_writes by (auto simp: run_session_def split_beta)
  then show ?thesis using assms(2) unfolding concerns_def framed_def by blast
qed

lemma concerns_reattach:
  assumes "objs b n = Some s"
  shows "concerns n (sessionID s) (snd (reattach e tc n off b))"
  using concerns_run [where b = "bindTo tc n b" and n = n and s = "bind tc s" and m = "onSidecarAttach e off"]
    bindTo_state(1) [OF assms, of tc]
  by (simp add: reattach_def bind_def framed_attach)


lemma handleFrame_concerns:
  assumes "reg_inv ta b"
  shows "\<exists>n. (n = nextObj b \<or> sessions b (ta tc, SessionID f) = Some n) \<and>
    concerns n (SessionID f) (snd (handleFrame e (ta tc) tc f b))"
proof (cases "sessions b (ta tc, SessionID f)")
  case (Some n)
  then obtain s where s: "objs b n = Some s" "sessionID s = SessionID f" using reg_invD(1) [OF assms Some] by auto
  have "concerns n (SessionID f) (snd (reattach e' tc n off b))" for e' off
    using concerns_reattach [OF s(1)] s(2) by simp
  moreover have "concerns n (SessionID f) (snd (run_session n m b))" if "\<And>s. framed s (m s)" for m
    using concerns_run [where m = m, OF s(1) that] s(2) by simp
  ultimately have "concerns n (SessionID f) (snd (handleFrame e (ta tc) tc f b))"
    using Some by (simp add: handleFrame_def Let_def openSession_def attachSession_def on_session_def lookup_def
        concerns_connWrite stypes_def framed_onData framed_ack framed_onSidecarClose)
  then show ?thesis using Some by blast
next
  case None
  let ?n = "nextObj b" and ?i = "SessionID f"
  have l: "lookup (ta tc) ?i b = None" using None by (simp add: lookup_def)
  have op: "concerns ?n ?i (snd (openSession e' (ta tc) tc g b))" if "SessionID g = ?i" for e' g
    using openSession_creates [of "ta tc" g b e' tc] l that by (simp add: concerns_connWrite)
  let ?o = "zero_frame\<lparr>ftype := TypeOpen, SessionID := ?i, Target := Target f\<rparr>"
  have run: "concerns ?n ?i (snd (case lookup (ta tc) ?i b' of None \<Rightarrow> (b', []) | Some ref \<Rightarrow> run_session ref (onSidecarAttach e' off) b'))"
    if "b' = fst (openSession e' (ta tc) tc ?o b)" for e' off b'
  proof (cases "allowed b (Target f)")
    case True
    then have b': "b' = bindTo tc ?n (created e' (ta tc) ?i (Target f) b)"
      using that openSession_creates [of "ta tc" ?o b e' tc] l by simp
    show ?thesis
      using bound_new [OF l b'] concerns_run [where b = b' and n = ?n and m = "onSidecarAttach e' off"]
      by (auto simp: bind_def framed_attach)
  next
    case False
    then show ?thesis using that openSession_creates [of "ta tc" ?o b e' tc] l by simp
  qed
  have "concerns ?n ?i (snd (attachSession e' (ta tc) tc f b))" for e'
    using l op [of ?o e'] run [OF refl, of e' "Offset f"] by (simp add: attachSession_def concerns_connWrite del: TypeOpen_def)
  then have "concerns ?n ?i (snd (handleFrame e (ta tc) tc f b))"
    using l op by (simp add: handleFrame_def Let_def on_session_def concerns_connWrite stypes_def)
  then show ?thesis by blast
qed

lemma concerns_other_up: "concerns n i es \<Longrightarrow> k \<noteq> n \<Longrightarrow> bUpstream k es = []"
proof -
  have "bUpstream k es = []" if "\<And>ef. SessionEffect k ef \<notin> set es"
    using that by (induction k es rule: bUpstream.induct) auto
  then show "concerns n i es \<Longrightarrow> k \<noteq> n \<Longrightarrow> bUpstream k es = []" by (auto simp: concerns_def)
qed

lemma concerns_other_out: "concerns n i es \<Longrightarrow> j \<noteq> i \<Longrightarrow> filter (ofSession j) (tunnelOut tc es) = []"
proof -
  have "f \<in> set (tunnelOut tc es) \<Longrightarrow> (\<exists>k. SessionEffect k (TunnelWrite tc f) \<in> set es) \<or> ConnWrite tc f \<in> set es" for f
    by (induction tc es rule: tunnelOut.induct) (auto split: if_splits)
  then show "concerns n i es \<Longrightarrow> j \<noteq> i \<Longrightarrow> filter (ofSession j) (tunnelOut tc es) = []"
    unfolding filter_empty_conv ofSession_def concerns_def by blast
qed

lemma cfg_handleFrame: "cfg (fst (handleFrame e actor tc f b)) = cfg b"
proof -
  have run: "cfg (fst (run_session n m b)) = cfg b" for n m b
    by (cases "objs b n") (simp_all add: run_session_none run_session_state)
  have bnd: "cfg (bindTo tc n b) = cfg b" for n b
    by (cases "objs b n") (simp add: bindTo_def, simp add: bindTo_state)
  show ?thesis
    by (auto simp: handleFrame_def Let_def openSession_def attachSession_def on_session_def reattach_def run bnd
        split: option.splits)
qed

section \<open>One session among the frames of all\<close>

text \<open>A frame of the session runs its handler; any other leaves it alone and says nothing to it.\<close>

lemma run_session_out:
  assumes "objs b n = Some s" and "framed s (m s)" and "tconn s \<in> {None, Some tc}"
  shows "tunnelOut tc (snd (run_session n m b)) = tunFrames (snd (m s))"
proof -
  have one: "tunnelOut tc (snd (callback n s' ef b')) = (case ef of TunnelWrite t f \<Rightarrow> if t = tc then [f] else [] | _ \<Rightarrow> [])"
    for s' ef b' by (cases ef) (auto simp: wake_def Let_def split_beta)
  have "tunnelOut tc (snd (callbacks n s' es b')) = tunFrames es" if "\<forall>t f. TunnelWrite t f \<in> set es \<longrightarrow> t = tc" for s' es b'
    using that by (induction es arbitrary: b') (auto simp: one split: effect.splits)
  moreover have "\<forall>t f. TunnelWrite t f \<in> set (snd (m s)) \<longrightarrow> t = tc" using assms(2,3) by (auto simp: framed_def)
  ultimately show ?thesis using assms(1) by (simp add: run_session_def split_beta)
qed

lemma frame_runs:
  assumes inv: "reg_inv ta b" and s: "objs b n = Some s" "\<not> dead s" "actorID s = ta tc" "sessionID s = SessionID f"
    and f: "ftype f = TypeAttach \<or> ftype f \<in> {TypeData, TypeAck} \<and> tconn s \<in> {None, Some tc}"
  shows "objs (fst (handleFrame e (ta tc) tc f b)) n = Some (fst (sess_frame (at_cfg b e) tc f s))"
    and "bUpstream n (snd (handleFrame e (ta tc) tc f b)) = upBytes (snd (sess_frame (at_cfg b e) tc f s))"
    and "tunnelOut tc (snd (handleFrame e (ta tc) tc f b)) = tunFrames (snd (sess_frame (at_cfg b e) tc f s))"
proof -
  have l: "lookup (ta tc) (SessionID f) b = Some n" using reg_invD(2) [OF inv s(1,2)] s by (simp add: lookup_def)
  let ?b = "bindTo tc n b"
  have bt: "objs ?b n = Some (bind tc s)" using bindTo_state(1) [OF s(1)] by simp
  note r = run_session_state(1) run_session_effects(2) run_session_out
  have a: "objs (fst (run_session n (onSidecarAttach e' off) ?b)) n = Some (fst (onSidecarAttach e' off (bind tc s)))"
    "bUpstream n (snd (run_session n (onSidecarAttach e' off) ?b)) = upBytes (snd (onSidecarAttach e' off (bind tc s)))"
    "tunnelOut tc (snd (run_session n (onSidecarAttach e' off) ?b)) = tunFrames (snd (onSidecarAttach e' off (bind tc s)))" for e' off
    using r(1,2) [OF bt] r(3) [where m = "onSidecarAttach e' off", OF bt framed_attach] by (simp_all add: bind_def)
  have m: "objs (fst (run_session n m b)) n = Some (fst (m s))" "bUpstream n (snd (run_session n m b)) = upBytes (snd (m s))" for m
    using r(1,2) [OF s(1)] by simp_all
  have o: "tunnelOut tc (snd (run_session n m b)) = tunFrames (snd (m s))" if "tconn s \<in> {None, Some tc}" "framed s (m s)" for m
    using r(3) [where m = m, OF s(1) that(2,1)] .
  consider "ftype f = TypeAttach" | "ftype f = TypeData" "tconn s \<in> {None, Some tc}" | "ftype f = TypeAck" "tconn s \<in> {None, Some tc}"
    using f by blast
  then show "objs (fst (handleFrame e (ta tc) tc f b)) n = Some (fst (sess_frame (at_cfg b e) tc f s))"
    "bUpstream n (snd (handleFrame e (ta tc) tc f b)) = upBytes (snd (sess_frame (at_cfg b e) tc f s))"
    "tunnelOut tc (snd (handleFrame e (ta tc) tc f b)) = tunFrames (snd (sess_frame (at_cfg b e) tc f s))"
    using l a m o by (cases; simp add: handleFrame_def Let_def attachSession_def on_session_def reattach_def sess_frame_def
        framed_onData framed_ack)+
qed

lemma frame_passes:
  assumes inv: "reg_inv ta b" and s: "objs b n = Some s" "\<not> dead s" "actorID s = ta tc" and f: "\<not> ofSession (sessionID s) f"
  shows "objs (fst (handleFrame e (ta tc) tc f b)) n = Some s \<and> bUpstream n (snd (handleFrame e (ta tc) tc f b)) = [] \<and>
    filter (ofSession (sessionID s)) (tunnelOut tc (snd (handleFrame e (ta tc) tc f b))) = []"
proof (cases "ftype f \<in> stypes")
  case True
  then have ne: "sessionID s \<noteq> SessionID f" using f by (simp add: ofSession_def)
  then have k: "sessions b (ta tc, SessionID f) \<noteq> Some n" using reg_invD(1) [OF inv, of "(ta tc, SessionID f)" n] s by auto
  have n: "n < nextObj b" using reg_invD(3) [OF inv s(1)] by simp
  obtain m where "m = nextObj b \<or> sessions b (ta tc, SessionID f) = Some m"
    "concerns m (SessionID f) (snd (handleFrame e (ta tc) tc f b))"
    using handleFrame_concerns [OF inv] by blast
  then show ?thesis
    using handleFrame_other [OF k n, of e tc] s(1) k n ne concerns_other_up concerns_other_out by fastforce
next
  case False
  then show ?thesis
    using s(1) by (auto simp: handleFrame_def Let_def stypes_def connWrite_def ofSession_def)
qed


lemma sess_frame_keeps:
  assumes "ftype f \<in> {TypeAttach, TypeData, TypeAck}" and "r = sess_frame e tc f s"
  shows "actorID (fst r) = actorID s" and "sessionID (fst r) = sessionID s" and "dead s \<Longrightarrow> dead (fst r)"
    and "ftype f = TypeAttach \<or> tconn s \<in> {None, Some tc} \<Longrightarrow> tconn (fst r) \<in> {None, Some tc}"
proof -
  have law: "lawful (bind tc s) r \<or> lawful s r \<and> ftype f \<noteq> TypeAttach"
    using assms lawful_attach lawful_onData lawful_ack by (auto simp: sess_frame_def)
  then show "actorID (fst r) = actorID s" "sessionID (fst r) = sessionID s" "dead s \<Longrightarrow> dead (fst r)"
    "ftype f = TypeAttach \<or> tconn s \<in> {None, Some tc} \<Longrightarrow> tconn (fst r) \<in> {None, Some tc}"
    by (auto simp: lawful_def bind_def)
qed

lemma foldl_broker_takes:
  "foldl (broker_takes e tc) (s, es) fs =
     (fst (foldl (broker_takes e tc) (s, []) fs), es @ snd (foldl (broker_takes e tc) (s, []) fs))"
proof (induction fs arbitrary: s es)
  case (Cons f fs)
  obtain s1 es1 where r: "sess_frame e tc f s = (s1, es1)" by fastforce
  have "broker_takes e tc (s, es') f = (s1, es' @ es1)" for es' by (simp add: broker_takes_def r)
  then show ?case
    using Cons.IH [of s1 "es @ es1"] Cons.IH [of s1 es1] by simp
qed simp

lemma broker_takes_first: "broker_takes e tc (s, []) f = sess_frame e tc f s"
  by (simp add: broker_takes_def split_beta)

lemma broker_stays_dead:
  "\<forall>f\<in>set fs. ftype f \<in> {TypeAttach, TypeData, TypeAck} \<Longrightarrow> dead s \<Longrightarrow> dead (fst (foldl (broker_takes e tc) (s, es) fs))"
proof (induction fs arbitrary: s es)
  case (Cons f fs)
  then have "dead (fst (sess_frame e tc f s))" using sess_frame_keeps(3) by simp
  then show ?case using Cons by (simp add: broker_takes_def split_beta)
qed simp

lemma serveLoop_reg_inv: "reg_inv ta b \<Longrightarrow> reg_inv ta (fst (serveLoop (ta tc) tc fs b))"
  by (induction fs arbitrary: b) (auto simp: reg_inv_handleFrame)

lemma cfg_serveLoop: "cfg (fst (serveLoop actor tc fs b)) = cfg b"
  by (induction fs arbitrary: b) (auto simp: cfg_handleFrame)

lemma serveLoop_session:
  assumes "reg_inv ta b" and "objs b n = Some s" and "\<not> dead (fst r)" and "actorID s = ta tc" and "sessionID s = i"
    and "r = foldl (broker_takes (at_cfg b e) tc) (s, []) (filter (ofSession i) fs)"
    and "\<forall>f\<in>set (filter (ofSession i) fs). ftype f \<in> {TypeAttach, TypeData, TypeAck}"
    and "tconn s \<in> {None, Some tc} \<or> (\<exists>f rest. filter (ofSession i) fs = f # rest \<and> ftype f = TypeAttach)"
  shows "objs (fst (serveLoop (ta tc) tc (map (Pair e) fs) b)) n = Some (fst r) \<and>
    bUpstream n (snd (serveLoop (ta tc) tc (map (Pair e) fs) b)) = upBytes (snd r) \<and>
    filter (ofSession i) (tunnelOut tc (snd (serveLoop (ta tc) tc (map (Pair e) fs) b))) = filter (ofSession i) (tunFrames (snd r))"
  using assms
proof (induction fs arbitrary: b s r)
  case (Cons f fs)
  let ?E = "at_cfg b e" and ?b1 = "fst (handleFrame e (ta tc) tc f b)"
  have b1: "reg_inv ta ?b1" "at_cfg ?b1 e = ?E"
    using reg_inv_handleFrame [OF Cons.prems(1)] cfg_handleFrame by (simp_all add: at_cfg_def)
  have alive: "\<not> dead s" using broker_stays_dead [of "filter (ofSession i) (f # fs)" s ?E tc "[]"] Cons.prems by blast
  show ?case
  proof (cases "ofSession i f")
    case False
    then have p: "objs ?b1 n = Some s" "bUpstream n (snd (handleFrame e (ta tc) tc f b)) = []"
      "filter (ofSession i) (tunnelOut tc (snd (handleFrame e (ta tc) tc f b))) = []"
      using frame_passes [OF Cons.prems(1,2) alive Cons.prems(4)] Cons.prems(5) by auto
    show ?thesis
      using Cons.IH [OF b1(1) p(1) Cons.prems(3-5)] Cons.prems(6-8) False p(2,3) b1(2) by simp
  next
    case True
    let ?r = "sess_frame ?E tc f s"
    let ?r2 = "foldl (broker_takes ?E tc) (fst ?r, []) (filter (ofSession i) fs)"
    have id: "sessionID s = SessionID f" using True Cons.prems(5) by (simp add: ofSession_def)
    have t: "ftype f \<in> {TypeAttach, TypeData, TypeAck}" "ftype f = TypeAttach \<or> tconn s \<in> {None, Some tc}"
      using Cons.prems(7,8) True by auto
    then have f: "ftype f = TypeAttach \<or> ftype f \<in> {TypeData, TypeAck} \<and> tconn s \<in> {None, Some tc}" by auto
    note p = frame_runs [OF Cons.prems(1,2) alive Cons.prems(4) id f, of e]
    note k = sess_frame_keeps [OF t(1) refl, where e = ?E and tc = tc and s = s]
    have r: "r = (fst ?r2, snd ?r @ snd ?r2)"
      using Cons.prems(6) True foldl_broker_takes [of ?E tc "fst ?r" "snd ?r"] broker_takes_first [of ?E tc s f] by simp
    have "objs (fst (serveLoop (ta tc) tc (map (Pair e) fs) ?b1)) n = Some (fst ?r2) \<and>
        bUpstream n (snd (serveLoop (ta tc) tc (map (Pair e) fs) ?b1)) = upBytes (snd ?r2) \<and>
        filter (ofSession i) (tunnelOut tc (snd (serveLoop (ta tc) tc (map (Pair e) fs) ?b1))) = filter (ofSession i) (tunFrames (snd ?r2))"
      by (rule Cons.IH [OF b1(1) p(1)]) (use Cons.prems(3-5,7) r k t b1(2) in auto)
    then show ?thesis using p(2,3) r by simp
  qed
qed simp


section \<open>The same at the client\<close>

fun steady :: "csession \<Rightarrow> frame list \<Rightarrow> bool" where
  "steady s [] \<longleftrightarrow> True"
| "steady s (f # fs) \<longleftrightarrow> \<not> cs_dead s \<and> steady (fst (csess_frame None f s)) fs"

lemma foldl_sidecar_takes:
  "foldl sidecar_takes (s, es) fs = (fst (foldl sidecar_takes (s, []) fs), es @ snd (foldl sidecar_takes (s, []) fs))"
proof (induction fs arbitrary: s es)
  case (Cons f fs)
  obtain s1 es1 where r: "csess_frame None f s = (s1, es1)" by fastforce
  have "sidecar_takes (s, es') f = (s1, es' @ es1)" for es' by (simp add: sidecar_takes_def r)
  then show ?case using Cons.IH [of s1 "es @ es1"] Cons.IH [of s1 es1] by simp
qed simp

lemma sidecar_takes_first: "sidecar_takes (s, []) f = csess_frame None f s"
  by (simp add: sidecar_takes_def split_beta)

lemma sidecar_stays_dead: "cs_dead s \<Longrightarrow> cs_dead (fst (foldl sidecar_takes (s, es) fs))"
proof (induction fs arbitrary: s es)
  case (Cons f fs)
  have "cs_dead (fst (csess_frame None f s))" using csess_frame_lawful [of s None f] Cons.prems by (auto simp: clawful_def)
  then show ?case using Cons.IH by (simp add: sidecar_takes_def split_beta)
qed simp

lemma steadyI: "\<not> cs_dead (fst (foldl sidecar_takes (s, []) fs)) \<Longrightarrow> length gs \<le> 1 \<Longrightarrow> steady s (fs @ gs)"
proof (induction fs arbitrary: s)
  case Nil
  then show ?case by (cases gs) simp_all
next
  case (Cons f fs)
  have "foldl sidecar_takes (s, []) (f # fs) = foldl sidecar_takes (fst (csess_frame None f s), snd (csess_frame None f s)) fs"
    by (simp add: sidecar_takes_first)
  then have "\<not> cs_dead (fst (foldl sidecar_takes (fst (csess_frame None f s), []) fs))"
    using Cons.prems(1) foldl_sidecar_takes [of "fst (csess_frame None f s)" "snd (csess_frame None f s)" fs] by simp
  then show ?case using Cons sidecar_stays_dead [of s "[]" "f # fs"] by auto
qed

lemma ccallbacks_out:
  "conn c = Some tc \<Longrightarrow>
   clientOut tc (snd (ccallbacks e i es c)) = filter (\<lambda>f. encodable f \<and> ctun_ok e f) (sentFrames es)"
proof (induction es arbitrary: c)
  case (Cons ef es)
  have "conn (fst (ccallback e i ef c)) = conn c" by (cases ef) (simp_all add: removeClientSession_def)
  then show ?case
    using Cons by (cases ef) (simp_all add: split_beta send_def tun_write_def removeClientSession_def)
qed simp

lemma dispatch_runs:
  assumes "clreach cc c" and "cobjs c i = Some s" and "\<not> cs_dead s" and "conn c = Some tc"
    and "SessionID f = i" and "ftype f \<in> {TypeAttachOK, TypeData, TypeAck, TypeClose}"
  shows "clAgent i (snd (dispatch e tc f c)) = agentBytes (snd (csess_frame (agent_take e) f s)) \<and>
    clientOut tc (snd (dispatch e tc f c)) =
      filter (\<lambda>f. encodable f \<and> ctun_ok e f) (sentFrames (snd (csess_frame (agent_take e) f s)))"
proof -
  have "i \<in> csessions c" using clreach_creg [OF assms(1)] assms(2,3) by (auto simp: creg_def)
  then have "clAgent i (snd (on_csession e (SessionID f) m c)) = agentBytes (snd (m s)) \<and>
      clientOut tc (snd (on_csession e (SessionID f) m c)) = filter (\<lambda>f. encodable f \<and> ctun_ok e f) (sentFrames (snd (m s)))" for m
    using assms(2,4,5) run_csession_effects(2) [OF assms(2), of i e m] ccallbacks_out
    by (simp add: on_csession_def run_csession_def split_beta)
  then show ?thesis using assms(6) by (auto simp: dispatch_def csess_frame_def)
qed

lemma dispatch_passes:
  assumes "clreach cc c" and "cobjs c i = Some s" and "\<not> ofSession i f" and "conn c = Some tc"
  shows "cobjs (fst (dispatch e tc f c)) i = Some s \<and> clAgent i (snd (dispatch e tc f c)) = [] \<and>
    filter (ofSession i) (clientOut tc (snd (dispatch e tc f c))) = []"
proof (cases "ftype f \<in> {TypeAttachOK, TypeData, TypeAck, TypeClose}")
  case False
  then show ?thesis
    using assms(2) by (auto simp: dispatch_def tun_write_def ofSession_def stypes_def)
next
  case True
  then have ne: "SessionID f \<noteq> i" using assms(3) by (auto simp: ofSession_def stypes_def)
  have reg: "creg c" by (rule clreach_creg [OF assms(1)])
  have on: "clAgent i (snd (on_csession e (SessionID f) m c)) = [] \<and>
      filter (ofSession i) (clientOut tc (snd (on_csession e (SessionID f) m c))) = []"
    if "\<And>s. cframed s (m s)" for m
  proof (cases "SessionID f \<in> csessions c")
    case True
    then obtain t where t: "cobjs c (SessionID f) = Some t" "cs_sessionID t = SessionID f" using reg by (auto simp: creg_def)
    have "filter (ofSession i) (filter P (sentFrames (snd (m t)))) = []" for P
      using that [of t] t(2) ne by (auto simp: cframed_def ofSession_def filter_empty_conv)
    then show ?thesis
      using True t(1) ne assms(4) run_csession_effects(2) [OF t(1), of i e m] ccallbacks_out
      by (simp add: on_csession_def run_csession_def split_beta del: filter_filter)
  qed (simp add: on_csession_def)
  have "cobjs (fst (dispatch e tc f c)) i = Some s"
    using dispatch_runs_session [OF assms(1,2) True, of e tc] ne by simp
  then show ?thesis using True on [OF cframed_methods(2)] on [OF cframed_methods(1)] on [OF cframed_methods(5)]
      on [OF cframed_methods(3)] by (auto simp: dispatch_def)
qed


lemma readLoop_session:
  assumes "clreach cc c" and "cobjs c i = Some s" and "conn c = Some tc" and "\<forall>f. ctun_ok e f" and "agent_take e = None"
    and "steady s (filter (ofSession i) fs)" and "r = foldl sidecar_takes (s, []) (filter (ofSession i) fs)"
    and "\<forall>f\<in>set (filter (ofSession i) fs). ftype f \<in> {TypeAttachOK, TypeData, TypeAck, TypeClose}"
  shows "cobjs (fst (readLoop e tc fs c)) i = Some (fst r) \<and> clAgent i (snd (readLoop e tc fs c)) = agentBytes (snd r) \<and>
    filter (ofSession i) (clientOut tc (snd (readLoop e tc fs c))) = filter (ofSession i) (filter encodable (sentFrames (snd r)))"
  using assms
proof (induction fs arbitrary: c s r)
  case (Cons f fs)
  let ?c1 = "fst (dispatch e tc f c)"
  have c1: "clreach cc ?c1" "conn ?c1 = Some tc"
    using clreach.happens [OF Cons.prems(1), of "ClFrame e tc f"] conn_in_tunnel [of "ClFrame e tc f" c] Cons.prems(3)
    by (simp_all add: in_tunnel_def)
  show ?case
  proof (cases "ofSession i f")
    case False
    then show ?thesis
      using dispatch_passes [OF Cons.prems(1,2) False Cons.prems(3), of e] Cons.IH [OF c1(1) _ c1(2) Cons.prems(4,5)] Cons.prems(6-8)
      by (simp add: split_beta)
  next
    case True
    let ?s1 = "fst (csess_frame None f s)" and ?es1 = "snd (csess_frame None f s)"
    let ?r2 = "foldl sidecar_takes (?s1, []) (filter (ofSession i) fs)"
    have t: "SessionID f = i" "ftype f \<in> {TypeAttachOK, TypeData, TypeAck, TypeClose}" and alive: "\<not> cs_dead s"
      using True Cons.prems(6,8) by (auto simp: ofSession_def)
    have s1: "cobjs ?c1 i = Some ?s1"
      using dispatch_runs_session [OF Cons.prems(1,2) t(2), of e tc] t(1) alive Cons.prems(5) by simp
    have r: "r = (fst ?r2, ?es1 @ snd ?r2)"
      using Cons.prems(7) True foldl_sidecar_takes [of ?s1 ?es1] sidecar_takes_first [of s f] by simp
    have "cobjs (fst (readLoop e tc fs ?c1)) i = Some (fst ?r2) \<and> clAgent i (snd (readLoop e tc fs ?c1)) = agentBytes (snd ?r2) \<and>
        filter (ofSession i) (clientOut tc (snd (readLoop e tc fs ?c1))) = filter (ofSession i) (filter encodable (sentFrames (snd ?r2)))"
      by (rule Cons.IH [OF c1(1) s1 c1(2) Cons.prems(4,5) _ refl]) (use Cons.prems(6,8) True in auto)
    then show ?thesis
      using dispatch_runs [OF Cons.prems(1,2) alive Cons.prems(3) t, of e] r Cons.prems(4,5) by (simp add: split_beta)
  qed
qed simp

section \<open>Everything is recovered\<close>

text \<open>What the client writes when it connects: one ATTACH for session \<open>i\<close> after the HELLO.\<close>

lemma attaches_once:
  assumes "clreach cc c" and "set order = csessions c" and "distinct order" and "cobjs c i = Some s" "\<not> cs_dead s"
  shows "filter (ofSession i) (map (\<lambda>j. attachFrame (the (cobjs c j))) order) = [attachFrame s]"
proof -
  have reg: "creg c" by (rule clreach_creg [OF assms(1)])
  have "ofSession i (attachFrame (the (cobjs c j))) \<longleftrightarrow> j = i" if "j \<in> set order" for j
    using that reg assms(2) by (auto simp: creg_def ofSession_def attachFrame_def stypes_def)
  then have "filter (ofSession i) (map (\<lambda>j. attachFrame (the (cobjs c j))) order) =
      map (\<lambda>j. attachFrame (the (cobjs c j))) (filter (\<lambda>j. j = i) order)"
    by (simp add: filter_map o_def cong: filter_cong)
  moreover have "i \<in> set order" using reg assms(2,4,5) by (auto simp: creg_def)
  then have "filter (\<lambda>j. j = i) order = [i]" using assms(3) by (induction order) (auto simp: filter_empty_conv)
  ultimately show ?thesis using assms(4) by simp
qed

lemma clientOut_writes: "clientOut tc (map (\<lambda>j. ClWrite tc (g j)) js) = map g js"
  by (induction js) simp_all


lemma recover_unfold:
  assumes "clreach cc c" and "set order = csessions c" and "distinct order" and "\<forall>f. ctun_ok ce f" and "length actor \<le> maxString"
    and "\<forall>j t. cobjs c j = Some t \<longrightarrow> length (cs_target t) \<le> maxString" and "actor \<noteq> []"
    and "recover e ce tc actor order b c = (b', c', es, ws)"
  obtains c1 b1 es1 es2 where "clreach cc c1" "cobjs c1 = cobjs c" "conn c1 = Some tc"
    "serveLoop actor tc (map (Pair e) (map (\<lambda>j. attachFrame (the (cobjs c j))) order)) b = (b1, es1)"
    "readLoop ce tc (tunnelOut tc es1) c1 = (c', ws)" "serveLoop actor tc (map (Pair e) (clientOut tc ws)) b1 = (b', es2)" "es = es1 @ es2"
proof -
  obtain c1 ws1 ok where c1: "connectStart ce tc actor order c = (c1, ws1, ok)" by (metis prod_cases3)
  note a = reconnect_attaches_live_sessions [OF assms(1-6) c1]
  have "clreach cc c1" using clreach.happens [OF assms(1), of "ClConnect ce tc actor order"] c1 by simp
  moreover have "cobjs c1 = cobjs c" using c1 by (auto simp: connectStart_def Let_def split_beta split: if_splits)
  moreover have out: "clientOut tc ws1 = zero_frame\<lparr>ftype := TypeHello, ActorID := actor\<rparr> # map (\<lambda>j. attachFrame (the (cobjs c j))) order"
    using a by (simp add: clientOut_writes)
  moreover obtain b1 es1 where 1: "serveLoop actor tc (map (Pair e) (map (\<lambda>j. attachFrame (the (cobjs c j))) order)) b = (b1, es1)"
    by fastforce
  moreover obtain c2 ws2 where 2: "readLoop ce tc (tunnelOut tc es1) c1 = (c2, ws2)" by fastforce
  moreover obtain b2 es2 where 3: "serveLoop actor tc (map (Pair e) (clientOut tc ws2)) b1 = (b2, es2)" by fastforce
  moreover have "(b', c', es, ws) = (b2, c2, es1 @ es2, ws2)"
    using assms(7,8) c1 out 1 2 3 by (simp add: recover_def)
  ultimately show thesis using that [of c1 b1 es1 es2] a by simp
qed

lemma attach_own_frames:
  assumes "sess_frame e tc (attachFrame c) s = (bind tc s, map (TunnelWrite tc) fs)"
  shows "\<forall>f\<in>set fs. SessionID f = sessionID s"
  using framed_attach [of "bind tc s" e "Offset (attachFrame c)"] assms
  by (auto simp: framed_def sess_frame_def attachFrame_def bind_def)

lemma upBytes_writes: "upBytes (map (TunnelWrite tc) fs) = []"
  by (induction fs) simp_all

lemma takes_own_frames: "f \<in> set (sentFrames (snd (foldl sidecar_takes (s, []) fs))) \<Longrightarrow> SessionID f = cs_sessionID s"
proof (induction fs arbitrary: s)
  case (Cons g fs)
  let ?r = "csess_frame None g s"
  have k: "cs_sessionID (fst ?r) = cs_sessionID s" "\<forall>f\<in>set (sentFrames (snd ?r)). SessionID f = cs_sessionID s"
    using csess_frame_lawful [of s None g] by (auto simp: clawful_def cframed_def)
  have "foldl sidecar_takes (s, []) (g # fs) = foldl sidecar_takes (fst ?r, snd ?r) fs" by (simp add: sidecar_takes_first)
  then show ?case
    using Cons foldl_sidecar_takes [of "fst ?r" "snd ?r" fs] k by auto
qed simp

text \<open>The round of one session, run among the frames of all sessions of the client.\<close>

lemma recover_session:
  assumes cl: "clreach cc cl" and b: "reg_inv ta b" and tc: "ta tc = A" and "A \<noteq> []" and "length A \<le> maxString"
    and order: "set order = csessions cl" "distinct order" and ce: "\<forall>f. ctun_ok ce f" "agent_take ce = None"
    and tgt: "\<forall>j t. cobjs cl j = Some t \<longrightarrow> length (cs_target t) \<le> maxString"
    and rec: "recover e ce tc A order b cl = (b', c', es, ws)"
    and c: "cobjs cl i = Some c" "\<not> cs_dead c" and s: "objs b n = Some s" "\<not> dead s" "actorID s = A" "sessionID s = i"
    and r: "sess_frame (at_cfg b e) tc (attachFrame c) s = (bind tc s, map (TunnelWrite tc) (fs @ gs))"
      "foldl sidecar_takes (c, []) (fs @ gs) = (c2, ces)" "length gs \<le> 1" "\<not> cs_dead (fst (foldl sidecar_takes (c, []) fs))"
      "\<forall>f\<in>set (fs @ gs). ftype f \<in> {TypeAttachOK, TypeData, TypeClose}"
      "sentFrames ces = (if rest = [] then [] else [up_data c off rest]) @ acks" "\<forall>f\<in>set acks. ftype f = TypeAck"
      "foldl (broker_takes (at_cfg b e) tc) (bind tc s, []) (sentFrames ces) = (b2, es')" "\<not> dead b2"
    and fit: "length rest \<le> MaxPayload"
  shows "bUpstream n es = upBytes es' \<and> clAgent i ws = agentBytes ces"
proof -
  let ?as = "map (\<lambda>j. attachFrame (the (cobjs cl j))) order"
  obtain c1 b1 es1 es2 where x: "clreach cc c1" "cobjs c1 = cobjs cl" "conn c1 = Some tc"
    "serveLoop A tc (map (Pair e) ?as) b = (b1, es1)" "readLoop ce tc (tunnelOut tc es1) c1 = (c', ws)"
    "serveLoop A tc (map (Pair e) (clientOut tc ws)) b1 = (b', es2)" "es = es1 @ es2"
    by (rule recover_unfold [OF cl order ce(1) assms(5) tgt assms(4) rec])
  have b1: "reg_inv ta b1" "at_cfg b1 e = at_cfg b e"
    using serveLoop_reg_inv [OF b, of tc "map (Pair e) ?as"] cfg_serveLoop [of A tc "map (Pair e) ?as" b] x(4) tc
    by (simp_all add: at_cfg_def)
  have own: "filter (ofSession i) (fs @ gs) = fs @ gs"
    using attach_own_frames [OF r(1)] r(5) s(4) by (intro filter_True) (auto simp: ofSession_def stypes_def)
  have f1: "filter (ofSession i) ?as = [attachFrame c]" by (rule attaches_once [OF cl order c])
  let ?r1 = "(bind tc s, map (TunnelWrite tc) (fs @ gs))"
  have "objs (fst (serveLoop (ta tc) tc (map (Pair e) ?as) b)) n = Some (fst ?r1) \<and>
      bUpstream n (snd (serveLoop (ta tc) tc (map (Pair e) ?as) b)) = upBytes (snd ?r1) \<and>
      filter (ofSession i) (tunnelOut tc (snd (serveLoop (ta tc) tc (map (Pair e) ?as) b))) = filter (ofSession i) (tunFrames (snd ?r1))"
    by (rule serveLoop_session [OF b s(1)]; (unfold f1)?) (use s tc r(1) in \<open>simp_all add: broker_takes_first bind_def attachFrame_def\<close>)
  then have 1: "objs b1 n = Some (bind tc s)" "bUpstream n es1 = []" "filter (ofSession i) (tunnelOut tc es1) = fs @ gs"
    using x(4) tc own by (simp_all add: upBytes_writes del: map_append filter_append map_map)
  have "cobjs (fst (readLoop ce tc (tunnelOut tc es1) c1)) i = Some (fst (c2, ces)) \<and>
      clAgent i (snd (readLoop ce tc (tunnelOut tc es1) c1)) = agentBytes (snd (c2, ces)) \<and>
      filter (ofSession i) (clientOut tc (snd (readLoop ce tc (tunnelOut tc es1) c1))) =
        filter (ofSession i) (filter encodable (sentFrames (snd (c2, ces))))"
    by (rule readLoop_session [OF x(1) _ x(3) ce, where s = c]; (unfold 1(3))?)
      (use x(2) c(1) r(2,5) steadyI [OF r(4,3)] in \<open>auto simp del: foldl_append filter_append\<close>)
  then have 2: "clAgent i ws = agentBytes ces" "filter (ofSession i) (clientOut tc ws) = filter (ofSession i) (filter encodable (sentFrames ces))"
    using x(5) by simp_all
  have id: "cs_sessionID c = i" using clreach_creg [OF cl] c(1) by (simp add: creg_def)
  have "ofSession i f \<and> encodable f" if f: "f \<in> set (sentFrames ces)" for f
  proof -
    have "SessionID f = i" using f takes_own_frames [of f c "fs @ gs"] r(2) id by simp
    moreover have "ftype f = TypeData \<and> Payload f = rest \<or> ftype f = TypeAck"
      using f r(7) unfolding r(6) by (auto simp: up_data_def split: if_splits)
    ultimately show ?thesis using fit by (auto simp: ofSession_def stypes_def encodable_def known_type_def)
  qed
  then have sent: "filter (ofSession i) (clientOut tc ws) = sentFrames ces"
    unfolding 2(2) by (simp add: filter_True)
  let ?r2 = "(b2, es')"
  have "objs (fst (serveLoop (ta tc) tc (map (Pair e) (clientOut tc ws)) b1)) n = Some (fst ?r2) \<and>
      bUpstream n (snd (serveLoop (ta tc) tc (map (Pair e) (clientOut tc ws)) b1)) = upBytes (snd ?r2) \<and>
      filter (ofSession i) (tunnelOut tc (snd (serveLoop (ta tc) tc (map (Pair e) (clientOut tc ws)) b1))) =
        filter (ofSession i) (tunFrames (snd ?r2))"
    by (rule serveLoop_session [OF b1(1) 1(1)]; (unfold sent b1(2))?)
      (use s tc r(6-9) in \<open>auto simp: bind_def up_data_def split: if_splits\<close>)
  then show ?thesis using 1(2) 2(1) x(6,7) tc by simp
qed



text \<open>The run of \<open>Deployment\<close>, one byte further: the agent has sent it, and its frame is lost with the tunnel.\<close>

definition dw7 :: deploy where
  "dw7 = (let r = clrun (ClWriteUp all_ok 1 [3]) (clt dw6)
     in (clientRan r dw6)\<lparr>dAgentSent := (dAgentSent dw6)(1 := dAgentSent dw6 1 @ taken_up 1 (clt dw6) (fst r))\<rparr>)"

lemma dw6_clt:
  "clt dw6 = \<lparr>ccfg = ccfg (NewClient std_cfg), nextID = 1, conn = Some 1,
     cobjs = [1 \<mapsto> (newClientSession 4194304 1 ''x:80'' True)\<lparr>upBuf := \<lparr>base = 0, buf = [1, 2], rmax = 4194304\<rparr>\<rparr>],
     csessions = {1}, lastPong = 0\<rparr>"
  "dAgentSent dw6 1 = [1, 2]" "dAgentGot dw6 1 = []" "dUpSent dw6 0 = []"
proof -
  have "clt dw6 = clt dw3" "dAgentSent dw6 = dAgentSent dw3" "dAgentGot dw6 = dAgentGot dw3" "dUpSent dw6 = dUpSent dw3"
    by (simp_all add: dw6_def dw5_def dw4_def)
  moreover have "dUpSent dw3 = (\<lambda>_. [])" by (simp add: dw3_def dw2_def dw1_def deploy0_def Let_def)
  moreover have "dAgentGot dw3 1 = []"
    by (simp add: dw3_def dw2_state WriteUpTurn_def Let_def newClientSession_def handler_defs send_def tun_write_def all_ok_def
        encodable_def known_type_def zero_frame_def)
  moreover have "clt dw3 = (clt dw2)\<lparr>cobjs := cobjs (clt dw3)\<rparr>"
    by (simp add: dw3_def dw2_state WriteUpTurn_def Let_def newClientSession_def handler_defs)
  ultimately show
    "clt dw6 = \<lparr>ccfg = ccfg (NewClient std_cfg), nextID = 1, conn = Some 1,
       cobjs = [1 \<mapsto> (newClientSession 4194304 1 ''x:80'' True)\<lparr>upBuf := \<lparr>base = 0, buf = [1, 2], rmax = 4194304\<rparr>\<rparr>],
       csessions = {1}, lastPong = 0\<rparr>"
    "dAgentSent dw6 1 = [1, 2]" "dAgentGot dw6 1 = []" "dUpSent dw6 0 = []"
    by (simp_all add: dw2_state dw3_state)
qed

lemma dw7_clt:
  "cobjs (clt dw7) = [1 \<mapsto> (newClientSession 4194304 1 ''x:80'' True)\<lparr>upBuf := \<lparr>base = 0, buf = [1, 2, 3], rmax = 4194304\<rparr>\<rparr>]"
  "csessions (clt dw7) = {1}" "dAgentSent dw7 1 = [1, 2, 3]" "dAgentGot dw7 1 = []" "dUpSent dw7 0 = []" "dUpGot dw7 0 = [1, 2]"
  "br dw7 = br dw6"
  using dw6_state(2)
  by (simp_all add: dw7_def dw6_clt WriteUpTurn_def Let_def newClientSession_def handler_defs taken_up_def taken_def
      send_def tun_write_def all_ok_def encodable_def known_type_def zero_frame_def)

lemma dw6_obj: "\<exists>s. objs (br dw6) 0 = Some s \<and> \<not> dead s \<and> connected s \<and> \<not> upBroken s"
  by (auto simp: dw6_def dw5_state run_session_def at_cfg_def newSession_def handler_defs dw_cfg_def)

lemma dreach_dw7: "dreach dw_ta ''ns/a'' dw_cfg std_cfg dw7"
  unfolding dw7_def Let_def by (rule dreach.happens [OF dreach_dw6(2) dstep.agent_writes [OF _ refl]]) (simp add: dw6_clt)


end
