(* ===== verification/Strconv.thy ===== *)
theory Strconv
  imports Prelude
begin

text \<open>
  Decimal conversion of the Go standard library as the sources use it: \<^verbatim>\<open>strconv.Itoa\<close>
  and \<^verbatim>\<open>strconv.Atoi\<close> on 64-bit integers. \<^verbatim>\<open>Atoi\<close> returns a value beside its
  error: zero for a malformed numeral, the nearest limit for one out of range.
\<close>

definition digit :: "nat \<Rightarrow> char" where
  "digit d = char_of (48 + d)"

definition digit_value :: "char \<Rightarrow> nat option" where
  "digit_value c = (let n = of_char c :: nat in if 48 \<le> n \<and> n \<le> 57 then Some (n - 48) else None)"

fun digits :: "nat \<Rightarrow> string" where
  "digits n = (if n < 10 then [digit n] else digits (n div 10) @ [digit (n mod 10)])"

declare digits.simps [simp del]

definition Itoa :: "int \<Rightarrow> string" where
  "Itoa n = (if n < 0 then CHR ''-'' # digits (nat (- n)) else digits (nat n))"

datatype num_error = NoError | ErrSyntax | ErrRange

fun scan :: "nat \<Rightarrow> string \<Rightarrow> nat \<times> num_error" where
  "scan n [] = (n, NoError)"
| "scan n (c # cs) =
     (case digit_value c of
        None \<Rightarrow> (0, ErrSyntax)
      | Some d \<Rightarrow> if 10 * n + d > 2 ^ 64 - 1 then (2 ^ 64 - 1, ErrRange) else scan (10 * n + d) cs)"

definition ParseUint :: "string \<Rightarrow> nat \<times> num_error" where
  "ParseUint s = (if s = [] then (0, ErrSyntax) else scan 0 s)"

definition Atoi :: "string \<Rightarrow> int \<times> num_error" where
  "Atoi s =
     (let neg = (s \<noteq> [] \<and> hd s = CHR ''-'');
          s' = (if s \<noteq> [] \<and> (hd s = CHR ''-'' \<or> hd s = CHR ''+'') then tl s else s)
      in case ParseUint s' of
           (un, ErrSyntax) \<Rightarrow> (0, ErrSyntax)
         | (un, e) \<Rightarrow>
             if \<not> neg \<and> un \<ge> 2 ^ 63 then (2 ^ 63 - 1, ErrRange)
             else if neg \<and> un > 2 ^ 63 then (- (2 ^ 63), ErrRange)
             else (if neg then - int un else int un, NoError))"

lemma digit_value_digit [simp]: "d < 10 \<Longrightarrow> digit_value (digit d) = Some d"
  by (simp add: digit_value_def digit_def)

lemma digit_value_sign: "digit_value CHR ''-'' = None" "digit_value CHR ''+'' = None"
  by (simp_all add: digit_value_def)

lemma digit_not_sign [simp]: "d < 10 \<Longrightarrow> digit d \<noteq> CHR ''-''" "d < 10 \<Longrightarrow> digit d \<noteq> CHR ''+''"
  using digit_value_digit [of d] digit_value_sign by (metis option.distinct(1))+

lemma digits_nonempty [simp]: "digits n \<noteq> []"
  by (subst digits.simps) simp

lemma hd_digits: "\<exists>d<10. hd (digits n) = digit d"
proof (induction n rule: digits.induct)
  case (1 n)
  then show ?case by (cases "n < 10") (auto simp: digits.simps [of n])
qed

lemma scan_append:
  "scan n xs = (m, NoError) \<Longrightarrow> scan n (xs @ ys) = scan m ys"
proof (induction n xs rule: scan.induct)
  case (2 n c cs)
  then show ?case by (auto split: option.splits if_splits)
qed simp

lemma scan_digits: "n < 2 ^ 64 \<Longrightarrow> scan 0 (digits n) = (n, NoError)"
proof (induction n rule: digits.induct)
  case (1 n)
  show ?case
  proof (cases "n < 10")
    case True
    then show ?thesis by (subst digits.simps) simp
  next
    case False
    have d: "n div 10 < 2 ^ 64" "10 * (n div 10) + n mod 10 = n" using 1(2) by auto
    have "scan 0 (digits n) = scan (n div 10) [digit (n mod 10)]"
      using False scan_append [OF 1(1) [OF False d(1)]] by (subst digits.simps) simp
    then show ?thesis using d(2) 1(2) by simp
  qed
qed

lemma Atoi_Itoa:
  assumes "- (2 ^ 63) \<le> n" "n < 2 ^ 63"
  shows "Atoi (Itoa n) = (n, NoError)"
proof -
  obtain d where d: "d < 10" "hd (digits (nat n)) = digit d" using hd_digits by blast
  have neg: "scan 0 (digits (nat (- n))) = (nat (- n), NoError)" if "n < 0"
    using that assms by (intro scan_digits) (simp add: nat_less_iff)
  have pos: "scan 0 (digits (nat n)) = (nat n, NoError)" if "\<not> n < 0"
    using that assms by (intro scan_digits) (simp add: nat_less_iff)
  show ?thesis
    using d assms neg pos by (auto simp: Atoi_def Itoa_def ParseUint_def Let_def nat_le_iff le_nat_iff not_less)
qed

end
