(* ===== verification/Go_Strings.thy ===== *)
theory Go_Strings
  imports Strconv
begin

text \<open>
  String functions of the Go standard library as the programs use them: \<^verbatim>\<open>strings.TrimPrefix\<close>,
  \<^verbatim>\<open>SplitN\<close> into two, \<^verbatim>\<open>TrimSpace\<close>, \<^verbatim>\<open>strconv.ParseBool\<close>,
  \<^verbatim>\<open>time.ParseDuration\<close>, and the choice of a pattern by \<^verbatim>\<open>http.ServeMux\<close>. A string is
  the list of its bytes.
\<close>

section \<open>Prefixes and separators\<close>

definition HasPrefix :: "string \<Rightarrow> string \<Rightarrow> bool" where
  "HasPrefix s p \<longleftrightarrow> take (length p) s = p"

definition TrimPrefix :: "string \<Rightarrow> string \<Rightarrow> string" where
  "TrimPrefix s p = (if HasPrefix s p then drop (length p) s else s)"

text \<open>\<^verbatim>\<open>SplitN\<close> with a one-byte separator and the limit two.\<close>

definition SplitN2 :: "string \<Rightarrow> char \<Rightarrow> string list" where
  "SplitN2 s c = (if c \<in> set s then [takeWhile (\<lambda>x. x \<noteq> c) s, tl (dropWhile (\<lambda>x. x \<noteq> c) s)] else [s])"

lemma TrimPrefix_append [simp]: "TrimPrefix (p @ s) p = s"
  by (simp add: TrimPrefix_def HasPrefix_def)

lemma SplitN2_sep: "c \<notin> set a \<Longrightarrow> SplitN2 (a @ c # b) c = [a, b]"
  by (induction a) (auto simp: SplitN2_def)

lemma SplitN2_two: "SplitN2 s c = [a, b] \<longleftrightarrow> c \<notin> set a \<and> s = a @ c # b"
proof
  assume h: "SplitN2 s c = [a, b]"
  then have "c \<in> set s" and ab: "a = takeWhile (\<lambda>x. x \<noteq> c) s" "b = tl (dropWhile (\<lambda>x. x \<noteq> c) s)"
    by (auto simp: SplitN2_def split: if_splits)
  moreover from this have "dropWhile (\<lambda>x. x \<noteq> c) s = c # b"
    by (metis (mono_tags, lifting) dropWhile_eq_Nil_conv hd_dropWhile list.collapse)
  ultimately show "c \<notin> set a \<and> s = a @ c # b"
    using takeWhile_dropWhile_id [of "\<lambda>x. x \<noteq> c" s] set_takeWhileD by metis
qed (simp add: SplitN2_sep)

section \<open>White space\<close>

text \<open>The encodings of the white space characters of Unicode.\<close>

definition spaces :: "string list" where
  "spaces = [[CHR 0x09], [CHR 0x0A], [CHR 0x0B], [CHR 0x0C], [CHR 0x0D], [CHR 0x20], [CHR 0xC2, CHR 0x85], [CHR 0xC2, CHR 0xA0],
     [CHR 0xE1, CHR 0x9A, CHR 0x80], [CHR 0xE2, CHR 0x80, CHR 0x80], [CHR 0xE2, CHR 0x80, CHR 0x81], [CHR 0xE2, CHR 0x80, CHR 0x82],
     [CHR 0xE2, CHR 0x80, CHR 0x83], [CHR 0xE2, CHR 0x80, CHR 0x84], [CHR 0xE2, CHR 0x80, CHR 0x85], [CHR 0xE2, CHR 0x80, CHR 0x86],
     [CHR 0xE2, CHR 0x80, CHR 0x87], [CHR 0xE2, CHR 0x80, CHR 0x88], [CHR 0xE2, CHR 0x80, CHR 0x89], [CHR 0xE2, CHR 0x80, CHR 0x8A],
     [CHR 0xE2, CHR 0x80, CHR 0xA8], [CHR 0xE2, CHR 0x80, CHR 0xA9], [CHR 0xE2, CHR 0x80, CHR 0xAF], [CHR 0xE2, CHR 0x81, CHR 0x9F],
     [CHR 0xE3, CHR 0x80, CHR 0x80]]"

function trimBy :: "string list \<Rightarrow> string \<Rightarrow> string" where
  "trimBy ts s =
     (case find (\<lambda>t. t \<noteq> [] \<and> HasPrefix s t) ts of None \<Rightarrow> s | Some t \<Rightarrow> trimBy ts (drop (length t) s))"
  by pat_completeness auto
termination
proof (relation "measure (\<lambda>(ts, s). length s)")
  fix ts s t
  assume "find (\<lambda>t. t \<noteq> [] \<and> HasPrefix s t) ts = Some t"
  then have "t \<noteq> []" "take (length t) s = t" by (auto simp: find_Some_iff HasPrefix_def)
  then have "length t \<le> length s" "0 < length t" by (metis length_take min.cobounded1) (use \<open>t \<noteq> []\<close> in simp)
  then have "length s - length t < length s" by linarith
  then show "((ts, drop (length t) s), (ts, s)) \<in> measure (\<lambda>(ts, s). length s)" by (simp only: in_measure prod.case length_drop)
qed simp

declare trimBy.simps [simp del]

definition TrimSpace :: "string \<Rightarrow> string" where
  "TrimSpace s = rev (trimBy (map rev spaces) (rev (trimBy spaces s)))"

text \<open>What is left of a line: a text with no space at its ends, whatever white space surrounds it.\<close>

definition tight :: "string \<Rightarrow> bool" where
  "tight s \<longleftrightarrow> (\<forall>t\<in>set spaces. \<not> HasPrefix s t \<and> \<not> HasPrefix (rev s) (rev t))"

lemma spaces_nonempty: "[] \<notin> set spaces"
  by (simp add: spaces_def)

lemma trimBy_none: "\<forall>t\<in>set ts. \<not> HasPrefix s t \<Longrightarrow> trimBy ts s = s"
  by (subst trimBy.simps) (auto dest!: find_Some_iff [THEN iffD1] split: option.splits)

lemma TrimSpace_tight: "tight s \<Longrightarrow> TrimSpace s = s"
  by (simp add: TrimSpace_def tight_def trimBy_none)

lemma trimBy_ends: "t \<in> set ts \<Longrightarrow> t \<noteq> [] \<Longrightarrow> \<not> HasPrefix (trimBy ts s) t"
proof (induction ts s rule: trimBy.induct)
  case (1 ts s)
  show ?case
  proof (cases "find (\<lambda>t. t \<noteq> [] \<and> HasPrefix s t) ts")
    case None
    then have "trimBy ts s = s" by (simp add: trimBy.simps)
    then show ?thesis using None 1(2,3) by (auto simp: find_None_iff)
  next
    case (Some u)
    then show ?thesis using 1(1) [OF Some 1(2,3)] by (subst trimBy.simps) simp
  qed
qed


lemma TrimSpace_line:
  assumes "tight s" and "s \<noteq> []"
  shows "TrimSpace (s @ [CHR 0x0A]) = s"
proof -
  have "\<not> HasPrefix (s @ [CHR 0x0A]) t" if t: "t \<in> set spaces" for t
  proof
    assume h: "HasPrefix (s @ [CHR 0x0A]) t"
    show False
    proof (cases "length t \<le> length s")
      case True
      then show False using h t assms(1) by (auto simp: tight_def HasPrefix_def)
    next
      case False
      then have "t = s @ [CHR 0x0A]" using h by (simp add: HasPrefix_def)
      moreover have "t = [CHR 0x0A]" if "last t = CHR 0x0A" using t that by (auto simp: spaces_def)
      ultimately show False using assms(2) by simp
    qed
  qed
  then have l: "trimBy spaces (s @ [CHR 0x0A]) = s @ [CHR 0x0A]" by (intro trimBy_none) blast
  have f: "find (\<lambda>t. t \<noteq> [] \<and> HasPrefix (CHR 0x0A # rev s) t) (map rev spaces) = Some [CHR 0x0A]"
    by (simp add: spaces_def HasPrefix_def)
  have "trimBy (map rev spaces) (CHR 0x0A # rev s) = trimBy (map rev spaces) (rev s)"
    by (subst trimBy.simps) (simp add: f)
  also have "\<dots> = rev s" using assms(1) by (intro trimBy_none) (auto simp: tight_def)
  finally show ?thesis by (simp add: TrimSpace_def l)
qed

section \<open>Booleans\<close>

definition ParseBool :: "string \<Rightarrow> bool option" where
  "ParseBool s =
     (if s \<in> set [''1'', ''t'', ''T'', ''true'', ''TRUE'', ''True''] then Some True
      else if s \<in> set [''0'', ''f'', ''F'', ''false'', ''FALSE'', ''False''] then Some False
      else None)"

section \<open>Durations\<close>

text \<open>
  Nanoseconds. The value of a fraction is a product of floating-point numbers;
  \<open>fprod f unit scale\<close> is what the machine makes of it, \<^verbatim>\<open>uint64(float64(f) * (float64(unit) / scale))\<close>.
\<close>

definition unitNs :: "string \<Rightarrow> nat option" where
  "unitNs u = map_of [(''ns'', 1), (''us'', 1000), ([CHR 0xC2, CHR 0xB5] @ ''s'', 1000), ([CHR 0xCE, CHR 0xBC] @ ''s'', 1000),
     (''ms'', 1000000), (''s'', 1000000000), (''m'', 60000000000), (''h'', 3600000000000)] u"

fun leadingInt :: "nat \<Rightarrow> string \<Rightarrow> (nat \<times> string) option" where
  "leadingInt x [] = Some (x, [])"
| "leadingInt x (c # cs) =
     (case digit_value c of
        None \<Rightarrow> Some (x, c # cs)
      | Some d \<Rightarrow>
          if x > 2 ^ 63 div 10 then None
          else if 10 * x + d > 2 ^ 63 then None
          else leadingInt (10 * x + d) cs)"

fun leadingFraction :: "nat \<Rightarrow> nat \<Rightarrow> bool \<Rightarrow> string \<Rightarrow> nat \<times> nat \<times> string" where
  "leadingFraction x scale overflow [] = (x, scale, [])"
| "leadingFraction x scale overflow (c # cs) =
     (case digit_value c of
        None \<Rightarrow> (x, scale, c # cs)
      | Some d \<Rightarrow>
          if overflow then leadingFraction x scale True cs
          else if x > (2 ^ 63 - 1) div 10 then leadingFraction x scale True cs
          else if 10 * x + d > 2 ^ 63 then leadingFraction x scale True cs
          else leadingFraction (10 * x + d) (10 * scale) False cs)"

definition in_unit :: "char \<Rightarrow> bool" where
  "in_unit c \<longleftrightarrow> c \<noteq> CHR ''.'' \<and> digit_value c = None"

text \<open>The unit at the head of \<open>s\<close>, once the number before it has been read, and what follows.\<close>

definition durUnit :: "(nat \<Rightarrow> nat \<Rightarrow> nat \<Rightarrow> nat) \<Rightarrow> nat \<Rightarrow> nat \<Rightarrow> nat \<Rightarrow> string \<Rightarrow> (nat \<times> string) option" where
  "durUnit fprod v f scale s =
     (case unitNs (takeWhile in_unit s) of
        None \<Rightarrow> None
      | Some unit \<Rightarrow>
          if v > 2 ^ 63 div unit then None
          else let v' = (if f > 0 then (v * unit + fprod f unit scale) mod 2 ^ 64 else v * unit)
               in if f > 0 \<and> v' > 2 ^ 63 then None else Some (v', dropWhile in_unit s))"

definition durTerm :: "(nat \<Rightarrow> nat \<Rightarrow> nat \<Rightarrow> nat) \<Rightarrow> string \<Rightarrow> (nat \<times> string) option" where
  "durTerm fprod s =
     (if s = [] \<or> in_unit (hd s) then None
      else case leadingInt 0 s of
        None \<Rightarrow> None
      | Some (v, s1) \<Rightarrow>
          if s1 \<noteq> [] \<and> hd s1 = CHR ''.'' then
            (case leadingFraction 0 1 False (tl s1) of (f, scale, s2) \<Rightarrow>
               if length s1 = length s \<and> length s2 = length (tl s1) then None else durUnit fprod v f scale s2)
          else if length s1 = length s then None
          else durUnit fprod v 0 1 s1)"

lemma leadingInt_length: "leadingInt x s = Some (v, r) \<Longrightarrow> length r \<le> length s"
  by (induction x s rule: leadingInt.induct) (auto split: option.splits if_splits)

lemma leadingFraction_length: "leadingFraction x k b s = (f, sc, r) \<Longrightarrow> length r \<le> length s"
  by (induction x k b s rule: leadingFraction.induct) (auto split: option.splits if_splits)

lemma durUnit_length: "durUnit fprod v f sc s = Some (w, r) \<Longrightarrow> length r < length s"
proof -
  assume h: "durUnit fprod v f sc s = Some (w, r)"
  then have "takeWhile in_unit s \<noteq> []" and r: "r = dropWhile in_unit s"
    by (auto simp: durUnit_def unitNs_def Let_def split: option.splits if_splits)
  moreover have "length s = length (takeWhile in_unit s) + length (dropWhile in_unit s)"
    by (metis length_append takeWhile_dropWhile_id)
  ultimately show ?thesis by simp
qed

lemma durTerm_length: "durTerm fprod s = Some (w, r) \<Longrightarrow> length r < length s"
  by (auto simp: durTerm_def split: if_splits option.splits prod.splits
      dest!: leadingInt_length leadingFraction_length durUnit_length)

function durLoop :: "(nat \<Rightarrow> nat \<Rightarrow> nat \<Rightarrow> nat) \<Rightarrow> nat \<Rightarrow> string \<Rightarrow> nat option" where
  "durLoop fprod d s =
     (if s = [] then Some d
      else case durTerm fprod s of
        None \<Rightarrow> None
      | Some (v, r) \<Rightarrow>
          if (d + v) mod 2 ^ 64 > 2 ^ 63 then None else durLoop fprod ((d + v) mod 2 ^ 64) r)"
  by pat_completeness auto
termination
  by (relation "measure (\<lambda>(fprod, d, s). length s)") (auto dest: durTerm_length)

declare durLoop.simps [simp del]

definition ParseDuration :: "(nat \<Rightarrow> nat \<Rightarrow> nat \<Rightarrow> nat) \<Rightarrow> string \<Rightarrow> int option" where
  "ParseDuration fprod s =
     (let neg = (s \<noteq> [] \<and> hd s = CHR ''-'');
          s' = (if s \<noteq> [] \<and> (hd s = CHR ''-'' \<or> hd s = CHR ''+'') then tl s else s)
      in if s' = ''0'' then Some 0
         else if s' = [] then None
         else case durLoop fprod 0 s' of
           None \<Rightarrow> None
         | Some d \<Rightarrow>
             if neg then Some (- int d)
             else if d > 2 ^ 63 - 1 then None
             else Some (int d))"

text \<open>A number of seconds, as it is written in a manifest, is read as that many seconds.\<close>

lemma leadingInt_mono: "leadingInt x s = Some (v, []) \<Longrightarrow> leadingInt x (s @ t) = leadingInt v t"
  by (induction x s rule: leadingInt.induct) (auto split: option.splits if_splits)

lemma leadingInt_digits: "n < 2 ^ 63 \<Longrightarrow> leadingInt 0 (digits n) = Some (n, [])"
proof (induction n rule: digits.induct)
  case (1 n)
  show ?case
  proof (cases "n < 10")
    case True
    then show ?thesis by (subst digits.simps) simp
  next
    case False
    have d: "n div 10 < 2 ^ 63" "10 * (n div 10) + n mod 10 = n" using 1(2) by auto
    have "leadingInt 0 (digits n) = leadingInt (n div 10) [digit (n mod 10)]"
      using False leadingInt_mono [OF 1(1) [OF False d(1)]] by (subst digits.simps) simp
    then show ?thesis using d(2) 1(2) by (simp add: div_le_mono)
  qed
qed

lemma ParseDuration_seconds:
  assumes "n * 1000000000 < 2 ^ 63"
  shows "ParseDuration fprod (digits n @ ''s'') = Some (int n * 1000000000)"
proof -
  obtain d where d: "d < 10" "hd (digits n) = digit d" using hd_digits by blast
  have u: "digit_value CHR ''s'' = None" by (simp add: digit_value_def)
  have l: "leadingInt 0 (digits n @ ''s'') = Some (n, ''s'')"
    using leadingInt_mono [OF leadingInt_digits [of n]] assms u by simp
  have unit: "durUnit fprod n 0 1 ''s'' = Some (n * 1000000000, [])"
    using assms u by (simp add: durUnit_def unitNs_def in_unit_def Let_def)
  have "durTerm fprod (digits n @ ''s'') = Some (n * 1000000000, [])"
    using d l unit by (simp add: durTerm_def in_unit_def)
  then have "durLoop fprod 0 (digits n @ ''s'') = Some (n * 1000000000)"
    using assms by (simp add: durLoop.simps)
  moreover have "digits n @ ''s'' \<noteq> ''0''"
    by (metis append_is_Nil_conv butlast_snoc digits_nonempty last_snoc list.distinct(1) append_Nil list.sel(1))
  ultimately show ?thesis using d assms by (simp add: ParseDuration_def Let_def)
qed


section \<open>The request multiplexer\<close>

text \<open>
  \<^verbatim>\<open>http.ServeMux\<close> on a clean path: a pattern that ends in a slash stands for its subtree, the
  longest that applies wins, and a path that lacks only the slash of a pattern is redirected to it.
\<close>

datatype routed = Route string | Redirect string | NoRoute

definition longest :: "string list \<Rightarrow> string option" where
  "longest ps = foldr (\<lambda>p best. case best of None \<Rightarrow> Some p | Some q \<Rightarrow> if length q \<le> length p then Some p else Some q) ps None"

definition subtrees :: "string list \<Rightarrow> string \<Rightarrow> string list" where
  "subtrees ps path = filter (\<lambda>p. p \<noteq> [] \<and> last p = CHR ''/'' \<and> HasPrefix path p) ps"

definition route :: "string list \<Rightarrow> string \<Rightarrow> routed" where
  "route ps path =
     (if path \<in> set ps then Route path
      else if path @ ''/'' \<in> set ps then Redirect (path @ ''/'')
      else case longest (subtrees ps path) of None \<Rightarrow> NoRoute | Some p \<Rightarrow> Route p)"

lemma longest_in: "longest ps = Some p \<Longrightarrow> p \<in> set ps"
  by (induction ps arbitrary: p) (auto simp: longest_def split: option.splits if_splits)

text \<open>A handler is only ever run for a path its pattern covers.\<close>

lemma route_covers: "route ps path = Route p \<Longrightarrow> p \<in> set ps \<and> HasPrefix path p"
  by (auto simp: route_def subtrees_def HasPrefix_def split: if_splits option.splits dest!: longest_in)

end
