(* ===== verification/Lifecycle.thy ===== *)
theory Lifecycle
  imports Resumer Go_Strings
begin

text \<open>
  The client of the lifecycle API, \<^verbatim>\<open>internal/ateapi/ateapi.go\<close>, and the operator's endpoints
  of the egress broker that use it, \<^verbatim>\<open>cmd/egress-broker/main.go\<close>. The generated gRPC stubs and
  the gRPC library are parameters: what a call returns, and whether a connection can be made.
\<close>

section \<open>The API client\<close>

record AteConfig =
  Addr :: string
  Insecure :: bool

datatype transportCreds = Plaintext | TLSSkipVerify

text \<open>\<open>newClient\<close> is \<^verbatim>\<open>grpc.NewClient\<close> with the transport credentials; an error is its text.\<close>

definition Dial :: "(string \<Rightarrow> transportCreds \<Rightarrow> string + 'conn) \<Rightarrow> AteConfig \<Rightarrow> string + 'conn" where
  "Dial newClient cfg =
     (if Addr cfg = [] then Inl ''ateapi: Addr is required''
      else case newClient (Addr cfg) (if Insecure cfg then Plaintext else TLSSkipVerify) of
        Inl err \<Rightarrow> Inl (''ateapi: dial '' @ Addr cfg @ '': '' @ err)
      | Inr conn \<Rightarrow> Inr conn)"

text \<open>The requests of the Control service: an actor by atespace and name, a new one with its template.\<close>

datatype ctrlRequest =
    SuspendActorRequest string string
  | ResumeActorRequest string string
  | CreateActorRequest string string string string
  | DeleteActorRequest string string

type_synonym ctrl = "ctrlRequest \<Rightarrow> string option"

definition SuspendActor :: "ctrl \<Rightarrow> Ref \<Rightarrow> string option" where
  "SuspendActor ctrl actor = ctrl (SuspendActorRequest (Atespace actor) (Name actor))"

definition ResumeActor :: "ctrl \<Rightarrow> Ref \<Rightarrow> string option" where
  "ResumeActor ctrl actor = ctrl (ResumeActorRequest (Atespace actor) (Name actor))"

definition CreateActor :: "ctrl \<Rightarrow> Ref \<Rightarrow> string \<Rightarrow> string \<Rightarrow> string option" where
  "CreateActor ctrl actor templateNamespace templateName =
     ctrl (CreateActorRequest (Atespace actor) (Name actor) templateNamespace templateName)"

definition DeleteActor :: "ctrl \<Rightarrow> Ref \<Rightarrow> string option" where
  "DeleteActor ctrl actor = ctrl (DeleteActorRequest (Atespace actor) (Name actor))"

section \<open>The debug endpoint\<close>

text \<open>
  What a request to the debug address does: the calls of the API and the answer. A call's error
  is the text of a 502; \<open>sessionsJSON\<close> is the encoding of the session listing.
\<close>

datatype debugAnswer = Answer int string

datatype verb = SuspendVerb | ResumeVerb

definition verbName :: "verb \<Rightarrow> string" where
  "verbName v = (case v of SuspendVerb \<Rightarrow> ''suspend'' | ResumeVerb \<Rightarrow> ''resume'')"

definition verbPrefix :: "verb \<Rightarrow> string" where
  "verbPrefix v = ''/debug/'' @ verbName v @ ''/''"

definition verbRequest :: "verb \<Rightarrow> Ref \<Rightarrow> ctrlRequest" where
  "verbRequest v r =
     (case v of SuspendVerb \<Rightarrow> SuspendActorRequest (Atespace r) (Name r) | ResumeVerb \<Rightarrow> ResumeActorRequest (Atespace r) (Name r))"

text \<open>\<^verbatim>\<open>http.Error\<close> ends its text with a line feed.\<close>

definition httpError :: "string \<Rightarrow> int \<Rightarrow> debugAnswer" where
  "httpError msg code = Answer code (msg @ [CHR 0x0A])"

definition lifecycleHandler :: "verb \<Rightarrow> ctrl \<Rightarrow> string \<Rightarrow> string \<Rightarrow> ctrlRequest list \<times> debugAnswer" where
  "lifecycleHandler v ctrl reqMethod path =
     (if reqMethod \<noteq> ''POST'' then ([], httpError ''POST required'' 405)
      else let tail = TrimPrefix path (verbPrefix v) in
        case SplitN2 tail (CHR ''/'') of
          [a, n] \<Rightarrow>
            if a = [] \<or> n = [] then ([], httpError (''path must be '' @ verbPrefix v @ ''{atespace}/{name}'') 400)
            else let q = verbRequest v \<lparr>Atespace = a, Name = n\<rparr> in
              (case ctrl q of Some err \<Rightarrow> ([q], httpError err 502) | None \<Rightarrow> ([q], Answer 204 []))
        | _ \<Rightarrow> ([], httpError (''path must be '' @ verbPrefix v @ ''{atespace}/{name}'') 400))"

definition debugPatterns :: "string list" where
  "debugPatterns = [''/healthz'', ''/debug/sessions'', ''/debug/suspend/'', ''/debug/resume/'']"

definition serveDebug :: "ctrl \<Rightarrow> string \<Rightarrow> string \<Rightarrow> string \<Rightarrow> ctrlRequest list \<times> debugAnswer" where
  "serveDebug ctrl sessionsJSON reqMethod path =
     (case route debugPatterns path of
        Route p \<Rightarrow>
          if p = ''/healthz'' then ([], Answer 200 (''ok'' @ [CHR 0x0A]))
          else if p = ''/debug/sessions'' then ([], Answer 200 sessionsJSON)
          else if p = ''/debug/suspend/'' then lifecycleHandler SuspendVerb ctrl reqMethod path
          else lifecycleHandler ResumeVerb ctrl reqMethod path
      | Redirect p \<Rightarrow> ([], Answer 301 p)
      | NoRoute \<Rightarrow> ([], httpError ''404 page not found'' 404))"

section \<open>Properties\<close>

lemma lifecycleHandler_calls:
  "fst (lifecycleHandler v ctrl m path) =
     (case SplitN2 (TrimPrefix path (verbPrefix v)) (CHR ''/'') of
        [a, n] \<Rightarrow> if m = ''POST'' \<and> a \<noteq> [] \<and> n \<noteq> [] then [verbRequest v \<lparr>Atespace = a, Name = n\<rparr>] else []
      | _ \<Rightarrow> [])"
  by (auto simp: lifecycleHandler_def Let_def split: list.splits option.splits)

lemma route_debug:
  "route debugPatterns (''/debug/suspend/'' @ t) = Route ''/debug/suspend/''"
  "route debugPatterns (''/debug/resume/'' @ t) = Route ''/debug/resume/''"
  by (auto simp: route_def debugPatterns_def subtrees_def HasPrefix_def longest_def)

text \<open>The calls made for a path under the prefix of a verb, and that there are none for others.\<close>

lemma serveDebug_calls:
  "fst (serveDebug ctrl js m (verbPrefix v @ t)) =
     (case SplitN2 t (CHR ''/'') of
        [a, n] \<Rightarrow> if m = ''POST'' \<and> a \<noteq> [] \<and> n \<noteq> [] then [verbRequest v \<lparr>Atespace = a, Name = n\<rparr>] else []
      | _ \<Rightarrow> [])"
proof -
  have "TrimPrefix (verbPrefix v @ t) (verbPrefix v) = t"
    using TrimPrefix_append [of "verbPrefix v" t] by simp
  then show ?thesis
    using route_debug [of t] lifecycleHandler_calls [of v ctrl m "verbPrefix v @ t"]
    by (cases v) (simp_all add: serveDebug_def verbPrefix_def verbName_def)
qed

lemma serveDebug_quiet:
  assumes "\<forall>v t. path \<noteq> verbPrefix v @ t"
  shows "fst (serveDebug ctrl js m path) = []"
proof -
  have "\<not> HasPrefix path (verbPrefix v)" for v
  proof
    assume "HasPrefix path (verbPrefix v)"
    then have "path = verbPrefix v @ drop (length (verbPrefix v)) path"
      unfolding HasPrefix_def by (metis append_assoc append_take_drop_id)
    then show False using assms by blast
  qed
  from this [of SuspendVerb] this [of ResumeVerb] show ?thesis
    by (auto simp: serveDebug_def verbPrefix_def verbName_def debugPatterns_def split: routed.splits dest!: route_covers)
qed



end
