(* ===== verification/Activity.thy ===== *)
theory Activity
  imports Prelude
begin

text \<open>
  The agent's activity report: the \<^verbatim>\<open>Status\<close> of \<^verbatim>\<open>internal/activitystatus/status.go\<close>
  and the \<^verbatim>\<open>Tracker\<close> of \<^verbatim>\<open>internal/activityz/activityz.go\<close>, fed by callbacks of
  the agent framework. Times are nanoseconds; the zero \<^verbatim>\<open>time.Time\<close> is \<^const>\<open>None\<close>.
\<close>

section \<open>State\<close>

record Status =
  InvocationsInFlight :: int
  ToolCallsInFlight :: int
  ToolCallsStarted :: u64
  ModelCallsInFlight :: int
  ModelCallsStarted :: u64
  ToolBlockedMillis :: int
  ModelBlockedMillis :: int
  IdleMillis :: int

record Tracker =
  invocations :: int
  toolCalls :: int
  toolCallsTotal :: u64
  modelCalls :: int
  modelCallsTotal :: u64
  toolBusySince :: "int option"
  modelBusy :: "int option"
  lastActivity :: int

text \<open>\<^verbatim>\<open>Duration.Milliseconds\<close>: integer division rounds towards zero.\<close>

definition Milliseconds :: "int \<Rightarrow> int" where
  "Milliseconds d = (if 0 \<le> d then d div 1000000 else - (- d div 1000000))"

definition newTracker :: "int \<Rightarrow> Tracker" where
  "newTracker now =
     \<lparr>invocations = 0, toolCalls = 0, toolCallsTotal = 0, modelCalls = 0, modelCallsTotal = 0,
      toolBusySince = None, modelBusy = None, lastActivity = now\<rparr>"

section \<open>Callbacks\<close>

definition beforeRun :: "int \<Rightarrow> Tracker \<Rightarrow> Tracker" where
  "beforeRun now t = t\<lparr>invocations := invocations t + 1, lastActivity := now\<rparr>"

definition afterRun :: "int \<Rightarrow> Tracker \<Rightarrow> Tracker" where
  "afterRun now t =
     t\<lparr>invocations := (if invocations t > 0 then invocations t - 1 else invocations t), lastActivity := now\<rparr>"

definition beforeTool :: "int \<Rightarrow> Tracker \<Rightarrow> Tracker" where
  "beforeTool now t =
     t\<lparr>toolBusySince := (if toolCalls t = 0 then Some now else toolBusySince t),
       toolCalls := toolCalls t + 1, toolCallsTotal := toolCallsTotal t + 1, lastActivity := now\<rparr>"

definition afterTool :: "int \<Rightarrow> Tracker \<Rightarrow> Tracker" where
  "afterTool now t =
     (let n = (if toolCalls t > 0 then toolCalls t - 1 else toolCalls t)
      in t\<lparr>toolCalls := n, toolBusySince := (if n = 0 then None else toolBusySince t), lastActivity := now\<rparr>)"

definition beforeModel :: "int \<Rightarrow> Tracker \<Rightarrow> Tracker" where
  "beforeModel now t =
     t\<lparr>modelBusy := (if modelCalls t = 0 then Some now else modelBusy t),
       modelCalls := modelCalls t + 1, modelCallsTotal := modelCallsTotal t + 1, lastActivity := now\<rparr>"

definition afterModel :: "int \<Rightarrow> Tracker \<Rightarrow> Tracker" where
  "afterModel now t =
     (let n = (if modelCalls t > 0 then modelCalls t - 1 else modelCalls t)
      in t\<lparr>modelCalls := n, modelBusy := (if n = 0 then None else modelBusy t), lastActivity := now\<rparr>)"

definition Snapshot :: "int \<Rightarrow> Tracker \<Rightarrow> Status" where
  "Snapshot now t =
     \<lparr>InvocationsInFlight = invocations t, ToolCallsInFlight = toolCalls t, ToolCallsStarted = toolCallsTotal t,
      ModelCallsInFlight = modelCalls t, ModelCallsStarted = modelCallsTotal t,
      ToolBlockedMillis = (case toolBusySince t of None \<Rightarrow> 0 | Some s \<Rightarrow> Milliseconds (now - s)),
      ModelBlockedMillis = (case modelBusy t of None \<Rightarrow> 0 | Some s \<Rightarrow> Milliseconds (now - s)),
      IdleMillis = (if invocations t = 0 \<and> toolCalls t + modelCalls t = 0
                    then Milliseconds (now - lastActivity t) else 0)\<rparr>"

datatype tracker_call = BeforeRun | AfterRun | BeforeTool | AfterTool | BeforeModel | AfterModel

fun track :: "Tracker \<Rightarrow> int \<times> tracker_call \<Rightarrow> Tracker" where
  "track t (now, BeforeRun) = beforeRun now t"
| "track t (now, AfterRun) = afterRun now t"
| "track t (now, BeforeTool) = beforeTool now t"
| "track t (now, AfterTool) = afterTool now t"
| "track t (now, BeforeModel) = beforeModel now t"
| "track t (now, AfterModel) = afterModel now t"

lemmas track_defs = beforeRun_def afterRun_def beforeTool_def afterTool_def beforeModel_def afterModel_def

section \<open>Reference definitions over the history\<close>

text \<open>
  The number of tool calls in flight after a history (an end with none in flight is ignored),
  the number started, and the time since when at least one has been in flight.
\<close>

fun openTools :: "int \<Rightarrow> (int \<times> tracker_call) list \<Rightarrow> int" where
  "openTools n [] = n"
| "openTools n ((now, BeforeTool) # evs) = openTools (n + 1) evs"
| "openTools n ((now, AfterTool) # evs) = openTools (max 0 (n - 1)) evs"
| "openTools n (_ # evs) = openTools n evs"

definition startedTools :: "(int \<times> tracker_call) list \<Rightarrow> nat" where
  "startedTools evs = length (filter (\<lambda>ev. snd ev = BeforeTool) evs)"

definition busy_from :: "(int \<times> tracker_call) list \<Rightarrow> int \<Rightarrow> bool" where
  "busy_from evs s \<longleftrightarrow>
     (\<exists>evs1 evs2. evs = evs1 @ (s, BeforeTool) # evs2 \<and> openTools 0 evs1 = 0 \<and>
        (\<forall>k\<le>length evs2. openTools 0 (evs1 @ (s, BeforeTool) # take k evs2) > 0))"

lemma openTools_append: "openTools n (evs @ evs') = openTools (openTools n evs) evs'"
  by (induction n evs rule: openTools.induct) simp_all

lemma openTools_nonneg: "0 \<le> n \<Longrightarrow> 0 \<le> openTools n evs"
  by (induction n evs rule: openTools.induct) simp_all

lemma openTools_snoc:
  "openTools 0 (evs @ [(now, cb)]) =
     (case cb of BeforeTool \<Rightarrow> openTools 0 evs + 1 | AfterTool \<Rightarrow> max 0 (openTools 0 evs - 1) | _ \<Rightarrow> openTools 0 evs)"
  by (cases cb) (simp_all add: openTools_append)

lemma busy_from_idle: "openTools 0 evs = 0 \<Longrightarrow> \<not> busy_from evs s"
  by (auto simp: busy_from_def)

lemma busy_from_pos: "busy_from evs s \<Longrightarrow> openTools 0 evs > 0"
  using busy_from_idle [of evs s] openTools_nonneg [of 0 evs] by fastforce

lemma busy_from_snoc:
  "busy_from (evs @ [(now, cb)]) s \<longleftrightarrow>
     openTools 0 (evs @ [(now, cb)]) > 0 \<and>
     (busy_from evs s \<or> openTools 0 evs = 0 \<and> cb = BeforeTool \<and> s = now)"
proof
  assume "busy_from (evs @ [(now, cb)]) s"
  then obtain evs1 evs2 where e: "evs @ [(now, cb)] = evs1 @ (s, BeforeTool) # evs2" "openTools 0 evs1 = 0"
    and pos: "\<forall>k\<le>length evs2. openTools 0 (evs1 @ (s, BeforeTool) # take k evs2) > 0"
    by (auto simp: busy_from_def)
  have last: "openTools 0 (evs @ [(now, cb)]) > 0" using pos e(1) by (metis order_refl take_all_iff)
  show "openTools 0 (evs @ [(now, cb)]) > 0 \<and> (busy_from evs s \<or> openTools 0 evs = 0 \<and> cb = BeforeTool \<and> s = now)"
  proof (cases evs2 rule: rev_cases)
    case Nil
    then show ?thesis using e last by simp
  next
    case (snoc evs3 ev)
    then have "evs = evs1 @ (s, BeforeTool) # evs3" using e(1) by simp
    moreover have "openTools 0 (evs1 @ (s, BeforeTool) # take k evs3) > 0" if "k \<le> length evs3" for k
      using pos [rule_format, of k] that snoc by simp
    ultimately have "busy_from evs s" using e(2) by (auto simp: busy_from_def)
    then show ?thesis using last by simp
  qed
next
  assume a: "openTools 0 (evs @ [(now, cb)]) > 0 \<and> (busy_from evs s \<or> openTools 0 evs = 0 \<and> cb = BeforeTool \<and> s = now)"
  then consider "busy_from evs s" | "openTools 0 evs = 0" "cb = BeforeTool" "s = now" by blast
  then show "busy_from (evs @ [(now, cb)]) s"
  proof cases
    case 1
    then obtain evs1 evs2 where e: "evs = evs1 @ (s, BeforeTool) # evs2" "openTools 0 evs1 = 0"
      and pos: "\<forall>k\<le>length evs2. openTools 0 (evs1 @ (s, BeforeTool) # take k evs2) > 0"
      by (auto simp: busy_from_def)
    have "openTools 0 (evs1 @ (s, BeforeTool) # take k (evs2 @ [(now, cb)])) > 0" if "k \<le> length (evs2 @ [(now, cb)])" for k
      using pos a e(1) that by (cases "k = Suc (length evs2)") (auto simp: le_Suc_eq)
    then show ?thesis
      unfolding busy_from_def using e by (intro exI [of _ evs1] exI [of _ "evs2 @ [(now, cb)]"]) simp
  next
    case 2
    then show ?thesis
      unfolding busy_from_def by (intro exI [of _ evs] exI [of _ "[]"]) (simp add: openTools_append)
  qed
qed

lemma busy_from_exists: "openTools 0 evs > 0 \<Longrightarrow> \<exists>s. busy_from evs s"
proof (induction evs rule: rev_induct)
  case (snoc ev evs)
  obtain now cb where ev: "ev = (now, cb)" by fastforce
  have nn: "0 \<le> openTools 0 evs" by (rule openTools_nonneg) simp
  show ?case
  proof (cases "openTools 0 evs > 0")
    case True
    then show ?thesis using snoc ev by (auto simp: busy_from_snoc)
  next
    case False
    then have "openTools 0 evs = 0" "cb = BeforeTool"
      using nn snoc.prems ev by (auto simp: openTools_snoc split: tracker_call.splits)
    then show ?thesis using snoc.prems ev by (auto simp: busy_from_snoc)
  qed
qed simp

section \<open>The tracker refines its history\<close>

definition tracks :: "Tracker \<Rightarrow> (int \<times> tracker_call) list \<Rightarrow> bool" where
  "tracks t evs \<longleftrightarrow> toolCalls t = openTools 0 evs \<and> toolCallsTotal t = of_nat (startedTools evs) \<and>
     (\<forall>s. toolBusySince t = Some s \<longleftrightarrow> busy_from evs s) \<and> 0 \<le> invocations t \<and> 0 \<le> modelCalls t \<and>
     (modelBusy t = None \<longleftrightarrow> modelCalls t = 0)"

lemma tracks_step:
  assumes "tracks t evs"
  shows "tracks (track t (now, cb)) (evs @ [(now, cb)])"
proof -
  have nn: "0 \<le> openTools 0 evs" by (rule openTools_nonneg) simp
  have none: "toolBusySince t = None" if "openTools 0 evs = 0"
    using assms busy_from_idle [OF that] by (auto simp: tracks_def)
  show ?thesis
    using assms nn none busy_from_pos [of evs]
    by (cases cb) (auto simp: tracks_def track_defs Let_def openTools_snoc startedTools_def busy_from_snoc)
qed

lemma tracks_run: "tracks (foldl track (newTracker t0) evs) evs"
proof (induction evs rule: rev_induct)
  case Nil
  show ?case by (simp add: tracks_def newTracker_def startedTools_def busy_from_def)
next
  case (snoc ev evs)
  then show ?case using tracks_step [of _ evs "fst ev" "snd ev"] by simp
qed

section \<open>Properties\<close>



section \<open>Departure from the documented contract\<close>

text \<open>
  \<^verbatim>\<open>ToolBlockedMillis\<close> is documented as the age of the oldest tool call in flight. With
  overlapping calls it is older: here the only call in flight started 101 ms ago, and the
  report says 1001 ms, over the default suspend threshold of one second.
\<close>

theorem tool_age_exceeds_oldest_call:
  "ToolBlockedMillis (Snapshot 1001000000 (foldl track (newTracker 0)
     [(0, BeforeTool), (900000000, BeforeTool), (1000000000, AfterTool)])) = 1001"
  by (simp add: Snapshot_def newTracker_def track_defs Milliseconds_def)

end
