(* ===== verification/Suspender.thy ===== *)
theory Suspender
  imports Activity
begin

text \<open>
  The sidecar's suspend policy, \<^verbatim>\<open>internal/sidecar/suspender.go\<close>: the poller that suspends
  the actor when it is blocked on a tunnelled call or idle between requests. Durations and
  times are nanoseconds; the zero \<^verbatim>\<open>time.Time\<close> is \<^const>\<open>None\<close>.
\<close>

section \<open>Configuration and state\<close>

record SuspenderConfig =
  PollInterval :: int
  BlockedAfter :: int
  IncludeModelCalls :: bool
  IdleAfter :: int
  Cooldown :: int
  hasIngressIdle :: bool

text \<open>
  The fields of \<^verbatim>\<open>Suspender\<close> that decide, and the variables local to \<^verbatim>\<open>Run\<close>. The
  lifecycle client and the status URL are used only for I/O; \<open>ingress\<close> says whether the
  ingress idle signal is present.
\<close>

record Suspender =
  poll :: int
  blocked :: int
  includeModel :: bool
  idle :: int
  cooldown :: int
  resumeGap :: int
  ingress :: bool
  lastToolGen :: u64
  lastModelGen :: u64
  lastSuspend :: "int option"
  prevTick :: int
  idleGraceUntil :: "int option"

definition NewSuspender :: "SuspenderConfig \<Rightarrow> int \<Rightarrow> Suspender" where
  "NewSuspender c wall =
     (let p = (if PollInterval c = 0 then 500000000 else PollInterval c)
      in \<lparr>poll = p,
          blocked = (if BlockedAfter c = 0 then 1000000000 else BlockedAfter c),
          includeModel = IncludeModelCalls c,
          idle = IdleAfter c,
          cooldown = (if Cooldown c = 0 then 2000000000 else Cooldown c),
          resumeGap = (if p * 3 > 2000000000 then p * 3 else 2000000000),
          ingress = hasIngressIdle c,
          lastToolGen = 0, lastModelGen = 0, lastSuspend = None, prevTick = wall, idleGraceUntil = None\<rparr>)"

section \<open>Decisions\<close>

datatype reason = ToolBlocked | ModelBlocked | Idle

definition decideBlocked :: "Suspender \<Rightarrow> Status \<Rightarrow> reason option" where
  "decideBlocked s st =
     (if ToolCallsInFlight st > 0 \<and> ToolBlockedMillis st \<ge> Milliseconds (blocked s) then Some ToolBlocked
      else if includeModel s \<and> ModelCallsInFlight st > 0 \<and> ModelBlockedMillis st \<ge> Milliseconds (blocked s)
      then Some ModelBlocked
      else None)"

text \<open>
  What one tick of the poller sees: the wall clock and the monotonic clock at its start, the
  answer of \<^verbatim>\<open>/statusz\<close> (\<^const>\<open>None\<close> when the fetch failed), the ingress idle time, and
  the monotonic clock when the cooldown is checked and when the suspend is stamped.
\<close>

record tick =
  wallNow :: int
  monoNow :: int
  fetched :: "Status option"
  ingressIdle :: int
  monoLate :: int
  monoStamp :: int

definition decide :: "Suspender \<Rightarrow> tick \<Rightarrow> reason option" where
  "decide s k =
     (let r = (case fetched k of None \<Rightarrow> None | Some st \<Rightarrow> decideBlocked s st)
      in if r = None \<and> ingress s \<and> idle s > 0 \<and>
            (case idleGraceUntil s of None \<Rightarrow> True | Some t \<Rightarrow> monoNow k > t) \<and> ingressIdle k \<ge> idle s
         then Some Idle else r)"

text \<open>The started-count gate: each call is suspended at most once.\<close>

definition gated :: "Suspender \<Rightarrow> tick \<Rightarrow> reason \<Rightarrow> bool" where
  "gated s k r =
     (case fetched k of
        None \<Rightarrow> False
      | Some st \<Rightarrow>
          (case r of
             ToolBlocked \<Rightarrow> ToolCallsStarted st \<le> lastToolGen s
           | ModelBlocked \<Rightarrow> ModelCallsStarted st \<le> lastModelGen s
           | Idle \<Rightarrow> False))"

definition commit :: "Suspender \<Rightarrow> tick \<Rightarrow> reason \<Rightarrow> Suspender" where
  "commit s k r =
     (case fetched k of
        None \<Rightarrow> s
      | Some st \<Rightarrow>
          (case r of
             ToolBlocked \<Rightarrow> s\<lparr>lastToolGen := ToolCallsStarted st\<rparr>
           | ModelBlocked \<Rightarrow> s\<lparr>lastModelGen := ModelCallsStarted st\<rparr>
           | Idle \<Rightarrow> s))"

text \<open>
  The start of a turn: a wall-clock gap above \<open>resumeGap\<close> since the last tick means that the
  actor was suspended in between, and opens the grace window.
\<close>

definition noticed :: "Suspender \<Rightarrow> tick \<Rightarrow> Suspender" where
  "noticed s k = s\<lparr>idleGraceUntil :=
        (if wallNow k - prevTick s > resumeGap s then Some (monoNow k + idle s) else idleGraceUntil s),
        prevTick := wallNow k\<rparr>"

text \<open>The cooldown, which a suspend that never happened (the zero time) does not start.\<close>

definition cooling :: "Suspender \<Rightarrow> tick \<Rightarrow> bool" where
  "cooling s k = (case lastSuspend s of None \<Rightarrow> False | Some t \<Rightarrow> monoLate k - t < cooldown s)"

text \<open>One turn of \<^verbatim>\<open>Run\<close>: the new state, and the reason if \<^verbatim>\<open>suspend\<close> is called.\<close>

definition pollTurn :: "Suspender \<Rightarrow> tick \<Rightarrow> Suspender \<times> reason option" where
  "pollTurn s0 k =
     (let s = noticed s0 k
      in case decide s k of
           None \<Rightarrow> (s, None)
         | Some r \<Rightarrow>
             if gated s k r \<or> cooling s k then (s, None)
             else ((commit s k r)\<lparr>lastSuspend := Some (monoStamp k)\<rparr>, Some r))"

text \<open>A run of the poller, with the suspends it makes: the tick and the reason of each.\<close>

fun pollRun :: "Suspender \<Rightarrow> tick list \<Rightarrow> (tick \<times> reason) list" where
  "pollRun s [] = []"
| "pollRun s (k # ks) =
     (case pollTurn s k of
        (s', None) \<Rightarrow> pollRun s' ks
      | (s', Some r) \<Rightarrow> (k, r) # pollRun s' ks)"

section \<open>Lemmas\<close>

text \<open>The generation a suspend is charged to.\<close>

definition gens :: "reason \<Rightarrow> (tick \<times> reason) list \<Rightarrow> u64 list" where
  "gens r sus = List.map_filter (\<lambda>(k, r').
     if r' = r then map_option (\<lambda>st. if r = ToolBlocked then ToolCallsStarted st else ModelCallsStarted st) (fetched k)
     else None) sus"

definition lastGen :: "reason \<Rightarrow> Suspender \<Rightarrow> u64" where
  "lastGen r s = (if r = ToolBlocked then lastToolGen s else lastModelGen s)"

lemma noticed_simps [simp]:
  "lastToolGen (noticed s k) = lastToolGen s" "lastModelGen (noticed s k) = lastModelGen s"
  "lastSuspend (noticed s k) = lastSuspend s" "cooldown (noticed s k) = cooldown s"
  "blocked (noticed s k) = blocked s" "includeModel (noticed s k) = includeModel s"
  "ingress (noticed s k) = ingress s" "idle (noticed s k) = idle s"
  by (simp_all add: noticed_def)

lemma pollTurn_suspends:
  assumes "pollTurn s k = (s', Some r)"
  shows "decide (noticed s k) k = Some r" and "\<not> gated (noticed s k) k r" and "\<not> cooling (noticed s k) k"
    and "s' = (commit (noticed s k) k r)\<lparr>lastSuspend := Some (monoStamp k)\<rparr>"
  using assms by (simp_all add: pollTurn_def Let_def split: option.splits if_splits)

lemma pollTurn_waits:
  assumes "pollTurn s k = (s', None)"
  shows "lastToolGen s' = lastToolGen s \<and> lastModelGen s' = lastModelGen s \<and> lastSuspend s' = lastSuspend s \<and>
    cooldown s' = cooldown s"
  using assms unfolding pollTurn_def Let_def by (auto split: option.splits if_splits)

lemma decide_blocked:
  "decide s k = Some ToolBlocked \<Longrightarrow> \<exists>st. fetched k = Some st \<and> ToolCallsInFlight st > 0 \<and> ToolBlockedMillis st \<ge> Milliseconds (blocked s)"
  "decide s k = Some ModelBlocked \<Longrightarrow> \<exists>st. fetched k = Some st \<and> includeModel s \<and> ModelCallsInFlight st > 0 \<and> ModelBlockedMillis st \<ge> Milliseconds (blocked s)"
  "decide s k = Some Idle \<Longrightarrow> ingress s \<and> idle s > 0 \<and> ingressIdle k \<ge> idle s \<and> (\<forall>t. idleGraceUntil s = Some t \<longrightarrow> t < monoNow k)"
  by (auto simp: decide_def decideBlocked_def Let_def split: option.splits if_splits)

lemma commit_cooldown [simp]:
  "cooldown (commit s k r) = cooldown s" "blocked (commit s k r) = blocked s" "includeModel (commit s k r) = includeModel s"
  "ingress (commit s k r) = ingress s" "idle (commit s k r) = idle s"
  by (auto simp: commit_def split: option.splits reason.splits)

lemma pollTurn_gen:
  assumes "pollTurn s k = (s', Some r)" and "r0 \<in> {ToolBlocked, ModelBlocked}"
  shows "r = r0 \<Longrightarrow> gens r0 [(k, r)] = [lastGen r0 s'] \<and> lastGen r0 s < lastGen r0 s'"
    and "r \<noteq> r0 \<Longrightarrow> gens r0 [(k, r)] = [] \<and> lastGen r0 s' = lastGen r0 s"
proof -
  note p = pollTurn_suspends [OF assms(1)]
  show "gens r0 [(k, r)] = [lastGen r0 s'] \<and> lastGen r0 s < lastGen r0 s'" if "r = r0"
    using assms(2) that p(1,2) decide_blocked(1,2) [of "noticed s k" k]
    by (auto simp: p(4) gens_def map_filter_def lastGen_def commit_def gated_def)
  show "gens r0 [(k, r)] = [] \<and> lastGen r0 s' = lastGen r0 s" if "r \<noteq> r0"
    using assms(2) that
    by (auto simp: p(4) gens_def map_filter_def lastGen_def commit_def split: reason.splits option.splits)
qed

lemma gens_Cons: "gens r (x # xs) = gens r [x] @ gens r xs"
  by (simp add: gens_def map_filter_def)

lemma gens_increase:
  assumes "r \<in> {ToolBlocked, ModelBlocked}"
  shows "sorted_wrt (<) (lastGen r s # gens r (pollRun s ks))"
proof (induction ks arbitrary: s)
  case (Cons k ks)
  obtain s' q where t: "pollTurn s k = (s', q)" by fastforce
  show ?case
  proof (cases q)
    case None
    then have "lastGen r s' = lastGen r s" using pollTurn_waits [of s k s'] t by (simp add: lastGen_def)
    then show ?thesis using Cons.IH [of s'] None t by simp
  next
    case (Some r')
    note g = pollTurn_gen [OF _ assms, of s k s' r']
    show ?thesis
    proof (cases "r' = r")
      case True
      then have "gens r [(k, r')] = [lastGen r s']" "lastGen r s < lastGen r s'" using g(1) t Some by auto
      then show ?thesis
        using Cons.IH [of s'] Some t by (auto simp: gens_Cons [of r "(k, r')" "pollRun s' ks"] intro: less_trans)
    next
      case False
      then have "gens r [(k, r')] = []" "lastGen r s' = lastGen r s" using g(2) t Some by auto
      then show ?thesis using Cons.IH [of s'] Some t by (simp add: gens_Cons [of r "(k, r')" "pollRun s' ks"])
    qed
  qed
qed (simp add: gens_def map_filter_def)

lemma gens_tool_length: "length (gens ToolBlocked (pollRun s ks)) = length (filter (\<lambda>x. snd x = ToolBlocked) (pollRun s ks))"
proof (induction ks arbitrary: s)
  case (Cons k ks)
  obtain s' q where t: "pollTurn s k = (s', q)" by fastforce
  show ?case
  proof (cases q)
    case (Some r)
    have "length (gens ToolBlocked [(k, r)]) = (if r = ToolBlocked then 1 else 0)"
      using pollTurn_gen [of s k s' r ToolBlocked] t Some by auto
    then show ?thesis using Cons.IH [of s'] t Some by (simp add: gens_Cons [of _ "(k, r)" "pollRun s' ks"])
  qed (use Cons.IH t in simp)
qed (simp add: gens_def map_filter_def)

lemma gens_range:
  assumes "g \<in> set (gens ToolBlocked (pollRun s ks))"
  shows "\<exists>k st. k \<in> set ks \<and> fetched k = Some st \<and> ToolCallsStarted st = g"
  using assms
proof (induction ks arbitrary: s)
  case (Cons k ks)
  obtain s' q where t: "pollTurn s k = (s', q)" by fastforce
  then have "g \<in> set (gens ToolBlocked (pollRun s' ks)) \<or> (\<exists>r. q = Some r \<and> g \<in> set (gens ToolBlocked [(k, r)]))"
    using Cons.prems by (cases q) (auto simp: gens_Cons [of _ _ "pollRun s' ks"])
  then show ?case
    using Cons.IH [of s'] by (auto simp: gens_def map_filter_def split: if_splits)
qed (simp add: gens_def map_filter_def)

lemma increasing_below:
  fixes g :: "u64 list"
  assumes "sorted_wrt (<) (0 # g)" and "\<And>x. x \<in> set g \<Longrightarrow> unat x \<le> n"
  shows "length g \<le> n"
proof -
  have "distinct g" using assms(1) by (auto dest: strict_sorted_imp_sorted simp: strict_sorted_iff)
  then have "length g = card (unat ` set g)"
    by (subst card_image) (simp_all add: distinct_card inj_on_def word_unat_eq_iff)
  also have "unat ` set g \<subseteq> {1..n}"
    using assms by (auto simp: Suc_le_eq unat_gt_0 less_imp_neq)
  then have "card (unat ` set g) \<le> card {1..n}" by (rule card_mono [rotated]) simp
  finally show ?thesis by simp
qed

lemma startedTools_take: "startedTools (take n evs) \<le> startedTools evs"
proof -
  have "startedTools evs = startedTools (take n evs) + startedTools (drop n evs)"
    unfolding startedTools_def by (metis append_take_drop_id filter_append length_append)
  then show ?thesis by simp
qed

lemma snapshot_started:
  "unat (ToolCallsStarted (Snapshot now (foldl track (newTracker t0) (take n evs)))) \<le> startedTools evs"
proof -
  have "ToolCallsStarted (Snapshot now (foldl track (newTracker t0) (take n evs))) = of_nat (startedTools (take n evs))"
    using tracks_run [of t0 "take n evs"] by (simp add: tracks_def Snapshot_def)
  then have "unat (ToolCallsStarted (Snapshot now (foldl track (newTracker t0) (take n evs)))) \<le> startedTools (take n evs)"
    by (simp add: unat_of_nat)
  then show ?thesis using startedTools_take [of n evs] by linarith
qed

text \<open>What justifies a suspend for each reason, in terms of one tick.\<close>

definition justified :: "Suspender \<Rightarrow> tick \<Rightarrow> reason \<Rightarrow> bool" where
  "justified s k r =
     (case r of
        ToolBlocked \<Rightarrow> (case fetched k of None \<Rightarrow> False
          | Some st \<Rightarrow> ToolCallsInFlight st > 0 \<and> ToolBlockedMillis st \<ge> Milliseconds (blocked s))
      | ModelBlocked \<Rightarrow> (case fetched k of None \<Rightarrow> False
          | Some st \<Rightarrow> includeModel s \<and> ModelCallsInFlight st > 0 \<and> ModelBlockedMillis st \<ge> Milliseconds (blocked s))
      | Idle \<Rightarrow> ingress s \<and> idle s > 0 \<and> ingressIdle k \<ge> idle s)"

definition same_policy :: "Suspender \<Rightarrow> Suspender \<Rightarrow> bool" where
  "same_policy s s' \<longleftrightarrow> blocked s' = blocked s \<and> includeModel s' = includeModel s \<and> ingress s' = ingress s \<and>
     idle s' = idle s \<and> cooldown s' = cooldown s \<and> resumeGap s' = resumeGap s"

lemma commit_policy: "same_policy s (commit s k r)"
  by (auto simp: same_policy_def commit_def split: option.splits reason.splits)

lemma pollTurn_policy: "same_policy s (fst (pollTurn s k))"
  using commit_policy [of "noticed s k" k]
  by (auto simp: pollTurn_def Let_def same_policy_def noticed_def split: option.splits if_splits)

lemma justified_policy: "same_policy s s' \<Longrightarrow> justified s' k r = justified s k r"
  by (auto simp: justified_def same_policy_def split: reason.splits option.splits)

lemma pollTurn_justified:
  assumes "pollTurn s k = (s', Some r)"
  shows "justified s k r"
  using pollTurn_suspends(1) [OF assms] decide_blocked [of "noticed s k" k]
  by (cases r) (auto simp: justified_def)

lemma pollTurn_cooldown:
  assumes "pollTurn s k = (s', Some r)"
  shows "lastSuspend s' = Some (monoStamp k)" and "lastSuspend s = Some t \<Longrightarrow> cooldown s \<le> monoLate k - t"
  using pollTurn_suspends(3,4) [OF assms] by (auto simp: cooling_def)

lemma pollRun_justified:
  "(k, r) \<in> set (pollRun s ks) \<Longrightarrow> k \<in> set ks \<and> justified s k r"
proof (induction ks arbitrary: s)
  case (Cons k' ks)
  obtain s' q where t: "pollTurn s k' = (s', q)" by fastforce
  have "same_policy s s'" using pollTurn_policy [of s k'] t by simp
  then show ?case
    using Cons.IH [of s'] Cons.prems t pollTurn_justified [of s k' s'] justified_policy [of s s']
    by (cases q) auto
qed simp

lemma pollRun_cooldown:
  "successively (\<lambda>x y. cooldown s \<le> monoLate (fst y) - monoStamp (fst x)) (pollRun s ks) \<and>
   (\<forall>t. lastSuspend s = Some t \<longrightarrow> pollRun s ks \<noteq> [] \<longrightarrow> cooldown s \<le> monoLate (fst (hd (pollRun s ks))) - t)"
proof (induction ks arbitrary: s)
  case (Cons k ks)
  obtain s' q where t: "pollTurn s k = (s', q)" by fastforce
  have c: "cooldown s' = cooldown s" using pollTurn_policy [of s k] t by (simp add: same_policy_def)
  show ?case
  proof (cases q)
    case None
    then show ?thesis using Cons.IH [of s'] pollTurn_waits [of s k s'] t by simp
  next
    case (Some r)
    then show ?thesis
      using Cons.IH [of s'] pollTurn_cooldown [of s k s' r] t c by (auto simp: successively_Cons)
  qed
qed simp

text \<open>The state after a run.\<close>

definition pollState :: "Suspender \<Rightarrow> tick list \<Rightarrow> Suspender" where
  "pollState s ks = foldl (\<lambda>s k. fst (pollTurn s k)) s ks"

lemma pollState_simps [simp]:
  "pollState s [] = s" "pollState s (k # ks) = pollState (fst (pollTurn s k)) ks"
  by (simp_all add: pollState_def)

lemma pollTurn_ticks:
  "prevTick (fst (pollTurn s k)) = wallNow k"
  "idleGraceUntil (fst (pollTurn s k)) = idleGraceUntil (noticed s k)"
  by (auto simp: pollTurn_def Let_def noticed_def commit_def split: option.splits reason.splits)

lemma pollState_policy: "same_policy s (pollState s ks)"
proof (induction ks arbitrary: s)
  case (Cons k ks)
  show ?case using Cons.IH [of "fst (pollTurn s k)"] pollTurn_policy [of s k] by (simp add: same_policy_def)
qed (simp add: same_policy_def)

lemma grace_kept:
  assumes "idleGraceUntil s = Some g" and "t0 + idle s \<le> g" and "\<And>k. k \<in> set ks \<Longrightarrow> t0 \<le> monoNow k"
  shows "\<exists>g'. idleGraceUntil (pollState s ks) = Some g' \<and> t0 + idle s \<le> g'"
  using assms
proof (induction ks arbitrary: s g)
  case (Cons k ks)
  have i: "idle (fst (pollTurn s k)) = idle s" using pollTurn_policy [of s k] by (simp add: same_policy_def)
  have "\<exists>g'. idleGraceUntil (fst (pollTurn s k)) = Some g' \<and> t0 + idle s \<le> g'"
    using Cons.prems by (auto simp: pollTurn_ticks noticed_def)
  then show ?case using Cons.IH [of "fst (pollTurn s k)"] Cons.prems(3) i by auto
qed simp

section \<open>What the poller relies on\<close>

text \<open>
  The status endpoint as the poller needs it: the reports it may give, and a bound on the tool
  calls that any of them counts as started. Interpreted on the agent's tracker.
\<close>

locale call_counter =
  fixes reports :: "Status set" and total :: nat
  assumes started_le: "st \<in> reports \<Longrightarrow> unat (ToolCallsStarted st) \<le> total"
begin

lemma tool_suspends_bounded:
  assumes "\<And>k st. k \<in> set ks \<Longrightarrow> fetched k = Some st \<Longrightarrow> st \<in> reports"
  shows "length (filter (\<lambda>x. snd x = ToolBlocked) (pollRun (NewSuspender c w) ks)) \<le> total"
proof -
  let ?gens = "gens ToolBlocked (pollRun (NewSuspender c w) ks)"
  have "sorted_wrt (<) (0 # ?gens)"
    using gens_increase [of ToolBlocked "NewSuspender c w" ks] by (simp add: lastGen_def NewSuspender_def Let_def)
  moreover have "unat g \<le> total" if "g \<in> set ?gens" for g
    using gens_range [OF that] assms started_le by blast
  ultimately have "length ?gens \<le> total" by (rule increasing_below)
  then show ?thesis by (simp add: gens_tool_length)
qed

end

interpretation tracked: call_counter
  "{st. \<exists>n now. st = Snapshot now (foldl track (newTracker t0) (take n evs))}" "startedTools evs" for t0 evs
  by unfold_locales (use snapshot_started in blast)

text \<open>
  The idle signal as the poller needs it: it reads zero whenever there is work. Interpreted on
  the ingress.
\<close>

locale idle_source =
  fixes valid busy :: "'s \<Rightarrow> bool" and idleTime :: "int \<Rightarrow> 's \<Rightarrow> int"
  assumes busy_zero: "valid s \<Longrightarrow> busy s \<Longrightarrow> idleTime now s = 0"
begin

lemma no_idle_suspend:
  assumes "valid s" "busy s" "ingressIdle k = idleTime now s"
  shows "snd (pollTurn p k) \<noteq> Some Idle"
  using pollTurn_justified [of p k "fst (pollTurn p k)" Idle] assms busy_zero [OF assms(1,2), of now]
  by (auto simp: justified_def prod_eq_iff)

end

section \<open>Properties\<close>


definition demo_config :: SuspenderConfig where
  "demo_config = \<lparr>PollInterval = 0, BlockedAfter = 0, IncludeModelCalls = False, IdleAfter = 5000000000,
     Cooldown = 0, hasIngressIdle = True\<rparr>"

text \<open>A tick at second \<open>n\<close> of an agent that started one tool call at second 1.\<close>

definition demo_tick :: "int \<Rightarrow> tick" where
  "demo_tick n = \<lparr>wallNow = n * 1000000000, monoNow = n * 1000000000,
     fetched = Some (Snapshot (n * 1000000000) (foldl track (newTracker 0) (take 1 [(1000000000, BeforeTool)]))),
     ingressIdle = 0, monoLate = n * 1000000000, monoStamp = n * 1000000000\<rparr>"

lemmas poll_eval = demo_config_def demo_tick_def NewSuspender_def Let_def pollTurn_def noticed_def decide_def
  decideBlocked_def gated_def cooling_def commit_def Snapshot_def newTracker_def beforeTool_def Milliseconds_def

lemma demo_run:
  "pollRun (NewSuspender demo_config 0) [demo_tick 2, demo_tick 3, demo_tick 9] = [(demo_tick 2, ToolBlocked)]"
  by (simp add: poll_eval)


text \<open>
  C22. Every suspend of every run is justified by what its own tick saw (a call in flight and
  blocked at least the threshold, or an ingress that has been idle for the idle time), and two
  suspends in succession are at least the cooldown apart.
\<close>

theorem suspends_justified_and_spaced:
  assumes "(k, r) \<in> set (pollRun s ks)"
  shows "k \<in> set ks \<and> justified s k r \<and>
    successively (\<lambda>x y. cooldown s \<le> monoLate (fst y) - monoStamp (fst x)) (pollRun s ks)"
  using pollRun_justified [OF assms] pollRun_cooldown [of s ks] by blast

theorem suspends_justified_and_spaced_witness:
  "justified (NewSuspender demo_config 0) (demo_tick 2) ToolBlocked \<and> cooldown (NewSuspender demo_config 0) = 2000000000"
proof -
  have "(demo_tick 2, ToolBlocked) \<in> set (pollRun (NewSuspender demo_config 0) [demo_tick 2, demo_tick 3, demo_tick 9])"
    by (subst demo_run) simp
  from suspends_justified_and_spaced [OF this] show ?thesis by (simp add: NewSuspender_def demo_config_def Let_def)
qed

text \<open>
  C23. No idle suspend before the woken request can register: once a tick sees a wall-clock gap
  since the one before it that is larger than \<open>resumeGap\<close> (the actor was resumed in between), no
  later tick suspends for idleness until the idle time has passed since that tick, whatever the
  ingress timer says.
\<close>

theorem idle_suspend_after_grace:
  assumes "wallNow k1 - wallNow k0 > resumeGap s"
    and "\<And>k. k \<in> set ks \<Longrightarrow> monoNow k1 \<le> monoNow k"
    and "snd (pollTurn (pollState s (k0 # k1 # ks)) k) = Some Idle"
  shows "monoNow k > monoNow k1 + idle s"
proof -
  define s1 where "s1 = fst (pollTurn (fst (pollTurn s k0)) k1)"
  define s2 where "s2 = pollState s1 ks"
  have pol: "same_policy s s1"
    using pollTurn_policy [of s k0] pollTurn_policy [of "fst (pollTurn s k0)" k1] by (simp add: same_policy_def s1_def)
  then have pol2: "idle s2 = idle s" using pollState_policy [of s1 ks] by (simp add: same_policy_def s2_def)
  have gap: "resumeGap (fst (pollTurn s k0)) = resumeGap s" "idle (fst (pollTurn s k0)) = idle s"
    using pollTurn_policy [of s k0] by (auto simp: same_policy_def)
  have "idleGraceUntil s1 = Some (monoNow k1 + idle s)"
    using assms(1) by (simp add: s1_def pollTurn_ticks noticed_def gap)
  then obtain g where g: "idleGraceUntil s2 = Some g" "monoNow k1 + idle s1 \<le> g"
    unfolding s2_def using grace_kept [of s1 _ "monoNow k1" ks] assms(2) pol by (auto simp: same_policy_def)
  obtain s' where "pollTurn s2 k = (s', Some Idle)"
    using assms(3) by (cases "pollTurn s2 k") (simp add: s2_def s1_def)
  from pollTurn_suspends(1) [OF this] have past: "idle s2 > 0" "idleGraceUntil (noticed s2 k) = Some t \<Longrightarrow> t < monoNow k" for t
    using decide_blocked(3) by fastforce+
  have "\<not> wallNow k - prevTick s2 > resumeGap s2" using past by (auto simp: noticed_def)
  then have "g < monoNow k" using past(2) [of g] g(1) by (simp add: noticed_def)
  then show ?thesis using g(2) pol by (simp add: same_policy_def)
qed

text \<open>A tick with the ingress idle for a minute, at the given wall and monotonic seconds.\<close>

definition idle_tick :: "int \<Rightarrow> int \<Rightarrow> tick" where
  "idle_tick w m = \<lparr>wallNow = w * 1000000000, monoNow = m * 1000000000, fetched = None,
     ingressIdle = 60000000000, monoLate = m * 1000000000, monoStamp = m * 1000000000\<rparr>"

theorem idle_suspend_after_grace_witness:
  "monoNow (idle_tick 3607 8) > monoNow (idle_tick 3601 2) + idle (NewSuspender demo_config 0) \<and>
   pollRun (NewSuspender demo_config 0)
     [idle_tick 1 1, idle_tick 3601 2, idle_tick 3603 4, idle_tick 3605 6, idle_tick 3607 8] =
     [(idle_tick 1 1, Idle), (idle_tick 3607 8, Idle)]"
proof -
  have "snd (pollTurn (pollState (NewSuspender demo_config 0)
      [idle_tick 1 1, idle_tick 3601 2, idle_tick 3603 4, idle_tick 3605 6]) (idle_tick 3607 8)) = Some Idle"
    by (simp add: poll_eval idle_tick_def)
  moreover have "wallNow (idle_tick 3601 2) - wallNow (idle_tick 1 1) > resumeGap (NewSuspender demo_config 0)"
    by (simp add: poll_eval idle_tick_def)
  moreover have "monoNow (idle_tick 3601 2) \<le> monoNow k" if "k \<in> set [idle_tick 3603 4, idle_tick 3605 6]" for k
    using that by (auto simp: idle_tick_def)
  moreover have "pollRun (NewSuspender demo_config 0)
     [idle_tick 1 1, idle_tick 3601 2, idle_tick 3603 4, idle_tick 3605 6, idle_tick 3607 8] =
     [(idle_tick 1 1, Idle), (idle_tick 3607 8, Idle)]"
    by (simp add: poll_eval idle_tick_def)
  ultimately show ?thesis
    using idle_suspend_after_grace [of "NewSuspender demo_config 0" "idle_tick 3601 2" "idle_tick 1 1"
        "[idle_tick 3603 4, idle_tick 3605 6]" "idle_tick 3607 8"] by blast
qed

end
