(* ===== verification/Ingress.thy ===== *)
theory Ingress
  imports Suspender Strconv "HOL-Library.Multiset"
begin

text \<open>
  The in-actor half of the reply-to ingress, \<^verbatim>\<open>internal/sidecar/ingress.go\<close>: it
  acknowledges a routed client request, forwards it to the agent over loopback and posts the
  agent's response to the broker that holds the client. Its count of requests in flight is the
  idle signal of the suspend poller.
\<close>

section \<open>Requests, responses, state\<close>

text \<open>
  What the handler reads of a parsed request: the method, the request URI and the headers, an
  absent header being the empty string, and the body. \<open>bodyErr\<close> says that reading the body
  ended with an error, after the bytes of \<open>reqBody\<close>.
\<close>

record HttpRequest =
  Method :: string
  RequestURI :: string
  contentTypeHdr :: string
  replyToHdr :: string
  requestIDHdr :: string
  reqBody :: bytes
  bodyErr :: bool

record HttpResponse =
  StatusCode :: int
  contentType :: string
  respBody :: bytes

record Ingress =
  agentBaseURL :: string
  inFlight :: int
  idleSince :: "int option"

definition NewIngress :: "string \<Rightarrow> int \<Rightarrow> Ingress" where
  "NewIngress agentAddr now = \<lparr>agentBaseURL = ''http://'' @ agentAddr, inFlight = 0, idleSince = Some now\<rparr>"

section \<open>The in-flight count\<close>

definition IdleDuration :: "int \<Rightarrow> Ingress \<Rightarrow> int" where
  "IdleDuration now i =
     (if inFlight i > 0 then 0 else case idleSince i of None \<Rightarrow> 0 | Some t \<Rightarrow> now - t)"

definition enterRequest :: "Ingress \<Rightarrow> Ingress" where
  "enterRequest i = i\<lparr>inFlight := inFlight i + 1, idleSince := None\<rparr>"

definition exitRequest :: "int \<Rightarrow> Ingress \<Rightarrow> Ingress" where
  "exitRequest now i =
     (let n = (if inFlight i > 0 then inFlight i - 1 else inFlight i)
      in i\<lparr>inFlight := n, idleSince := (if n = 0 then Some now else idleSince i)\<rparr>)"

section \<open>Handlers\<close>

text \<open>
  The effects of the handlers, in order. The standard library's request constructor and the two
  HTTP clients are the environment: \<open>newRequestOk\<close> is whether \<^verbatim>\<open>http.NewRequest\<close>
  accepts a method and a URL, \<open>agentDo\<close> the answer of the agent (or the text of the error), and
  \<open>replyOk\<close> whether the \<open>n\<close>-th post of the reply gets any response.
\<close>

datatype ieffect =
    ConnClose
  | ConnWrite string
  | ConnRespond HttpResponse
  | CallAgent string string "string option" bytes
  | PostReply string string string string bytes
  | Sleep int

record ienv =
  newRequestOk :: "string \<Rightarrow> string \<Rightarrow> bool"
  agentDo :: "string + HttpResponse"
  replyOk :: "nat \<Rightarrow> bool"

definition badGateway :: string where
  "badGateway = ''HTTP/1.1 502 Bad Gateway'' @ [CHR 0x0D, CHR 0x0A] @ ''Content-Length: 0'' @
     [CHR 0x0D, CHR 0x0A, CHR 0x0D, CHR 0x0A]"

definition accepted :: string where
  "accepted = ''HTTP/1.1 202 Accepted'' @ [CHR 0x0D, CHR 0x0A] @ ''Content-Length: 0'' @
     [CHR 0x0D, CHR 0x0A, CHR 0x0D, CHR 0x0A]"

definition proxyInline :: "Ingress \<Rightarrow> ienv \<Rightarrow> HttpRequest \<Rightarrow> ieffect list" where
  "proxyInline i e req =
     (let url = agentBaseURL i @ RequestURI req
      in (if \<not> newRequestOk e (Method req) url then [ConnWrite badGateway]
          else CallAgent (Method req) url None (reqBody req) #
               (case agentDo e of
                  Inl _ \<Rightarrow> [ConnWrite badGateway]
                | Inr resp \<Rightarrow> [ConnRespond resp])) @ [ConnClose])"

text \<open>
  \<^verbatim>\<open>handle\<close> up to the acknowledgement: the effects on the inbound connection, and the
  request to enter and process if there is one. \<^const>\<open>None\<close> as its argument is a connection
  on which no request could be read.
\<close>

definition handle :: "Ingress \<Rightarrow> ienv \<Rightarrow> HttpRequest option \<Rightarrow> ieffect list \<times> HttpRequest option" where
  "handle i e r =
     (case r of
        None \<Rightarrow> ([ConnClose], None)
      | Some req \<Rightarrow>
          if replyToHdr req = [] \<or> requestIDHdr req = [] then (proxyInline i e req, None)
          else if bodyErr req then ([ConnClose], None)
          else ([ConnWrite accepted, ConnClose], Some req))"

fun deliverFrom :: "nat \<Rightarrow> nat \<Rightarrow> ienv \<Rightarrow> string \<Rightarrow> ieffect \<Rightarrow> ieffect list \<times> bool" where
  "deliverFrom attempt 0 e url post = ([], False)"
| "deliverFrom attempt (Suc left) e url post =
     (if \<not> newRequestOk e ''POST'' url then ([], False)
      else if replyOk e attempt then ([post], True)
      else case deliverFrom (attempt + 1) left e url post of
             (effs, ok) \<Rightarrow> (post # Sleep (int attempt * 300) # effs, ok))"

text \<open>\<open>deliver\<close> also says whether an attempt got a response; pauses are in milliseconds.\<close>

definition deliver :: "ienv \<Rightarrow> string \<Rightarrow> string \<Rightarrow> HttpResponse \<Rightarrow> ieffect list \<times> bool" where
  "deliver e replyTo reqID resp =
     (let url = ''http://'' @ replyTo @ ''/reply''
      in deliverFrom 1 5 e url
           (PostReply url reqID (Itoa (StatusCode resp)) (contentType resp) (respBody resp)))"

definition agentReply :: "ienv \<Rightarrow> HttpResponse" where
  "agentReply e =
     (case agentDo e of
        Inl err \<Rightarrow> \<lparr>StatusCode = 502, contentType = ''text/plain'', respBody = string_bytes (''agent call failed: '' @ err)\<rparr>
      | Inr resp \<Rightarrow> resp)"

text \<open>\<^verbatim>\<open>process\<close> without its deferred \<^const>\<open>exitRequest\<close>, which the system below runs.\<close>

definition process :: "Ingress \<Rightarrow> ienv \<Rightarrow> HttpRequest \<Rightarrow> ieffect list \<times> bool" where
  "process i e req =
     (let url = agentBaseURL i @ RequestURI req
      in if \<not> newRequestOk e (Method req) url then ([], False)
         else case deliver e (replyToHdr req) (requestIDHdr req) (agentReply e) of
                (effs, ok) \<Rightarrow>
                  (CallAgent (Method req) url (if contentTypeHdr req = [] then None else Some (contentTypeHdr req))
                     (reqBody req) # effs, ok))"

section \<open>The ingress with its goroutines\<close>

text \<open>
  Requests acknowledged but not yet entered, processes running, and processes finished with the
  time of their exit and their effects. An event names the goroutine that moves by its place in
  its list; one that does not exist moves nothing.
\<close>

record isys =
  ing :: Ingress
  acked :: "HttpRequest list"
  running :: "HttpRequest list"
  finished :: "(int \<times> HttpRequest \<times> ieffect list) list"

datatype ievent =
    IHandle ienv "HttpRequest option"
  | IEnter nat
  | IFinish int nat ienv

definition dropAt :: "nat \<Rightarrow> 'a list \<Rightarrow> 'a list" where
  "dropAt k xs = take k xs @ drop (Suc k) xs"

fun istep :: "isys \<Rightarrow> ievent \<Rightarrow> isys" where
  "istep s (IHandle e r) =
     (case handle (ing s) e r of
        (_, None) \<Rightarrow> s
      | (_, Some req) \<Rightarrow> s\<lparr>acked := acked s @ [req]\<rparr>)"
| "istep s (IEnter k) =
     (if k < length (acked s)
      then s\<lparr>acked := dropAt k (acked s), ing := enterRequest (ing s), running := running s @ [acked s ! k]\<rparr>
      else s)"
| "istep s (IFinish now k e) =
     (if k < length (running s)
      then s\<lparr>running := dropAt k (running s), ing := exitRequest now (ing s),
             finished := finished s @ [(now, running s ! k, fst (process (ing s) e (running s ! k)))]\<rparr>
      else s)"

definition isys0 :: "string \<Rightarrow> int \<Rightarrow> isys" where
  "isys0 agentAddr t0 = \<lparr>ing = NewIngress agentAddr t0, acked = [], running = [], finished = []\<rparr>"

definition idle_inv :: "int \<Rightarrow> isys \<Rightarrow> bool" where
  "idle_inv t0 s \<longleftrightarrow> inFlight (ing s) = int (length (running s)) \<and>
     idleSince (ing s) =
       (if running s = [] then Some (if finished s = [] then t0 else fst (last (finished s))) else None)"

lemma length_dropAt: "k < length xs \<Longrightarrow> length (dropAt k xs) = length xs - 1"
  by (simp add: dropAt_def)

lemma mset_dropAt: "k < length xs \<Longrightarrow> mset xs = add_mset (xs ! k) (mset (dropAt k xs))"
  by (simp add: dropAt_def flip: mset_append union_mset_add_mset_right)
     (metis id_take_nth_drop mset.simps(2) mset_append union_mset_add_mset_right)

lemma idle_inv_step: "idle_inv t0 s \<Longrightarrow> idle_inv t0 (istep s ev)"
proof (cases ev)
  case (IFinish now k e)
  assume i: "idle_inv t0 s"
  show ?thesis
  proof (cases "k < length (running s)")
    case True
    then have "running s \<noteq> []" "dropAt k (running s) = [] \<longleftrightarrow> length (running s) = 1"
      using length_dropAt [OF True] by (auto simp flip: length_0_conv)
    then show ?thesis
      using i True length_dropAt [OF True] IFinish by (auto simp: idle_inv_def exitRequest_def Let_def)
  qed (use i IFinish in simp)
qed (auto simp: idle_inv_def enterRequest_def split: prod.splits option.splits)

lemma idle_inv_run: "idle_inv t0 (foldl istep (isys0 agentAddr t0) evs)"
proof (induction evs rule: rev_induct)
  case (snoc ev evs)
  then show ?case by (simp add: idle_inv_step)
qed (simp add: idle_inv_def isys0_def NewIngress_def)

interpretation idle_ingress: idle_source "idle_inv t0" "\<lambda>s. running s \<noteq> []" "\<lambda>now s. IdleDuration now (ing s)" for t0
  by unfold_locales (auto simp: idle_inv_def IdleDuration_def)

text \<open>The requests a history acknowledges, in the order of their connections.\<close>

definition acknowledged :: "string \<Rightarrow> int \<Rightarrow> ievent list \<Rightarrow> HttpRequest list" where
  "acknowledged agentAddr t0 evs = List.map_filter
     (\<lambda>ev. case ev of IHandle e r \<Rightarrow> snd (handle (NewIngress agentAddr t0) e r) | _ \<Rightarrow> None) evs"

lemma handle_ack: "snd (handle i e r) = snd (handle i' e' r)"
  by (simp add: handle_def split: option.splits)

lemma acknowledged_run:
  fixes agentAddr t0 evs
  defines "s \<equiv> foldl istep (isys0 agentAddr t0) evs"
  shows "mset (acked s) + mset (running s) + mset (map (fst \<circ> snd) (finished s)) = mset (acknowledged agentAddr t0 evs)"
  unfolding s_def
proof (induction evs rule: rev_induct)
  case (snoc ev evs)
  let ?s = "foldl istep (isys0 agentAddr t0) evs"
  show ?case
  proof (cases ev)
    case (IHandle e r)
    obtain effs q where "handle (ing ?s) e r = (effs, q)" by fastforce
    then show ?thesis
      using snoc IHandle handle_ack [of "ing ?s" e r "NewIngress agentAddr t0" e]
      by (auto simp: acknowledged_def map_filter_def split: option.splits)
  next
    case (IEnter k)
    then show ?thesis
      using snoc mset_dropAt [of k "acked ?s"] by (auto simp: acknowledged_def map_filter_def)
  next
    case (IFinish now k e)
    then show ?thesis
      using snoc mset_dropAt [of k "running ?s"] by (auto simp: acknowledged_def map_filter_def)
  qed
qed (simp add: acknowledged_def map_filter_def isys0_def)

section \<open>Properties\<close>


definition demo_request :: HttpRequest where
  "demo_request = \<lparr>Method = ''POST'', RequestURI = ''/run'', contentTypeHdr = [], replyToHdr = ''b:9090'',
     requestIDHdr = ''r1'', reqBody = [7], bodyErr = False\<rparr>"

text \<open>An environment whose first post of the reply fails.\<close>

definition demo_env :: ienv where
  "demo_env = \<lparr>newRequestOk = (\<lambda>_ _. True),
     agentDo = Inr \<lparr>StatusCode = 200, contentType = ''text/plain'', respBody = [8]\<rparr>, replyOk = (\<lambda>n. n \<ge> 2)\<rparr>"

definition demo_busy :: isys where
  "demo_busy = foldl istep (isys0 ''a:8080'' 0) [IHandle demo_env (Some demo_request), IEnter 0]"


lemma deliverFrom_gives_up:
  assumes "newRequestOk e ''POST'' url" and "\<And>a. n \<le> a \<Longrightarrow> a < n + m \<Longrightarrow> \<not> replyOk e a"
  shows "deliverFrom n m e url post = (concat (map (\<lambda>a. [post, Sleep (int a * 300)]) [n..<n + m]), False)"
  using assms(2)
proof (induction m arbitrary: n)
  case (Suc m)
  then show ?case using assms(1) by (simp add: upt_conv_Cons)
qed simp

lemma deliverFrom_succeeds:
  assumes "newRequestOk e ''POST'' url" and "n \<le> a" "a < n + m" "replyOk e a"
    and "\<And>b. n \<le> b \<Longrightarrow> b < a \<Longrightarrow> \<not> replyOk e b"
  shows "deliverFrom n m e url post = (concat (map (\<lambda>b. [post, Sleep (int b * 300)]) [n..<a]) @ [post], True)"
  using assms(2-5)
proof (induction m arbitrary: n)
  case (Suc m)
  show ?case
  proof (cases "n = a")
    case False
    have "deliverFrom (n + 1) m e url post =
        (concat (map (\<lambda>b. [post, Sleep (int b * 300)]) [n + 1..<a]) @ [post], True)"
      using Suc.prems False by (intro Suc.IH) auto
    then show ?thesis using assms(1) False Suc.prems by (simp add: upt_conv_Cons)
  qed (use assms(1) Suc.prems in simp)
qed simp

text \<open>
  C29. What a processed request sends. The agent is called once; then the same reply, carrying
  the agent's status, content type and body (or a 502 when the agent call failed) under the
  request's id, is posted to the broker until a post gets a response, at most five times with
  the growing pauses of the code in between; when the a-th post is the first to get one, exactly
  a posts are made.
\<close>

theorem process_replies:
  fixes req :: HttpRequest and e :: ienv and i :: Ingress and a :: nat
  defines "url \<equiv> ''http://'' @ replyToHdr req @ ''/reply''"
  defines "post \<equiv> PostReply url (requestIDHdr req) (Itoa (StatusCode (agentReply e)))
      (contentType (agentReply e)) (respBody (agentReply e))"
  defines "call \<equiv> CallAgent (Method req) (agentBaseURL i @ RequestURI req)
      (if contentTypeHdr req = [] then None else Some (contentTypeHdr req)) (reqBody req)"
  assumes "newRequestOk e (Method req) (agentBaseURL i @ RequestURI req)" and "newRequestOk e ''POST'' url"
  shows "((\<forall>a\<in>{1..5}. \<not> replyOk e a) \<longrightarrow>
      process i e req = (call # concat (map (\<lambda>b. [post, Sleep (int b * 300)]) [1..<6]), False)) \<and>
    (a \<in> {1..5} \<and> replyOk e a \<and> (\<forall>b\<in>{1..<a}. \<not> replyOk e b) \<longrightarrow>
      process i e req = (call # concat (map (\<lambda>b. [post, Sleep (int b * 300)]) [1..<a]) @ [post], True))"
proof -
  note d = deliver_def process_def Let_def call_def post_def url_def
  have "process i e req = (call # concat (map (\<lambda>b. [post, Sleep (int b * 300)]) [1..<6]), False)"
    if "\<forall>a\<in>{1..5}. \<not> replyOk e a"
    using assms(4,5) deliverFrom_gives_up [of e url 1 5 post] that by (simp add: d)
  moreover have "process i e req = (call # concat (map (\<lambda>b. [post, Sleep (int b * 300)]) [1..<a]) @ [post], True)"
    if "a \<in> {1..5}" "replyOk e a" "\<forall>b\<in>{1..<a}. \<not> replyOk e b"
    using assms(4,5) deliverFrom_succeeds [of e url 1 a 5 post] that by (simp add: d)
  ultimately show ?thesis by blast
qed

definition demo_post :: ieffect where
  "demo_post = PostReply ''http://b:9090/reply'' ''r1'' (Itoa 200) ''text/plain'' [8]"

theorem process_replies_witness:
  "process (NewIngress ''a:8080'' 0) demo_env demo_request =
     ([CallAgent ''POST'' ''http://a:8080/run'' None [7], demo_post, Sleep 300, demo_post], True)"
  using process_replies [of demo_env demo_request "NewIngress ''a:8080'' 0" 2]
  by (simp add: demo_env_def demo_request_def NewIngress_def agentReply_def demo_post_def upt_conv_Cons)

section \<open>Departure from the documented contract\<close>

text \<open>
  The idle signal is documented as race-free, but a request counts only after its
  acknowledgement has been sent: between the two, a poll after the idle time suspends the actor
  although the client has been told that the request was accepted.
\<close>

theorem acked_request_not_counted:
  fixes s :: isys
  defines "s \<equiv> foldl istep (isys0 ''a:8080'' 0) [IHandle demo_env (Some demo_request)]"
  shows "acked s = [demo_request] \<and> IdleDuration 60000000000 (ing s) = 60000000000 \<and>
    fst (handle (NewIngress ''a:8080'' 0) demo_env (Some demo_request)) = [ConnWrite accepted, ConnClose] \<and>
    snd (pollTurn (NewSuspender demo_config 0) (idle_tick 1 1)) = Some Idle \<and>
    ingressIdle (idle_tick 1 1) = IdleDuration 60000000000 (ing s)"
  unfolding s_def
  by (simp add: isys0_def handle_def demo_request_def NewIngress_def IdleDuration_def poll_eval idle_tick_def)

end
