(* ===== verification/Ingress_Broker.thy ===== *)
theory Ingress_Broker
  imports Ingress
begin

text \<open>
  The client-facing half of the reply-to ingress,
  \<^verbatim>\<open>demos/adk-calc/internal/ingressbroker/broker.go\<close>: it parks a client's request, has
  the router wake the actor and deliver the request to the sidecar, and answers the client with
  the reply that the sidecar posts back under the request's id.
\<close>

section \<open>State\<close>

record IngressConfig =
  AtenetAddr :: string
  Atespace :: string
  ReplyAddr :: string
  RequestTimeout :: int

record replyMsg =
  status :: int
  msgContentType :: string
  msgBody :: bytes

text \<open>
  A channel of capacity one is the message it holds; \<open>pendingCh\<close> maps a request id to its
  channel, \<open>chans\<close> holds the channels and \<open>nextCh\<close> the next to be made.
\<close>

record ibroker =
  icfg :: IngressConfig
  pendingCh :: "string \<Rightarrow> nat option"
  chans :: "nat \<Rightarrow> replyMsg option"
  nextCh :: nat

definition NewIngressBroker :: "IngressConfig \<Rightarrow> ibroker" where
  "NewIngressBroker c =
     \<lparr>icfg = (if RequestTimeout c = 0 then c\<lparr>RequestTimeout := 600000000000\<rparr> else c),
      pendingCh = Map.empty, chans = (\<lambda>_. None), nextCh = 0\<rparr>"

definition registerReq :: "string \<Rightarrow> nat \<Rightarrow> ibroker \<Rightarrow> ibroker" where
  "registerReq reqID ch b = b\<lparr>pendingCh := (pendingCh b)(reqID \<mapsto> ch)\<rparr>"

definition unregisterReq :: "string \<Rightarrow> ibroker \<Rightarrow> ibroker" where
  "unregisterReq reqID b = b\<lparr>pendingCh := (pendingCh b)(reqID := None)\<rparr>"

section \<open>Forwarding to the actor\<close>

text \<open>
  The request posted to the router: URL, host, reply-to, request id and body. Of the
  environment: whether \<^verbatim>\<open>http.NewRequestWithContext\<close> accepts the URL, the answer to the
  \<open>n\<close>-th attempt (an error or a status), and whether the client's context is what ends the pause
  after it.
\<close>

datatype forwardReq = ForwardReq string string string string bytes

datatype forwardErr = BuildErr | DoErr string | StatusErr int | CtxErr

record fenv =
  buildOk :: "string \<Rightarrow> bool"
  attemptDo :: "nat \<Rightarrow> string + int"
  ctxEnds :: "nat \<Rightarrow> bool"

definition actorHostSuffix :: string where
  "actorHostSuffix = ''.actors.resources.substrate.ate.dev''"

text \<open>The requests sent, and the error returned if any; \<open>left\<close> attempts remain.\<close>

fun forwardLoop :: "nat \<Rightarrow> nat \<Rightarrow> fenv \<Rightarrow> string \<Rightarrow> forwardReq \<Rightarrow> forwardErr option \<Rightarrow> forwardReq list \<times> forwardErr option" where
  "forwardLoop attempt 0 e url req lastErr = ([], lastErr)"
| "forwardLoop attempt (Suc left) e url req lastErr =
     (if \<not> buildOk e url then ([], Some BuildErr)
      else let again = (\<lambda>err. if ctxEnds e attempt then ([req], Some CtxErr)
                              else case forwardLoop (attempt + 1) left e url req (Some err) of
                                     (reqs, r) \<Rightarrow> (req # reqs, r))
           in case attemptDo e attempt of
                Inl msg \<Rightarrow> again (DoErr msg)
              | Inr code \<Rightarrow>
                  if code < 300 then ([req], None)
                  else if code < 500 then ([req], Some (StatusErr code))
                  else again (StatusErr code))"

definition forwardToActor :: "IngressConfig \<Rightarrow> fenv \<Rightarrow> string \<Rightarrow> bytes \<Rightarrow> string \<Rightarrow> forwardReq list \<times> forwardErr option" where
  "forwardToActor c e sessionID body reqID =
     (let url = ''http://'' @ AtenetAddr c @ ''/run'';
          host = sessionID @ ''.'' @ Atespace c @ actorHostSuffix
      in forwardLoop 1 5 e url (ForwardReq url host (ReplyAddr c) reqID body) None)"

section \<open>The two endpoints\<close>

text \<open>
  What the client gets. \<^verbatim>\<open>WriteHeader\<close> panics on a code outside 100..999 and takes a 1xx code
  other than 101 as informational, so that the body then goes out under 200.
\<close>

datatype clientResponse =
    HttpError int
  | HttpReply int string bytes
  | Cancelled
  | Panicked

definition writeReply :: "replyMsg \<Rightarrow> clientResponse" where
  "writeReply m =
     (if status m < 100 \<or> status m > 999 then Panicked
      else HttpReply (if status m \<le> 199 \<and> status m \<noteq> 101 then 200 else status m) (msgContentType m) (msgBody m))"

text \<open>
  \<^verbatim>\<open>HandleRun\<close> up to the forward: \<open>body\<close> is \<^const>\<open>None\<close> when it could not be read, and
  \<open>sessionOf\<close> is the session id that \<^verbatim>\<open>json.Unmarshal\<close> finds in it, \<^const>\<open>None\<close> when the
  body is not the JSON of a request.
\<close>

definition runStart :: "(bytes \<Rightarrow> string option) \<Rightarrow> bytes option \<Rightarrow> string \<Rightarrow> ibroker \<Rightarrow> ibroker \<times> (clientResponse + string)" where
  "runStart sessionOf body reqID b =
     (case body of
        None \<Rightarrow> (b, Inl (HttpError 400))
      | Some bs \<Rightarrow>
          (case sessionOf bs of
             None \<Rightarrow> (b, Inl (HttpError 400))
           | Some sid \<Rightarrow>
               if sid = [] then (b, Inl (HttpError 400))
               else (registerReq reqID (nextCh b) (b\<lparr>chans := (chans b)(nextCh b := None), nextCh := nextCh b + 1\<rparr>),
                     Inr sid)))"

definition runForward :: "fenv \<Rightarrow> string \<Rightarrow> bytes \<Rightarrow> string \<Rightarrow> ibroker \<Rightarrow> ibroker \<times> clientResponse option" where
  "runForward e sid body reqID b =
     (case snd (forwardToActor (icfg b) e sid body reqID) of
        Some err \<Rightarrow> (unregisterReq reqID b, Some (HttpError 502))
      | None \<Rightarrow> (b, None))"

text \<open>
  The final \<^verbatim>\<open>select\<close>: which of its three cases fires. The receive fires only when the
  channel holds a message; \<^const>\<open>None\<close> is a select still waiting.
\<close>

datatype runWake = WakeReply | WakeCancel | WakeTimeout

definition runWait :: "runWake \<Rightarrow> nat \<Rightarrow> string \<Rightarrow> ibroker \<Rightarrow> (ibroker \<times> clientResponse) option" where
  "runWait w ch reqID b =
     (case w of
        WakeReply \<Rightarrow>
          (case chans b ch of
             None \<Rightarrow> None
           | Some m \<Rightarrow> Some (unregisterReq reqID (b\<lparr>chans := (chans b)(ch := None)\<rparr>), writeReply m))
      | WakeCancel \<Rightarrow> Some (unregisterReq reqID b, Cancelled)
      | WakeTimeout \<Rightarrow> Some (unregisterReq reqID b, HttpError 504))"

text \<open>\<^verbatim>\<open>HandleReply\<close> answers 204 always; the status header that is no numeral counts as absent.\<close>

definition replyOf :: "string \<Rightarrow> string \<Rightarrow> bytes \<Rightarrow> replyMsg" where
  "replyOf statusHdr ct body =
     (let n = fst (Atoi statusHdr)
      in \<lparr>status = (if n = 0 then 200 else n), msgContentType = ct, msgBody = body\<rparr>)"

definition HandleReply :: "string \<Rightarrow> replyMsg \<Rightarrow> ibroker \<Rightarrow> ibroker" where
  "HandleReply reqID msg b =
     (case pendingCh b reqID of
        None \<Rightarrow> b
      | Some ch \<Rightarrow>
          (case chans b ch of
             None \<Rightarrow> b\<lparr>chans := (chans b)(ch \<mapsto> msg)\<rparr>
           | Some _ \<Rightarrow> b))"

section \<open>The broker with its requests\<close>

text \<open>
  A client request in progress: its id, its channel and whether the forward has returned. The
  log has the posts handled and the responses given, oldest first.
\<close>

record clientRun =
  runId :: string
  runCh :: nat
  runSid :: string
  runBody :: bytes
  forwarded :: bool

record ibsys =
  bk :: ibroker
  runs :: "clientRun list"
  posts :: "(string \<times> replyMsg) list"
  answered :: "(string \<times> clientResponse) list"

text \<open>
  One step of the system. A request id is drawn by the UUID generator: the hypothesis on it is
  that an id it draws was not in use before, by a request or in a post.
\<close>

inductive ibstep :: "ibsys \<Rightarrow> ibsys \<Rightarrow> bool" where
  refused: "runStart sessionOf body r (bk s) = (b', Inl resp) \<Longrightarrow> ibstep s (s\<lparr>bk := b'\<rparr>)"
| parked: "runStart sessionOf (Some bs) r (bk s) = (b', Inr sid) \<Longrightarrow>
     r \<notin> runId ` set (runs s) \<Longrightarrow> r \<notin> fst ` set (posts s) \<Longrightarrow> r \<notin> fst ` set (answered s) \<Longrightarrow>
     ibstep s (s\<lparr>bk := b', runs := runs s @ [\<lparr>runId = r, runCh = nextCh (bk s), runSid = sid, runBody = bs, forwarded = False\<rparr>]\<rparr>)"
| forwardOk: "runs s = rs @ q # rs' \<Longrightarrow> \<not> forwarded q \<Longrightarrow>
     runForward e (runSid q) (runBody q) (runId q) (bk s) = (b', None) \<Longrightarrow>
     ibstep s (s\<lparr>bk := b', runs := rs @ q\<lparr>forwarded := True\<rparr> # rs'\<rparr>)"
| forwardFails: "runs s = rs @ q # rs' \<Longrightarrow> \<not> forwarded q \<Longrightarrow>
     runForward e (runSid q) (runBody q) (runId q) (bk s) = (b', Some resp) \<Longrightarrow>
     ibstep s (s\<lparr>bk := b', runs := rs @ rs', answered := answered s @ [(runId q, resp)]\<rparr>)"
| wakes: "runs s = rs @ q # rs' \<Longrightarrow> forwarded q \<Longrightarrow> runWait w (runCh q) (runId q) (bk s) = Some (b', resp) \<Longrightarrow>
     ibstep s (s\<lparr>bk := b', runs := rs @ rs', answered := answered s @ [(runId q, resp)]\<rparr>)"
| reply: "ibstep s (s\<lparr>bk := HandleReply r m (bk s), posts := posts s @ [(r, m)]\<rparr>)"

inductive ibreach :: "IngressConfig \<Rightarrow> ibsys \<Rightarrow> bool" for c where
  init: "ibreach c \<lparr>bk = NewIngressBroker c, runs = [], posts = [], answered = []\<rparr>"
| step: "ibreach c s \<Longrightarrow> ibstep s s' \<Longrightarrow> ibreach c s'"

lemma forward_5: "forwardLoop (Suc 0) 5 e url req err = forwardLoop (Suc 0) (Suc (Suc (Suc (Suc (Suc 0))))) e url req err"
  by (simp add: numeral_eq_Suc)

section \<open>Invariant\<close>

text \<open>
  Requests in progress have their own ids and channels, and are exactly those pending; their
  channel holds the first post made for their id; the requests answered are no longer in
  progress, and each got an error or the first post for its id.
\<close>

definition runs_inv :: "ibsys \<Rightarrow> bool" where
  "runs_inv s \<longleftrightarrow> distinct (map runId (runs s)) \<and> distinct (map runCh (runs s)) \<and>
     (\<forall>q\<in>set (runs s). runCh q < nextCh (bk s) \<and> pendingCh (bk s) (runId q) = Some (runCh q) \<and>
        chans (bk s) (runCh q) = map_of (posts s) (runId q)) \<and>
     dom (pendingCh (bk s)) = runId ` set (runs s)"

definition answer_ok :: "(string \<times> replyMsg) list \<Rightarrow> string \<times> clientResponse \<Rightarrow> bool" where
  "answer_ok ps x \<longleftrightarrow> snd x \<in> {HttpError 502, HttpError 504, Cancelled} \<or>
     (\<exists>m. map_of ps (fst x) = Some m \<and> snd x = writeReply m)"

definition answers_inv :: "ibsys \<Rightarrow> bool" where
  "answers_inv s \<longleftrightarrow> distinct (map fst (answered s)) \<and> fst ` set (answered s) \<inter> runId ` set (runs s) = {} \<and>
     (\<forall>x\<in>set (answered s). answer_ok (posts s) x)"

lemma HandleReply_simps [simp]:
  "pendingCh (HandleReply r m b) = pendingCh b" "nextCh (HandleReply r m b) = nextCh b"
  by (auto simp: HandleReply_def split: option.splits)

lemma answer_ok_mono: "answer_ok ps x \<Longrightarrow> answer_ok (ps @ ps') x"
  by (auto simp: answer_ok_def map_add_Some_iff)

lemma runs_inv_reply:
  assumes "runs_inv s"
  shows "runs_inv (s\<lparr>bk := HandleReply r m (bk s), posts := posts s @ [(r, m)]\<rparr>)"
proof -
  have "chans (HandleReply r m (bk s)) (runCh q) = map_of (posts s @ [(r, m)]) (runId q)" if q: "q \<in> set (runs s)" for q
  proof (cases "pendingCh (bk s) r")
    case None
    then have "runId q \<noteq> r" using q assms by (auto simp: runs_inv_def)
    then show ?thesis using q assms None by (simp add: runs_inv_def HandleReply_def map_add_def split: option.splits)
  next
    case (Some ch)
    then have "r \<in> runId ` set (runs s)" using assms by (auto simp: runs_inv_def)
    then obtain q' where q': "q' \<in> set (runs s)" "runId q' = r" by blast
    moreover have "runCh q' = ch" using q' Some assms by (auto simp: runs_inv_def)
    ultimately have q': "q' \<in> set (runs s)" "runId q' = r" "runCh q' = ch" by simp_all
    have same: "runId q = r \<longleftrightarrow> runCh q = ch"
      using q q' assms by (auto simp: runs_inv_def distinct_map dest: inj_onD)
    then show ?thesis
      using q q' assms Some by (auto simp: runs_inv_def HandleReply_def map_add_def split: option.splits)
  qed
  then show ?thesis using assms by (simp add: runs_inv_def)
qed

lemma runs_inv_leave:
  assumes "runs_inv s" and "runs s = rs @ q # rs'" and "\<And>ch. ch \<noteq> runCh q \<Longrightarrow> ch' ch = chans (bk s) ch"
  shows "runs_inv (s\<lparr>bk := unregisterReq (runId q) ((bk s)\<lparr>chans := ch'\<rparr>), runs := rs @ rs', answered := a\<rparr>)"
proof -
  have o: "runId p \<noteq> runId q \<and> runCh p \<noteq> runCh q" if "p \<in> set (rs @ rs')" for p
    using that assms(1,2) by (auto simp: runs_inv_def) (metis image_eqI)+
  have "dom ((pendingCh (bk s))(runId q := None)) = runId ` set (rs @ rs')"
    using assms(1,2) o by (auto simp: runs_inv_def)
  then show ?thesis using assms o by (auto simp: runs_inv_def unregisterReq_def)
qed

lemma answers_inv_leave:
  assumes "answers_inv s" and "runs_inv s" and "runs s = rs @ q # rs'" and "answer_ok (posts s) (runId q, resp)"
  shows "answers_inv (s\<lparr>bk := b', runs := rs @ rs', answered := answered s @ [(runId q, resp)]\<rparr>)"
  using assms by (auto simp: answers_inv_def runs_inv_def)

lemma ib_inv_step:
  assumes "ibstep s s'" and "runs_inv s" and "answers_inv s"
  shows "runs_inv s' \<and> answers_inv s'"
  using assms(1)
proof (cases rule: ibstep.cases)
  case (refused sessionOf body r b' resp)
  then have "b' = bk s" by (auto simp: runStart_def split: option.splits if_splits)
  then show ?thesis using refused assms by simp
next
  case (parked sessionOf bs r b' sid)
  then have "b' = registerReq r (nextCh (bk s)) ((bk s)\<lparr>chans := (chans (bk s))(nextCh (bk s) := None), nextCh := nextCh (bk s) + 1\<rparr>)"
    by (auto simp: runStart_def split: option.splits if_splits)
  moreover have "map_of (posts s) r = None" using parked by (simp add: map_of_eq_None_iff)
  ultimately show ?thesis
    using parked(1,3-5) assms(2,3) by (auto simp: runs_inv_def answers_inv_def registerReq_def)
next
  case (forwardOk rs q rs' e b')
  then have "b' = bk s" by (auto simp: runForward_def split: option.splits)
  then show ?thesis using forwardOk assms by (auto simp: runs_inv_def answers_inv_def)
next
  case (forwardFails rs q rs' e b' resp)
  then have "b' = unregisterReq (runId q) (bk s)" "resp = HttpError 502"
    by (auto simp: runForward_def split: option.splits)
  then show ?thesis
    using forwardFails assms runs_inv_leave [of s rs q rs' "chans (bk s)"] answers_inv_leave [of s rs q rs' resp b']
    by (simp add: answer_ok_def)
next
  case (wakes rs q rs' w b' resp)
  then have "b' = unregisterReq (runId q) ((bk s)\<lparr>chans := (chans (bk s))(runCh q := None)\<rparr>) \<or> b' = unregisterReq (runId q) ((bk s)\<lparr>chans := chans (bk s)\<rparr>)"
    by (auto simp: runWait_def split: option.splits runWake.splits)
  moreover have "map_of (posts s) (runId q) = chans (bk s) (runCh q)"
    using assms(2) wakes(2) by (simp add: runs_inv_def)
  then have "answer_ok (posts s) (runId q, resp)"
    using wakes(4) by (auto simp: runWait_def answer_ok_def split: option.splits runWake.splits)
  ultimately show ?thesis
    using wakes assms runs_inv_leave [of s rs q rs' "chans (bk s)"] answers_inv_leave [of s rs q rs' resp b']
      runs_inv_leave [of s rs q rs' "(chans (bk s))(runCh q := None)"] by auto
next
  case (reply r m)
  then show ?thesis
    using runs_inv_reply [of s r m] assms answer_ok_mono [of "posts s" _ "[(r, m)]"] by (simp add: answers_inv_def)
qed

lemma ib_inv: "ibreach c s \<Longrightarrow> runs_inv s \<and> answers_inv s"
proof (induction rule: ibreach.induct)
  case init
  show ?case by (simp add: runs_inv_def answers_inv_def NewIngressBroker_def)
qed (use ib_inv_step in blast)

section \<open>Properties\<close>

text \<open>
  C7. A client gets the reply to its own request, once. In every reachable state no request is
  answered twice; an answer that carries a reply is the first message posted under that
  request's id; a request in progress has not been answered, its channel holds the first
  message posted for it if any; and the table of pending requests has exactly the requests in
  progress, so that no request leaves an entry behind.
\<close>

theorem replies_routed:
  assumes "ibreach c s"
  shows "distinct (map fst (answered s)) \<and>
    ((r, HttpReply code ct body) \<in> set (answered s) \<longrightarrow>
       (\<exists>m. map_of (posts s) r = Some m \<and> writeReply m = HttpReply code ct body)) \<and>
    dom (pendingCh (bk s)) = runId ` set (runs s) \<and>
    (q \<in> set (runs s) \<longrightarrow> runId q \<notin> fst ` set (answered s) \<and>
       chans (bk s) (runCh q) = map_of (posts s) (runId q))"
proof -
  have r: "runs_inv s" and a: "answers_inv s" using ib_inv [OF assms] by simp_all
  have "\<exists>m. map_of (posts s) r = Some m \<and> writeReply m = HttpReply code ct body"
    if "(r, HttpReply code ct body) \<in> set (answered s)"
  proof -
    have "answer_ok (posts s) (r, HttpReply code ct body)" using a that by (simp add: answers_inv_def)
    then show ?thesis by (simp add: answer_ok_def) metis
  qed
  moreover have "runId q \<notin> fst ` set (answered s) \<and> chans (bk s) (runCh q) = map_of (posts s) (runId q)"
    if "q \<in> set (runs s)"
  proof -
    have "runId q \<in> runId ` set (runs s)" using that by blast
    then show ?thesis using r a that unfolding runs_inv_def answers_inv_def by blast
  qed
  moreover have "distinct (map fst (answered s))" "dom (pendingCh (bk s)) = runId ` set (runs s)"
    using r a by (simp_all add: runs_inv_def answers_inv_def)
  ultimately show ?thesis by blast
qed

definition demo_icfg :: IngressConfig where
  "demo_icfg = \<lparr>AtenetAddr = ''n:80'', Atespace = ''a'', ReplyAddr = ''b:9090'', RequestTimeout = 0\<rparr>"

text \<open>The router answers 503 once and then accepts.\<close>

definition demo_fenv :: fenv where
  "demo_fenv = \<lparr>buildOk = (\<lambda>_. True), attemptDo = (\<lambda>n. Inr (if n = 1 then 503 else 202)), ctxEnds = (\<lambda>_. False)\<rparr>"

definition demo_msg :: replyMsg where
  "demo_msg = \<lparr>status = 200, msgContentType = ''text/plain'', msgBody = [8]\<rparr>"

definition demo_run_of :: "bool \<Rightarrow> clientRun" where
  "demo_run_of f = \<lparr>runId = ''r1'', runCh = 0, runSid = ''s'', runBody = [7], forwarded = f\<rparr>"

definition demo_parked :: "bool \<Rightarrow> ibsys" where
  "demo_parked f = \<lparr>bk = (NewIngressBroker demo_icfg)\<lparr>chans := (\<lambda>_. None)(0 := None), nextCh := 1, pendingCh := [''r1'' \<mapsto> 0]\<rparr>,
     runs = [demo_run_of f], posts = [], answered = []\<rparr>"

definition demo_replied :: ibsys where
  "demo_replied = (demo_parked True)\<lparr>bk := HandleReply ''r1'' demo_msg (bk (demo_parked True)), posts := [(''r1'', demo_msg)]\<rparr>"

definition demo_answered :: ibsys where
  "demo_answered = \<lparr>bk = (NewIngressBroker demo_icfg)\<lparr>chans := (\<lambda>_. None)(0 := None), nextCh := 1, pendingCh := Map.empty\<rparr>,
     runs = [], posts = [(''r1'', demo_msg)], answered = [(''r1'', HttpReply 200 ''text/plain'' [8])]\<rparr>"

lemmas demo_defs = demo_parked_def NewIngressBroker_def demo_run_of_def demo_icfg_def registerReq_def
  demo_answered_def demo_replied_def HandleReply_def runWait_def unregisterReq_def writeReply_def demo_msg_def

lemma demo_park: "ibstep \<lparr>bk = NewIngressBroker demo_icfg, runs = [], posts = [], answered = []\<rparr> (demo_parked False)"
  using ibstep.parked [where s = "\<lparr>bk = NewIngressBroker demo_icfg, runs = [], posts = [], answered = []\<rparr>"
      and sessionOf = "\<lambda>_. Some ''s''" and bs = "[7]" and r = "''r1''" and sid = "''s''" and b' = "bk (demo_parked False)"]
  by (simp add: demo_defs runStart_def)

lemma demo_forward: "ibstep (demo_parked False) (demo_parked True)"
proof -
  have "runForward demo_fenv ''s'' [7] ''r1'' (bk (demo_parked False)) = (bk (demo_parked False), None)"
    by (simp add: runForward_def forwardToActor_def Let_def demo_fenv_def forward_5)
  then show ?thesis
    using ibstep.forwardOk [where s = "demo_parked False" and rs = "[]" and rs' = "[]" and q = "demo_run_of False"
        and e = demo_fenv and b' = "bk (demo_parked False)"]
    by (simp add: demo_defs)
qed

lemma demo_reply: "ibstep (demo_parked True) demo_replied"
  using ibstep.reply [where s = "demo_parked True" and r = "''r1''" and m = demo_msg] by (simp add: demo_defs)

lemma demo_wake: "ibstep demo_replied demo_answered"
  using ibstep.wakes [where s = demo_replied and rs = "[]" and rs' = "[]" and q = "demo_run_of True" and w = WakeReply
      and b' = "bk demo_answered" and resp = "HttpReply 200 ''text/plain'' [8]"]
  by (simp add: demo_defs)

lemma demo_answered_reach: "ibreach demo_icfg demo_answered"
  using ibreach.init demo_park demo_forward demo_reply demo_wake by (meson ibreach.step)

theorem replies_routed_witness:
  "map_of (posts demo_answered) ''r1'' = Some demo_msg \<and> dom (pendingCh (bk demo_answered)) = {}"
  using replies_routed [OF demo_answered_reach, of "''r1''" 200 "''text/plain''" "[8]"]
  by (simp add: demo_answered_def)

text \<open>An attempt after which the loop goes on: a failed exchange or a 5xx, with the client still there.\<close>

definition retries :: "fenv \<Rightarrow> nat \<Rightarrow> bool" where
  "retries e n = ((case attemptDo e n of Inl _ \<Rightarrow> True | Inr code \<Rightarrow> code \<ge> 500) \<and> \<not> ctxEnds e n)"

definition accepts :: "fenv \<Rightarrow> nat \<Rightarrow> bool" where
  "accepts e n = (case attemptDo e n of Inl _ \<Rightarrow> False | Inr code \<Rightarrow> code < 300)"

lemma forwardLoop_requests:
  "length (fst (forwardLoop n m e url req err)) \<le> m \<and> set (fst (forwardLoop n m e url req err)) \<subseteq> {req}"
proof (induction m arbitrary: n err)
  case (Suc m)
  have ih: "length (fst (forwardLoop (Suc n) m e url req err')) \<le> m \<and> set (fst (forwardLoop (Suc n) m e url req err')) \<subseteq> {req}" for err'
    by (rule Suc.IH)
  show ?case using ih by (auto simp: Let_def case_prod_unfold split: sum.splits)
qed simp

lemma forwardLoop_accepts:
  assumes "buildOk e url" and "n \<le> a" "a < n + m" "accepts e a" and "\<And>b. n \<le> b \<Longrightarrow> b < a \<Longrightarrow> retries e b"
  shows "forwardLoop n m e url req err = (replicate (Suc (a - n)) req, None)"
  using assms(2-)
proof (induction m arbitrary: n err)
  case (Suc m)
  show ?case
  proof (cases "n = a")
    case True
    then show ?thesis using Suc.prems assms(1) by (auto simp: accepts_def Let_def split: sum.splits)
  next
    case False
    then have "forwardLoop (n + 1) m e url req err' = (replicate (Suc (a - (n + 1))) req, None)" for err'
      using Suc.prems by (intro Suc.IH) auto
    moreover have "retries e n" "replicate (a - n) req = req # replicate (a - Suc n) req"
      using Suc.prems False by (auto simp: Suc_diff_Suc simp flip: replicate_Suc)
    ultimately show ?thesis using assms(1) by (auto simp: retries_def Let_def split: sum.splits)
  qed
qed simp

lemma forwardLoop_None:
  assumes "snd (forwardLoop n m e url req (Some err)) = None"
  shows "\<exists>a. n \<le> a \<and> a < n + m \<and> accepts e a \<and> (\<forall>b. n \<le> b \<and> b < a \<longrightarrow> retries e b)"
  using assms
proof (induction m arbitrary: n err)
  case (Suc m)
  show ?case
  proof (cases "accepts e n")
    case False
    then have r: "retries e n" "\<exists>err'. snd (forwardLoop (n + 1) m e url req (Some err')) = None"
      using Suc.prems by (auto simp: accepts_def retries_def Let_def case_prod_unfold split: sum.splits if_splits)
    then obtain a where a: "n + 1 \<le> a" "a < n + 1 + m" "accepts e a" "\<forall>b. n + 1 \<le> b \<and> b < a \<longrightarrow> retries e b"
      using Suc.IH by blast
    then have "retries e b" if "n \<le> b" "b < a" for b
      using that r(1) by (cases "b = n") auto
    then show ?thesis using a by (intro exI [of _ a]) auto
  qed auto
qed simp

text \<open>
  C30. The forward to the actor makes at most five attempts, all with the same request, addressed
  to the session's actor and carrying this broker's reply address and the request id. It
  succeeds exactly when some attempt is accepted and every earlier one failed transiently with
  the client still waiting, and then stops at that attempt.
\<close>

theorem forward_bounded:
  fixes c :: IngressConfig and e :: fenv
  defines "url \<equiv> ''http://'' @ AtenetAddr c @ ''/run''"
  defines "ok \<equiv> \<lambda>a. a \<in> {1..5} \<and> accepts e a \<and> (\<forall>b\<in>{1..<a}. retries e b)"
  assumes "buildOk e url"
  shows "length (fst (forwardToActor c e sid body reqID)) \<le> 5 \<and>
    set (fst (forwardToActor c e sid body reqID)) \<subseteq>
      {ForwardReq url (sid @ ''.'' @ Atespace c @ actorHostSuffix) (ReplyAddr c) reqID body} \<and>
    (snd (forwardToActor c e sid body reqID) = None \<longleftrightarrow> (\<exists>a. ok a)) \<and>
    (ok a \<longrightarrow> length (fst (forwardToActor c e sid body reqID)) = a)"
proof -
  define req where "req = ForwardReq url (sid @ ''.'' @ Atespace c @ actorHostSuffix) (ReplyAddr c) reqID body"
  have f: "forwardToActor c e sid body reqID = forwardLoop 1 5 e url req None"
    by (simp add: forwardToActor_def Let_def req_def url_def)
  have acc: "forwardLoop 1 5 e url req None = (replicate (Suc (a - 1)) req, None)" if "ok a" for a
    using that assms(3) by (intro forwardLoop_accepts) (auto simp: ok_def)
  have "forwardLoop 1 5 e url req None = forwardLoop 1 5 e url req (Some BuildErr)" by (simp add: forward_5)
  then have "\<exists>a. ok a" if "snd (forwardLoop 1 5 e url req None) = None"
    using forwardLoop_None [of 1 5 e url req BuildErr] that by (force simp: ok_def)
  then have "snd (forwardLoop 1 5 e url req None) = None \<longleftrightarrow> (\<exists>a. ok a)" using acc by auto
  moreover have "ok a \<longrightarrow> length (fst (forwardLoop 1 5 e url req None)) = a" using acc [of a] by (auto simp: ok_def)
  ultimately show ?thesis
    using forwardLoop_requests [of 1 5 e url req None] unfolding f req_def [symmetric] by blast
qed

theorem forward_bounded_witness:
  "length (fst (forwardToActor demo_icfg demo_fenv ''s'' [7] ''r1'')) = 2"
proof -
  have "{1..<2} = {1::nat}" by auto
  then show ?thesis
    using forward_bounded [of demo_fenv demo_icfg "''s''" "[7]" "''r1''" 2]
    by (simp add: demo_fenv_def accepts_def retries_def)
qed

lemma deliverFrom_posts: "x \<in> set (fst (deliverFrom n m e url post)) \<Longrightarrow> x = post \<or> (\<exists>d. x = Sleep d)"
  by (induction n m e url post rule: deliverFrom.induct) (auto simp: case_prod_unfold split: if_splits)

lemma process_posts:
  assumes "PostReply url r st ct body \<in> set (fst (process i e req))"
  shows "url = ''http://'' @ replyToHdr req @ ''/reply'' \<and> r = requestIDHdr req \<and> st = Itoa (StatusCode (agentReply e)) \<and>
    ct = contentType (agentReply e) \<and> body = respBody (agentReply e)"
  using assms
  by (auto simp: process_def deliver_def Let_def case_prod_unfold split: if_splits dest!: deliverFrom_posts)



section \<open>Departure from the expected behaviour\<close>

text \<open>
  A posted status outside 100..999 is stored as it is, and the client's handler then panics in
  \<^verbatim>\<open>WriteHeader\<close> instead of answering.
\<close>

theorem posted_status_panics:
  "\<exists>b'. runWait WakeReply 0 ''r1'' (HandleReply ''r1'' (replyOf ''7'' ''text/plain'' [8]) (bk (demo_parked True))) = Some (b', Panicked)"
proof -
  have "Atoi ''7'' = (7, NoError)"
    by (simp add: Atoi_def ParseUint_def digit_value_def)
  then show ?thesis
    by (simp add: HandleReply_def runWait_def replyOf_def writeReply_def demo_parked_def)
qed

end
