(* ===== verification/Programs.thy ===== *)
theory Programs
  imports Deployment Lifecycle Ingress_Broker
begin

text \<open>
  The programs as they start: \<^verbatim>\<open>cmd/egress-broker/main.go\<close>, \<^verbatim>\<open>cmd/egress-sidecar/main.go\<close>
  and \<^verbatim>\<open>demos/adk-calc/ingress-broker/main.go\<close>. Settings come from flags, which the flag library
  parses, with defaults from the environment; each program makes its parts from them or exits.
\<close>

section \<open>Settings\<close>

text \<open>
  The environment (an unset variable is the empty string), the values of the flags present on the
  command line, and the floating-point product that \<^const>\<open>ParseDuration\<close> needs.
\<close>

record cmdline =
  getenv :: "string \<Rightarrow> string"
  flagString :: "string \<Rightarrow> string option"
  flagInt :: "string \<Rightarrow> int option"
  flagBool :: "string \<Rightarrow> bool option"
  flagDuration :: "string \<Rightarrow> int option"
  fprod :: "nat \<Rightarrow> nat \<Rightarrow> nat \<Rightarrow> nat"

definition envOr :: "cmdline \<Rightarrow> string \<Rightarrow> string \<Rightarrow> string" where
  "envOr cl key dflt = (if getenv cl key \<noteq> [] then getenv cl key else dflt)"

definition envInt :: "cmdline \<Rightarrow> string \<Rightarrow> int \<Rightarrow> int" where
  "envInt cl key dflt =
     (if getenv cl key \<noteq> [] then (case Atoi (getenv cl key) of (n, NoError) \<Rightarrow> n | _ \<Rightarrow> dflt) else dflt)"

definition envBool :: "cmdline \<Rightarrow> string \<Rightarrow> bool \<Rightarrow> bool" where
  "envBool cl key dflt =
     (if getenv cl key \<noteq> [] then (case ParseBool (getenv cl key) of Some b \<Rightarrow> b | None \<Rightarrow> dflt) else dflt)"

definition envDur :: "cmdline \<Rightarrow> string \<Rightarrow> int \<Rightarrow> int" where
  "envDur cl key dflt =
     (if getenv cl key \<noteq> [] then (case ParseDuration (fprod cl) (getenv cl key) of Some d \<Rightarrow> d | None \<Rightarrow> dflt) else dflt)"

definition given :: "'a option \<Rightarrow> 'a \<Rightarrow> 'a" where
  "given f dflt = (case f of Some v \<Rightarrow> v | None \<Rightarrow> dflt)"

datatype 'a boot = Exit int | Up 'a

section \<open>The egress broker\<close>

record BrokerFlags =
  tunnelListen :: string
  debugListen :: string
  bAteapiAddr :: string
  bAteapiInsec :: bool
  sessionBuffer :: int
  watchdogFlag :: int

definition brokerFlags :: "cmdline \<Rightarrow> BrokerFlags" where
  "brokerFlags cl =
     \<lparr>tunnelListen = given (flagString cl ''tunnel-listen'') (envOr cl ''TUNNEL_LISTEN'' '':9000''),
      debugListen = given (flagString cl ''debug-listen'') (envOr cl ''DEBUG_LISTEN'' '':9001''),
      bAteapiAddr = given (flagString cl ''ateapi'') (envOr cl ''ATEAPI_ADDR'' ''api.ate-system.svc:443''),
      bAteapiInsec = given (flagBool cl ''ateapi-insecure'') (envBool cl ''ATEAPI_INSECURE'' False),
      sessionBuffer = given (flagInt cl ''session-buffer-bytes'') (envInt cl ''SESSION_BUFFER_BYTES'' (4 * 1024 * 1024)),
      watchdogFlag = given (flagDuration cl ''max-suspend-watchdog'') (envDur cl ''MAX_SUSPEND_WATCHDOG'' 300000000000)\<rparr>"

definition brokerConfig :: "BrokerFlags \<Rightarrow> Config" where
  "brokerConfig fl =
     \<lparr>SessionBufferBytes = sessionBuffer fl, cfgMaxSuspendWatchdog = watchdogFlag fl, DialTimeout = 0,
      TunnelReadTimeout = 0, AllowTarget = None\<rparr>"

text \<open>\<open>newClient\<close> is the gRPC library's constructor and \<open>listens\<close> says which addresses can be bound.\<close>

definition brokerMain :: "(string \<Rightarrow> transportCreds \<Rightarrow> string + 'conn) \<Rightarrow> (string \<Rightarrow> bool) \<Rightarrow> cmdline \<Rightarrow> broker boot" where
  "brokerMain newClient listens cl =
     (let fl = brokerFlags cl in
      case Dial newClient \<lparr>Addr = bAteapiAddr fl, Insecure = bAteapiInsec fl\<rparr> of
        Inl err \<Rightarrow> Exit 1
      | Inr lc \<Rightarrow> if \<not> listens (tunnelListen fl) then Exit 1 else Up (New (brokerConfig fl)))"

section \<open>The egress sidecar\<close>

record SidecarFlags =
  proxyListen :: string
  brokerAddr :: string
  ingressListen :: string
  agentAddr :: string
  sAtespace :: string
  actorName :: string
  actorIDFile :: string
  statusURL :: string
  sAteapiAddr :: string
  sAteapiInsec :: bool
  suspendOff :: bool
  blockedAfter :: int
  includeModelFlag :: bool
  idleAfter :: int
  pingInterval :: int
  pongTimeout :: int
  sessionBuf :: int

definition sidecarFlags :: "cmdline \<Rightarrow> SidecarFlags" where
  "sidecarFlags cl =
     \<lparr>proxyListen = given (flagString cl ''proxy-listen'') (envOr cl ''PROXY_LISTEN'' '':15001''),
      brokerAddr = given (flagString cl ''broker-addr'') (envOr cl ''BROKER_ADDR'' []),
      ingressListen = given (flagString cl ''ingress-listen'') (envOr cl ''INGRESS_LISTEN'' []),
      agentAddr = given (flagString cl ''agent-addr'') (envOr cl ''AGENT_ADDR'' ''127.0.0.1:8080''),
      sAtespace = given (flagString cl ''atespace'') (envOr cl ''ATE_ATESPACE'' []),
      actorName = given (flagString cl ''actor-name'') (envOr cl ''ATE_ACTOR_NAME'' []),
      actorIDFile = given (flagString cl ''actor-id-file'') (envOr cl ''ATE_ACTOR_ID_FILE'' ''/run/ate/actor-id''),
      statusURL = given (flagString cl ''status-url'') (envOr cl ''STATUS_URL'' ''http://127.0.0.1:9902/statusz''),
      sAteapiAddr = given (flagString cl ''ateapi'') (envOr cl ''ATEAPI_ADDR'' ''api.ate-system.svc:443''),
      sAteapiInsec = given (flagBool cl ''ateapi-insecure'') (envBool cl ''ATEAPI_INSECURE'' False),
      suspendOff = given (flagBool cl ''no-suspend'') (envBool cl ''NO_SUSPEND'' False),
      blockedAfter = given (flagDuration cl ''blocked-after'') (envDur cl ''BLOCKED_AFTER'' 1000000000),
      includeModelFlag = given (flagBool cl ''include-model-calls'') (envBool cl ''INCLUDE_MODEL_CALLS'' False),
      idleAfter = given (flagDuration cl ''idle-after'') (envDur cl ''IDLE_AFTER'' 0),
      pingInterval = given (flagDuration cl ''ping-interval'') (envDur cl ''PING_INTERVAL'' 1000000000),
      pongTimeout = given (flagDuration cl ''pong-timeout'') (envDur cl ''PONG_TIMEOUT'' 3000000000),
      sessionBuf = given (flagInt cl ''session-buffer-bytes'') (envInt cl ''SESSION_BUFFER_BYTES'' (4 * 1024 * 1024))\<rparr>"

text \<open>\<open>files\<close> are the contents of the files that can be read, at the moment they are read.\<close>

definition readActorName :: "(string \<Rightarrow> string option) \<Rightarrow> string \<Rightarrow> string" where
  "readActorName files path = (case files path of None \<Rightarrow> [] | Some b \<Rightarrow> TrimSpace b)"

definition identity :: "SidecarFlags \<Rightarrow> (string \<Rightarrow> string option) \<Rightarrow> Ref" where
  "identity fl files =
     \<lparr>Ref.Atespace = sAtespace fl,
      Name = (if actorName fl = [] then readActorName files (actorIDFile fl) else actorName fl)\<rparr>"

definition clientConfig :: "SidecarFlags \<Rightarrow> ClientConfig" where
  "clientConfig fl =
     \<lparr>SessionBuffer = sessionBuf fl, PingInterval = pingInterval fl, PongTimeout = pongTimeout fl, DialBackoff = 0\<rparr>"

definition suspenderConfig :: "SidecarFlags \<Rightarrow> bool \<Rightarrow> SuspenderConfig" where
  "suspenderConfig fl withIngress =
     \<lparr>PollInterval = 0, BlockedAfter = blockedAfter fl, IncludeModelCalls = includeModelFlag fl, IdleAfter = idleAfter fl,
      Cooldown = 0, hasIngressIdle = withIngress\<rparr>"

record Sidecar =
  sdClient :: client
  sdIngress :: "Ingress option"
  sdSuspender :: "Suspender option"

definition sidecarMain ::
  "(string \<Rightarrow> transportCreds \<Rightarrow> string + 'conn) \<Rightarrow> (string \<Rightarrow> bool) \<Rightarrow> (string \<Rightarrow> string option) \<Rightarrow> int \<Rightarrow> cmdline \<Rightarrow> Sidecar boot" where
  "sidecarMain newClient listens files now cl =
     (let fl = sidecarFlags cl in
      if brokerAddr fl = [] then Exit 1
      else if Name (identity fl files) = [] then Exit 1
      else
        let clt = NewClient (clientConfig fl);
            ing = (if ingressListen fl = [] then None else Some (NewIngress (agentAddr fl) now));
            dialed = (if suspendOff fl then Inr None
                      else case Dial newClient \<lparr>Addr = sAteapiAddr fl, Insecure = sAteapiInsec fl\<rparr> of
                             Inl err \<Rightarrow> Inl err
                           | Inr lc \<Rightarrow> Inr (Some (NewSuspender (suspenderConfig fl (ing \<noteq> None)) now)))
        in case dialed of
             Inl err \<Rightarrow> Exit 1
           | Inr sus \<Rightarrow>
               if ing \<noteq> None \<and> \<not> listens (ingressListen fl) then Exit 1
               else if \<not> listens (proxyListen fl) then Exit 1
               else Up \<lparr>sdClient = clt, sdIngress = ing, sdSuspender = sus\<rparr>)"

section \<open>The ingress broker\<close>

text \<open>Without a reply address the program ends; otherwise it makes its broker from the settings.\<close>

definition replyAddrOf :: "cmdline \<Rightarrow> string option" where
  "replyAddrOf cl =
     (let r = envOr cl ''REPLY_ADDR'' []; podIP = envOr cl ''POD_IP'' []; port = envOr cl ''REPLY_PORT'' ''9090''
      in if r \<noteq> [] then Some r else if podIP = [] then None else Some (podIP @ '':'' @ port))"

definition ingressBrokerMain :: "cmdline \<Rightarrow> ibroker boot" where
  "ingressBrokerMain cl =
     (case replyAddrOf cl of
        None \<Rightarrow> Exit 1
      | Some r \<Rightarrow>
          Up (NewIngressBroker
            (IngressConfig.make (given (flagString cl ''atenet'') (envOr cl ''ATENET_ADDR'' ''atenet-router.ate-system.svc:80''))
               (given (flagString cl ''atespace'') (envOr cl ''ATE_ATESPACE'' ''demo'')) r 0)))"

section \<open>Properties\<close>


text \<open>Settings for a sidecar, and the file of an actor.\<close>

definition plain_env :: "string \<Rightarrow> string" where
  "plain_env key = (if key = ''BROKER_ADDR'' then ''b:9000'' else if key = ''ATE_ATESPACE'' then ''ns''
     else if key = ''INGRESS_LISTEN'' then '':80'' else [])"

definition plain_cl :: cmdline where
  "plain_cl = \<lparr>getenv = plain_env, flagString = (\<lambda>_. None), flagInt = (\<lambda>_. None), flagBool = (\<lambda>_. None),
     flagDuration = (\<lambda>_. None), fprod = (\<lambda>f unit scale. f * unit div scale)\<rparr>"

definition id_file :: "string \<Rightarrow> string \<Rightarrow> string option" where
  "id_file name = [''/run/ate/actor-id'' \<mapsto> name @ [CHR 0x0A]]"

lemma plain_flags:
  "brokerAddr (sidecarFlags plain_cl) = ''b:9000''" "actorName (sidecarFlags plain_cl) = []"
  "sAtespace (sidecarFlags plain_cl) = ''ns''" "actorIDFile (sidecarFlags plain_cl) = ''/run/ate/actor-id''"
  "suspendOff (sidecarFlags plain_cl) = False" "ingressListen (sidecarFlags plain_cl) = '':80''"
  "sAteapiAddr (sidecarFlags plain_cl) = ''api.ate-system.svc:443''"
  by (simp_all add: sidecarFlags_def given_def envOr_def envBool_def plain_cl_def plain_env_def)

lemma tight_name: "tight ''a''"
  by (simp add: tight_def spaces_def HasPrefix_def)






lemma plain_broker: "brokerMain (\<lambda>_ _. Inr ()) (\<lambda>_. True) plain_cl = Up (New (brokerConfig (brokerFlags plain_cl)))"
  "sessionBuffer (brokerFlags plain_cl) = 4194304" "sessionBuf (sidecarFlags plain_cl) = 4194304"
  by (simp_all add: brokerMain_def brokerFlags_def sidecarFlags_def given_def envOr_def envInt_def envBool_def plain_cl_def plain_env_def Dial_def)


section \<open>Departure from the expected behaviour\<close>

text \<open>
  A negative \<^verbatim>\<open>SESSION_BUFFER_BYTES\<close> is a numeral and not zero, so that neither the program nor
  \<^verbatim>\<open>NewClient\<close> replaces it; the first byte an agent sends on any session then makes the sidecar slice
  its buffer at a negative length.
\<close>

definition negative_cl :: cmdline where
  "negative_cl = plain_cl\<lparr>getenv := plain_env(''SESSION_BUFFER_BYTES'' := ''-1'')\<rparr>"

lemma negative_buffer_panics:
  "sessionBuf (sidecarFlags negative_cl) = -1"
  "WriteUpTurn all_ok 1 [7] (fst (OpenSession all_ok ''x:80'' True (NewClient (clientConfig (sidecarFlags negative_cl))))) =
     (fst (OpenSession all_ok ''x:80'' True (NewClient (clientConfig (sidecarFlags negative_cl)))), [], WPanic)"
proof -
  show 1: "sessionBuf (sidecarFlags negative_cl) = -1"
    by (simp add: sidecarFlags_def given_def envInt_def negative_cl_def plain_cl_def Atoi_def ParseUint_def digit_value_def)
  show "WriteUpTurn all_ok 1 [7] (fst (OpenSession all_ok ''x:80'' True (NewClient (clientConfig (sidecarFlags negative_cl))))) =
     (fst (OpenSession all_ok ''x:80'' True (NewClient (clientConfig (sidecarFlags negative_cl)))), [], WPanic)"
    by (simp add: WriteUpTurn_def OpenSession_def NewClient_def clientConfig_def 1 Let_def newClientSession_def writeUpTurn_def
        Free_def NewReplayBuffer_def)
qed

end
