(* ===== verification/Proxy.thy ===== *)
theory Proxy
  imports Prelude
begin

text \<open>
  The sidecar's forward proxy, \<^verbatim>\<open>internal/sidecar/proxy.go\<close>: it reads the agent's
  requests, opens one tunnel session per connection and pushes the agent's bytes onto it.
\<close>

section \<open>Host and port (net.SplitHostPort, net.JoinHostPort)\<close>

fun index_of :: "char \<Rightarrow> string \<Rightarrow> nat option" where
  "index_of c [] = None"
| "index_of c (x # xs) = (if x = c then Some 0 else map_option Suc (index_of c xs))"

fun last_index_of :: "char \<Rightarrow> string \<Rightarrow> nat option" where
  "last_index_of c [] = None"
| "last_index_of c (x # xs) =
     (case last_index_of c xs of
        Some n \<Rightarrow> Some (Suc n)
      | None \<Rightarrow> if x = c then Some 0 else None)"

text \<open>
  \<^verbatim>\<open>SplitHostPort\<close>: the host and the port, \<^const>\<open>None\<close> for each of its errors. The port
  follows the last colon; a host in brackets must end right before it, one without brackets has no
  other colon; and no bracket is left elsewhere.
\<close>

definition SplitHostPort :: "string \<Rightarrow> (string \<times> string) option" where
  "SplitHostPort hp =
     (case last_index_of CHR '':'' hp of
        None \<Rightarrow> None
      | Some i \<Rightarrow>
          (let port = drop (Suc i) hp
           in if hd hp = CHR ''['' then
                (case index_of CHR '']'' hp of
                   None \<Rightarrow> None
                 | Some end' \<Rightarrow>
                     if Suc end' \<noteq> i then None
                     else if CHR ''['' \<in> set (drop 1 hp) then None
                     else if CHR '']'' \<in> set (drop (Suc end') hp) then None
                     else Some (take (end' - 1) (drop 1 hp), port))
              else if CHR '':'' \<in> set (take i hp) then None
              else if CHR ''['' \<in> set hp then None
              else if CHR '']'' \<in> set hp then None
              else Some (take i hp, port)))"

definition JoinHostPort :: "string \<Rightarrow> string \<Rightarrow> string" where
  "JoinHostPort host port =
     (if CHR '':'' \<in> set host then ''['' @ host @ '']:'' @ port else host @ '':'' @ port)"

definition hostPort :: "string \<Rightarrow> string \<Rightarrow> string" where
  "hostPort host defaultPort =
     (if host = [] then []
      else if SplitHostPort host \<noteq> None then host
      else JoinHostPort host defaultPort)"

section \<open>Handlers\<close>

datatype go_err = EOF | Err string

definition closeReason :: "go_err option \<Rightarrow> string" where
  "closeReason err =
     (case err of
        None \<Rightarrow> ''eof''
      | Some EOF \<Rightarrow> ''eof''
      | Some (Err msg) \<Rightarrow> if sublist ''closed'' msg then ''closed'' else ''err: '' @ msg)"

text \<open>
  A request as the handlers use it: its method, its \<^verbatim>\<open>Host\<close>, and what \<^verbatim>\<open>req.Write\<close>
  produces of its origin form on the pipe, in the chunks the reader gets, with the error that
  ends it if any.
\<close>

record PRequest =
  pMethod :: string
  pHost :: string
  pChunks :: "bytes list"
  pWriteErr :: "go_err option"

datatype paction =
    AgentWrite string
  | AgentClose
  | POpen string
  | PWriteUp bytes
  | PCloseUp string

text \<open>
  The outcome of the session's \<^verbatim>\<open>WriteUp\<close> is a parameter \<open>wr\<close> of the handlers, by the number
  of the call; \<open>n\<close> counts the calls made.
\<close>

fun writeChunks :: "(nat \<Rightarrow> go_err option) \<Rightarrow> nat \<Rightarrow> bytes list \<Rightarrow> go_err option \<Rightarrow> paction list \<times> nat \<times> go_err option" where
  "writeChunks wr n [] endErr = ([], n, endErr)"
| "writeChunks wr n (c # cs) endErr =
     (if c = [] then writeChunks wr n cs endErr
      else case wr n of
             Some err \<Rightarrow> ([PWriteUp c], n + 1, Some err)
           | None \<Rightarrow> (case writeChunks wr (n + 1) cs endErr of (acts, n', r) \<Rightarrow> (PWriteUp c # acts, n', r)))"

definition writeOriginForm :: "(nat \<Rightarrow> go_err option) \<Rightarrow> nat \<Rightarrow> PRequest \<Rightarrow> paction list \<times> nat \<times> go_err option" where
  "writeOriginForm wr n req =
     writeChunks wr n (pChunks req) (if pWriteErr req = Some EOF then None else pWriteErr req)"

text \<open>The request loop: \<open>req\<close> is the current request, \<open>rest\<close> and \<open>endErr\<close> what the reader gives next.\<close>

fun httpLoop :: "(nat \<Rightarrow> go_err option) \<Rightarrow> string \<Rightarrow> nat \<Rightarrow> PRequest \<Rightarrow> PRequest list \<Rightarrow> go_err \<Rightarrow> paction list" where
  "httpLoop wr target n req rest endErr =
     (if hostPort (pHost req) ''80'' \<noteq> target then [PCloseUp ''host change'']
      else case writeOriginForm wr n req of (acts, n', r) \<Rightarrow>
        acts @
        (case r of
           Some err \<Rightarrow> [PCloseUp (closeReason (Some err))]
         | None \<Rightarrow>
             (case rest of
                [] \<Rightarrow> [PCloseUp (closeReason (Some endErr))]
              | next # rest' \<Rightarrow> httpLoop wr target n' next rest' endErr)))"

declare httpLoop.simps [simp del]

definition handleHTTP :: "(nat \<Rightarrow> go_err option) \<Rightarrow> PRequest \<Rightarrow> PRequest list \<Rightarrow> go_err \<Rightarrow> paction list" where
  "handleHTTP wr first rest endErr =
     (let target = hostPort (pHost first) ''80''
      in POpen target # httpLoop wr target 0 first rest endErr)"

text \<open>
  The copy loop of a CONNECT tunnel, over the results of the agent connection's reads: bytes,
  and the error returned with them if any. A failed \<^verbatim>\<open>WriteUp\<close> leaves the loop without closing.
\<close>

fun connectLoop :: "(nat \<Rightarrow> go_err option) \<Rightarrow> nat \<Rightarrow> (bytes \<times> go_err option) list \<Rightarrow> paction list" where
  "connectLoop wr n [] = []"
| "connectLoop wr n ((bs, err) # rds) =
     (if bs \<noteq> [] \<and> wr n \<noteq> None then [PWriteUp bs]
      else (if bs = [] then [] else [PWriteUp bs]) @
           (case err of
              Some e \<Rightarrow> [PCloseUp (closeReason (Some e))]
            | None \<Rightarrow> connectLoop wr (if bs = [] then n else n + 1) rds))"

definition established :: string where
  "established = ''HTTP/1.1 200 Connection Established'' @ [CHR 0x0D, CHR 0x0A, CHR 0x0D, CHR 0x0A]"

definition handleConnect :: "bool \<Rightarrow> (nat \<Rightarrow> go_err option) \<Rightarrow> PRequest \<Rightarrow> (bytes \<times> go_err option) list \<Rightarrow> paction list" where
  "handleConnect ackOk wr req rds =
     (let target = hostPort (pHost req) ''443''
      in if \<not> ackOk then [AgentWrite established, AgentClose]
         else AgentWrite established # POpen target # connectLoop wr 0 rds)"

text \<open>
  \<^verbatim>\<open>handle\<close>: \<open>first\<close> is the first request, \<^const>\<open>None\<close> when none could be read; the raw
  reads feed a CONNECT tunnel, the parsed requests a plain connection.
\<close>

definition proxyHandle :: "bool \<Rightarrow> (nat \<Rightarrow> go_err option) \<Rightarrow> PRequest option \<Rightarrow> (bytes \<times> go_err option) list \<Rightarrow> PRequest list \<Rightarrow> go_err \<Rightarrow> paction list" where
  "proxyHandle ackOk wr first rds rest endErr =
     (case first of
        None \<Rightarrow> [AgentClose]
      | Some req \<Rightarrow>
          if pMethod req = ''CONNECT'' then handleConnect ackOk wr req rds
          else handleHTTP wr req rest endErr)"

section \<open>Lemmas\<close>

lemma index_of_append: "c \<notin> set xs \<Longrightarrow> index_of c (xs @ c # ys) = Some (length xs)"
  by (induction xs) auto

lemma last_index_of_none [simp]: "last_index_of c xs = None \<longleftrightarrow> c \<notin> set xs"
  by (induction xs) (auto split: option.splits)

lemma last_index_of_append: "c \<notin> set ys \<Longrightarrow> last_index_of c (xs @ c # ys) = Some (length xs)"
  by (induction xs) (auto split: option.splits dest: last_index_of_none [THEN iffD2])

definition plain :: "string \<Rightarrow> bool" where
  "plain s \<longleftrightarrow> CHR ''['' \<notin> set s \<and> CHR '']'' \<notin> set s"

lemma split_join:
  assumes "plain h" "h \<noteq> []" "plain p" "CHR '':'' \<notin> set p"
  shows "SplitHostPort (JoinHostPort h p) = Some (h, p)"
proof (cases "CHR '':'' \<in> set h")
  case True
  have "last_index_of CHR '':'' (''['' @ h @ '']:'' @ p) = Some (length (''['' @ h @ '']''))"
    using last_index_of_append [of "CHR '':''" p "''['' @ h @ '']''"] assms(4) by simp
  moreover have "index_of CHR '']'' (''['' @ h @ '']:'' @ p) = Some (length (''['' @ h))"
    using index_of_append [of "CHR '']''" "''['' @ h" "'':'' @ p"] assms(1) by (simp add: plain_def)
  ultimately show ?thesis using True assms by (simp add: SplitHostPort_def JoinHostPort_def plain_def)
next
  case False
  have "last_index_of CHR '':'' (h @ '':'' @ p) = Some (length h)"
    using last_index_of_append [of "CHR '':''" p h] assms(4) by simp
  moreover have "hd (h @ '':'' @ p) \<noteq> CHR ''[''" using assms(1,2) by (cases h) (auto simp: plain_def)
  ultimately show ?thesis using False assms by (simp add: SplitHostPort_def JoinHostPort_def plain_def)
qed

section \<open>Properties\<close>

text \<open>
  The session target always has a port. For a host without brackets, a name, an IPv4 or a bare
  IPv6 address, with or without a port, the target splits into a host and a port: the ones given
  when the request had both, else the whole host with the default port. Normalising a target again,
  with any default, changes nothing, which is what makes the comparison of targets sound.
\<close>

lemma hostPort_splits:
  assumes "plain h" "h \<noteq> []" "plain p" "CHR '':'' \<notin> set p"
  shows "SplitHostPort (hostPort h p) = (case SplitHostPort h of None \<Rightarrow> Some (h, p) | Some hp \<Rightarrow> Some hp) \<and>
    hostPort (hostPort h p) q = hostPort h p"
proof -
  have "SplitHostPort (hostPort h p) = (case SplitHostPort h of None \<Rightarrow> Some (h, p) | Some hp \<Rightarrow> Some hp)"
    using assms split_join [OF assms] by (auto simp: hostPort_def split: option.splits)
  moreover from this have "SplitHostPort (hostPort h p) \<noteq> None" by (simp split: option.splits)
  then have "hostPort (hostPort h p) q = hostPort h p" by (auto simp: hostPort_def [of "hostPort h p"] SplitHostPort_def)
  ultimately show ?thesis by simp
qed

text \<open>The bytes pushed onto the session, and the origin form of a request.\<close>

fun pushedBytes :: "paction list \<Rightarrow> bytes" where
  "pushedBytes [] = []"
| "pushedBytes (PWriteUp bs # acts) = bs @ pushedBytes acts"
| "pushedBytes (_ # acts) = pushedBytes acts"

definition origin :: "PRequest \<Rightarrow> bytes" where
  "origin req = concat (pChunks req)"

definition pushes :: "paction list \<Rightarrow> bool" where
  "pushes acts \<longleftrightarrow> (\<forall>a\<in>set acts. \<exists>bs. a = PWriteUp bs)"

lemma pushedBytes_append [simp]: "pushedBytes (as @ bs) = pushedBytes as @ pushedBytes bs"
  by (induction as rule: pushedBytes.induct) simp_all

lemma writeChunks_pushedBytes:
  assumes "writeChunks wr n cs endErr = (acts, n', r)"
  shows "prefix (pushedBytes acts) (concat cs) \<and> pushes acts \<and> (r = None \<longrightarrow> pushedBytes acts = concat cs) \<and>
    ((\<forall>k. wr k = None) \<longrightarrow> r = endErr)"
  using assms
proof (induction wr n cs endErr arbitrary: acts n' r rule: writeChunks.induct)
  case (2 wr n c cs endErr)
  obtain acts' n'' r' where rec: "writeChunks wr (n + 1) cs endErr = (acts', n'', r')" by (metis prod_cases3)
  show ?case
    using 2 rec by (cases "wr n") (auto simp: pushes_def split: if_splits)
qed (simp add: pushes_def)

lemma writeOriginForm_pushedBytes:
  assumes "writeOriginForm wr n req = (acts, n', r)"
  shows "prefix (pushedBytes acts) (origin req)" "pushes acts" "r = None \<Longrightarrow> pushedBytes acts = origin req"
    "(\<forall>k. wr k = None) \<Longrightarrow> pWriteErr req = None \<Longrightarrow> r = None"
  using writeChunks_pushedBytes [of wr n "pChunks req" "if pWriteErr req = Some EOF then None else pWriteErr req"] assms
  by (auto simp: writeOriginForm_def origin_def)

lemma httpLoop_pushedBytes:
  "\<exists>k acts reason. httpLoop wr target n req rest endErr = acts @ [PCloseUp reason] \<and> pushes acts \<and>
     prefix (pushedBytes acts) (concat (map origin (take k (req # rest)))) \<and>
     (\<forall>q\<in>set (take k (req # rest)). hostPort (pHost q) ''80'' = target)"
proof (induction rest arbitrary: n req)
  case Nil
  obtain acts n' r where w: "writeOriginForm wr n req = (acts, n', r)" by (metis prod_cases3)
  note u = writeOriginForm_pushedBytes [OF w]
  show ?case
  proof (cases "hostPort (pHost req) ''80'' = target")
    case True
    then show ?thesis
      using u(1,2) w by (intro exI [of _ 1] exI [of _ acts]) (auto simp: httpLoop.simps split: option.splits)
  next
    case False
    then show ?thesis by (intro exI [of _ 0], intro exI [of _ "[]"] exI [of _ "''host change''"]) (simp add: httpLoop.simps pushes_def)
  qed
next
  case (Cons q rest)
  obtain acts n' r where w: "writeOriginForm wr n req = (acts, n', r)" by (metis prod_cases3)
  note u = writeOriginForm_pushedBytes [OF w]
  consider "hostPort (pHost req) ''80'' \<noteq> target" | "hostPort (pHost req) ''80'' = target" "r \<noteq> None"
    | "hostPort (pHost req) ''80'' = target" "r = None" by blast
  then show ?case
  proof cases
    case 1
    then show ?thesis by (intro exI [of _ 0], intro exI [of _ "[]"] exI [of _ "''host change''"]) (simp add: httpLoop.simps pushes_def)
  next
    case 2
    then show ?thesis
      using u(1,2) w by (intro exI [of _ 1] exI [of _ acts]) (auto simp: httpLoop.simps)
  next
    case 3
    obtain k acts' reason where ih: "httpLoop wr target n' q rest endErr = acts' @ [PCloseUp reason]" "pushes acts'"
      "prefix (pushedBytes acts') (concat (map origin (take k (q # rest))))"
      "\<forall>x\<in>set (take k (q # rest)). hostPort (pHost x) ''80'' = target" using Cons.IH [of n' q] by blast
    have "httpLoop wr target n req (q # rest) endErr = (acts @ acts') @ [PCloseUp reason]"
      using 3 w ih(1) by (simp add: httpLoop.simps [of wr target n req])
    moreover have "pushes (acts @ acts')" using u(2) ih(2) by (auto simp: pushes_def)
    moreover have "pushedBytes acts = origin req" using u(3) 3 by simp
    ultimately show ?thesis using ih(3,4) 3 by (intro exI [of _ "Suc k"] exI [of _ "acts @ acts'"]) simp
  qed
qed

text \<open>
  C33. A plain proxy connection never leaks to another host. Whatever requests the agent sends on
  it and however writes fail, the handler opens one session, for the target of the first request,
  pushes only a prefix of the origin forms of the leading requests that have that target, and
  closes the upstream exactly once, as its last action.
\<close>

theorem http_single_target:
  "\<exists>k acts reason. handleHTTP wr req rest endErr =
       POpen (hostPort (pHost req) ''80'') # acts @ [PCloseUp reason] \<and> pushes acts \<and>
     prefix (pushedBytes acts) (concat (map origin (take k (req # rest)))) \<and>
     list_all (\<lambda>q. hostPort (pHost q) ''80'' = hostPort (pHost req) ''80'') (take k (req # rest))"
  using httpLoop_pushedBytes [of wr "hostPort (pHost req) ''80''" 0 req rest endErr]
  by (simp add: handleHTTP_def Let_def list_all_iff)

section \<open>Departure from the documented contract\<close>

text \<open>
  A bracketed IPv6 host without a port is bracketed a second time: the target has no valid host
  and port, so that the upstream cannot be dialled.
\<close>

theorem bracketed_host_mangled:
  "hostPort ''[::1]'' ''80'' = ''[[::1]]:80'' \<and> SplitHostPort (hostPort ''[::1]'' ''80'') = None"
  by (simp add: hostPort_def SplitHostPort_def JoinHostPort_def)

end
