(* ===== verification/Services.thy ===== *)
theory Services
  imports Programs Proxy
begin

text \<open>
  The loops and calls around the handlers: the accept loops of the broker, the proxy and the
  ingress, the agent's status endpoint, and the poller's two calls, which fetch that status and
  suspend the actor the process is in.
\<close>

section \<open>Accepting connections\<close>

text \<open>
  What \<^verbatim>\<open>Accept\<close> returns, each time with whether the context has been cancelled by then. The
  result is the connections handed to goroutines, and what \<^verbatim>\<open>Serve\<close> returns once it does: nil is
  the inner \<^const>\<open>None\<close>.
\<close>

fun acceptLoop :: "((string + 'c) \<times> bool) list \<Rightarrow> 'c list \<times> string option option" where
  "acceptLoop [] = ([], None)"
| "acceptLoop ((Inr c, cancelled) # rest) = (case acceptLoop rest of (cs, r) \<Rightarrow> (c # cs, r))"
| "acceptLoop ((Inl err, cancelled) # rest) = ([], Some (if cancelled then None else Some err))"

datatype goroutine = ServeTunnel nat | ProxyHandle nat | IngressHandle nat

definition Broker_Serve :: "((string + nat) \<times> bool) list \<Rightarrow> goroutine list \<times> string option option" where
  "Broker_Serve arrivals = (case acceptLoop arrivals of (cs, r) \<Rightarrow> (map ServeTunnel cs, r))"

definition Proxy_Serve :: "((string + nat) \<times> bool) list \<Rightarrow> goroutine list \<times> string option option" where
  "Proxy_Serve arrivals = (case acceptLoop arrivals of (cs, r) \<Rightarrow> (map ProxyHandle cs, r))"

definition Ingress_Serve :: "((string + nat) \<times> bool) list \<Rightarrow> goroutine list \<times> string option option" where
  "Ingress_Serve arrivals = (case acceptLoop arrivals of (cs, r) \<Rightarrow> (map IngressHandle cs, r))"

lemma acceptLoop_spec:
  "acceptLoop arrivals =
     (map (\<lambda>x. projr (fst x)) (takeWhile (\<lambda>x. isl (fst x) = False) arrivals),
      case dropWhile (\<lambda>x. isl (fst x) = False) arrivals of
        [] \<Rightarrow> None
      | (x, cancelled) # _ \<Rightarrow> Some (if cancelled then None else Some (projl x)))"
  by (induction arrivals rule: acceptLoop.induct) simp_all

section \<open>The status endpoint and the poller's calls\<close>

text \<open>\<open>enc\<close> and \<open>dec\<close> are the JSON of a status, as documents of some type.\<close>

definition statusHandler :: "(Status \<Rightarrow> 'j) \<Rightarrow> int \<Rightarrow> Tracker \<Rightarrow> string \<Rightarrow> 'j option" where
  "statusHandler enc now t path =
     (case route [''/statusz''] path of Route p \<Rightarrow> Some (enc (Snapshot now t)) | _ \<Rightarrow> None)"

text \<open>\<^verbatim>\<open>fetch\<close>: an error of the request, of the exchange or of the decoder is \<^const>\<open>None\<close>.\<close>

definition fetch :: "(string \<Rightarrow> bool) \<Rightarrow> (string \<Rightarrow> 'j option) \<Rightarrow> ('j \<Rightarrow> Status option) \<Rightarrow> string \<Rightarrow> Status option" where
  "fetch requestOk get dec url =
     (if \<not> requestOk url then None else case get url of None \<Rightarrow> None | Some body \<Rightarrow> dec body)"

text \<open>\<^verbatim>\<open>suspend\<close> reads the identity anew and makes one call, whose result is only logged.\<close>

definition suspendSelf :: "SidecarFlags \<Rightarrow> (string \<Rightarrow> string option) \<Rightarrow> ctrlRequest" where
  "suspendSelf fl files = verbRequest SuspendVerb (identity fl files)"

text \<open>
  The poller in its process. At a tick, the agent's endpoint answers or not, with its tracker as it
  is then; and the identity file has its content of that moment. \<open>enc\<close> and \<open>dec\<close> are as above.
\<close>

record pollEnv =
  peAnswers :: bool
  peNow :: int
  peTracker :: Tracker
  peFiles :: "string \<Rightarrow> string option"

definition agentGet :: "(Status \<Rightarrow> 'j) \<Rightarrow> pollEnv \<Rightarrow> string \<Rightarrow> 'j option" where
  "agentGet enc pe url = (if peAnswers pe then statusHandler enc (peNow pe) (peTracker pe) ''/statusz'' else None)"

definition polled ::
  "(string \<Rightarrow> bool) \<Rightarrow> (Status \<Rightarrow> 'j) \<Rightarrow> ('j \<Rightarrow> Status option) \<Rightarrow> SidecarFlags \<Rightarrow> pollEnv \<times> tick \<Rightarrow> tick" where
  "polled requestOk enc dec fl x = (snd x)\<lparr>fetched := fetch requestOk (agentGet enc (fst x)) dec (statusURL fl)\<rparr>"

fun pollProcess ::
  "(string \<Rightarrow> bool) \<Rightarrow> (Status \<Rightarrow> 'j) \<Rightarrow> ('j \<Rightarrow> Status option) \<Rightarrow> SidecarFlags \<Rightarrow> Suspender \<Rightarrow> (pollEnv \<times> tick) list \<Rightarrow> ctrlRequest list" where
  "pollProcess requestOk enc dec fl s [] = []"
| "pollProcess requestOk enc dec fl s (x # rest) =
     (case pollTurn s (polled requestOk enc dec fl x) of
        (s', None) \<Rightarrow> pollProcess requestOk enc dec fl s' rest
      | (s', Some r) \<Rightarrow> suspendSelf fl (peFiles (fst x)) # pollProcess requestOk enc dec fl s' rest)"

section \<open>Properties\<close>

lemma pollProcess_runs:
  "q \<in> set (pollProcess requestOk enc dec fl s xs) \<Longrightarrow>
   \<exists>x\<in>set xs. \<exists>r. q = suspendSelf fl (peFiles (fst x)) \<and>
     (polled requestOk enc dec fl x, r) \<in> set (pollRun s (map (polled requestOk enc dec fl) xs))"
proof (induction xs arbitrary: s)
  case (Cons x xs)
  obtain s' r where t: "pollTurn s (polled requestOk enc dec fl x) = (s', r)" by fastforce
  show ?case
  proof (cases r)
    case None
    then show ?thesis using Cons.IH [of s'] Cons.prems t by (auto simp: split_beta)
  next
    case (Some z)
    then show ?thesis using Cons.IH [of s'] Cons.prems t by (auto simp: split_beta)
  qed
qed simp

text \<open>What the poller fetches is the agent's snapshot, when the endpoint answers.\<close>

lemma fetched_snapshot:
  assumes "\<And>st. dec (enc st) = Some st" and "fetch requestOk (agentGet enc pe) dec url = Some st"
  shows "st = Snapshot (peNow pe) (peTracker pe)"
  using assms by (auto simp: fetch_def agentGet_def statusHandler_def route_def split: if_splits)

text \<open>
  C13. The sidecar suspends only its own actor, and only an agent that waits. Every call that a
  started sidecar's poller makes is a SuspendActor for the actor that the identity file names at
  that tick; and at that tick the agent's own tracker has a tool call in flight that has blocked
  it for the configured time, or a model call when those are included, or the ingress is enabled
  and has been idle for the configured time.
\<close>

theorem self_suspend_sound:
  assumes "\<And>st. dec (enc st) = Some st" and "sidecarMain newClient listens files now cl = Up sd"
    and "sdSuspender sd = Some s" and "fl = sidecarFlags cl" and "q \<in> set (pollProcess requestOk enc dec fl s xs)"
  shows "\<exists>pe k. (pe, k) \<in> set xs \<and> q = SuspendActorRequest (sAtespace fl) (Name (identity fl (peFiles pe))) \<and>
    (let st = Snapshot (peNow pe) (peTracker pe);
         bound = Milliseconds (if blockedAfter fl = 0 then 1000000000 else blockedAfter fl)
     in ToolCallsInFlight st > 0 \<and> ToolBlockedMillis st \<ge> bound \<or>
        includeModelFlag fl \<and> ModelCallsInFlight st > 0 \<and> ModelBlockedMillis st \<ge> bound \<or>
        ingressListen fl \<noteq> [] \<and> idleAfter fl > 0 \<and> ingressIdle k \<ge> idleAfter fl)"
proof -
  have s: "blocked s = (if blockedAfter fl = 0 then 1000000000 else blockedAfter fl)" "includeModel s = includeModelFlag fl"
    "idle s = idleAfter fl" "ingress s \<longleftrightarrow> ingressListen fl \<noteq> []"
    using assms(2,3) unfolding assms(4)
    by (auto simp: sidecarMain_def Let_def suspenderConfig_def NewSuspender_def split: if_splits sum.splits)
  obtain pe k r where x: "(pe, k) \<in> set xs" "q = suspendSelf fl (peFiles pe)"
    "(polled requestOk enc dec fl (pe, k), r) \<in> set (pollRun s (map (polled requestOk enc dec fl) xs))"
    using pollProcess_runs [OF assms(5)] by fastforce
  have j: "justified s (polled requestOk enc dec fl (pe, k)) r" using pollRun_justified [OF x(3)] by blast
  have f: "st = Snapshot (peNow pe) (peTracker pe)" if "fetched (polled requestOk enc dec fl (pe, k)) = Some st" for st
    using that fetched_snapshot [where dec = dec and enc = enc and pe = pe, OF assms(1)] by (simp add: polled_def)
  have "let st = Snapshot (peNow pe) (peTracker pe);
         bound = Milliseconds (if blockedAfter fl = 0 then 1000000000 else blockedAfter fl)
     in ToolCallsInFlight st > 0 \<and> ToolBlockedMillis st \<ge> bound \<or>
        includeModelFlag fl \<and> ModelCallsInFlight st > 0 \<and> ModelBlockedMillis st \<ge> bound \<or>
        ingressListen fl \<noteq> [] \<and> idleAfter fl > 0 \<and> ingressIdle k \<ge> idleAfter fl"
  proof (cases r)
    case Idle
    then show ?thesis using j by (simp add: justified_def s polled_def Let_def)
  qed (use j f in \<open>auto simp: justified_def s Let_def split: option.splits\<close>)
  moreover have "q = SuspendActorRequest (sAtespace fl) (Name (identity fl (peFiles pe)))"
    using x(2) by (simp add: suspendSelf_def verbRequest_def identity_def)
  ultimately show ?thesis using x(1) by blast
qed

text \<open>An agent that has been in a tool call for a second, polled by the sidecar of \<^const>\<open>plain_cl\<close>.\<close>

definition waiting :: pollEnv where
  "waiting = \<lparr>peAnswers = True, peNow = 2000000000, peTracker = beforeTool 1000000000 (newTracker 0), peFiles = id_file ''a''\<rparr>"

lemma waiting_suspends:
  "pollProcess (\<lambda>_. True) id Some (sidecarFlags plain_cl) (NewSuspender (suspenderConfig (sidecarFlags plain_cl) True) 0) [(waiting, demo_tick 2)] =
     [SuspendActorRequest ''ns'' ''a'']"
proof -
  have b: "blockedAfter (sidecarFlags plain_cl) = 1000000000" "includeModelFlag (sidecarFlags plain_cl) = False"
    "idleAfter (sidecarFlags plain_cl) = 0"
    by (simp_all add: sidecarFlags_def given_def envBool_def envDur_def plain_cl_def plain_env_def)
  have n: "Name (identity (sidecarFlags plain_cl) (id_file ''a'')) = ''a''"
    using TrimSpace_line [OF tight_name] by (simp add: identity_def readActorName_def id_file_def plain_flags)
  then have "suspendSelf (sidecarFlags plain_cl) (id_file ''a'') = SuspendActorRequest ''ns'' ''a''"
    by (simp add: suspendSelf_def verbRequest_def) (simp add: identity_def plain_flags)
  then show ?thesis
    by (simp add: polled_def fetch_def agentGet_def statusHandler_def route_def waiting_def suspenderConfig_def b poll_eval)
qed

theorem self_suspend_sound_witness:
  "\<exists>pe k. (pe, k) \<in> set [(waiting, demo_tick 2)] \<and>
     SuspendActorRequest ''ns'' ''a'' =
       SuspendActorRequest (sAtespace (sidecarFlags plain_cl)) (Name (identity (sidecarFlags plain_cl) (peFiles pe))) \<and>
     ToolCallsInFlight (Snapshot (peNow pe) (peTracker pe)) > 0"
proof -
  have "Name (identity (sidecarFlags plain_cl) (id_file ''a'')) \<noteq> []"
    using TrimSpace_line [OF tight_name] by (simp add: identity_def readActorName_def id_file_def plain_flags)
  then obtain sd where sd: "sidecarMain (\<lambda>_ _. Inr ()) (\<lambda>_. True) (id_file ''a'') 0 plain_cl = Up sd"
    "sdSuspender sd = Some (NewSuspender (suspenderConfig (sidecarFlags plain_cl) True) 0)"
    by (auto simp: sidecarMain_def plain_flags Dial_def Let_def)
  have q: "SuspendActorRequest ''ns'' ''a'' \<in> set (pollProcess (\<lambda>_. True) id Some (sidecarFlags plain_cl)
      (NewSuspender (suspenderConfig (sidecarFlags plain_cl) True) 0) [(waiting, demo_tick 2)])"
    by (simp add: waiting_suspends del: pollProcess.simps)
  have "\<not> includeModelFlag (sidecarFlags plain_cl)" "\<not> idleAfter (sidecarFlags plain_cl) > 0"
    by (simp_all add: sidecarFlags_def given_def envBool_def envDur_def plain_cl_def plain_env_def)
  with self_suspend_sound [where dec = Some and enc = id, OF _ sd refl q] show ?thesis unfolding Let_def by (metis id_apply)
qed

end
