(* ===== verification/Agent_Demo.thy ===== *)
theory Agent_Demo
  imports Ingress_Broker Lifecycle
begin

text \<open>
  The demo around the ingress: the agent's HTTP server
  (\<^verbatim>\<open>demos/adk-calc/internal/agentsrv/server.go\<close>), the calculator tool
  (\<^verbatim>\<open>mcp-server/main.go\<close>) and the interactive client (\<^verbatim>\<open>client/main.go\<close>). The agent kit that
  runs the model, JSON and floating-point arithmetic are parameters.
\<close>

section \<open>Requests, responses and their JSON\<close>

record runReq =
  rqSession :: string
  rqInput :: string

record runResp =
  rpResult :: string
  rpError :: string

record json =
  encReq :: "runReq \<Rightarrow> bytes"
  decReq :: "bytes \<Rightarrow> string + runReq"
  encResp :: "runResp \<Rightarrow> bytes"
  decResp :: "bytes \<Rightarrow> string + runResp"

text \<open>
  What the parts rely on: a value whose strings are in \<open>V\<close> (JSON carries valid UTF-8 unchanged) is
  decoded from its encoding.
\<close>

definition json_ok :: "json \<Rightarrow> string set \<Rightarrow> bool" where
  "json_ok J V \<longleftrightarrow>
     (\<forall>q. rqSession q \<in> V \<and> rqInput q \<in> V \<longrightarrow> decReq J (encReq J q) = Inr q) \<and>
     (\<forall>p. rpResult p \<in> V \<and> rpError p \<in> V \<longrightarrow> decResp J (encResp J p) = Inr p)"

section \<open>The agent's server\<close>

text \<open>
  What the runner yields: an error, a nil event, or an event that is final or not, with the texts
  of its parts when it has content.
\<close>

datatype runItem = ItemErr string | ItemNil | ItemEvent bool "string list option"

definition lastText :: "string \<Rightarrow> string list \<Rightarrow> string" where
  "lastText fin parts = foldl (\<lambda>f p. if p \<noteq> [] then p else f) fin parts"

fun collect :: "string \<Rightarrow> runItem list \<Rightarrow> string \<times> string" where
  "collect fin [] = (fin, [])"
| "collect fin (ItemErr err # items) = (fin, err)"
| "collect fin (ItemNil # items) = collect fin items"
| "collect fin (ItemEvent isFinal content # items) =
     (case content of
        None \<Rightarrow> collect fin items
      | Some parts \<Rightarrow> if isFinal then collect (lastText fin parts) items else collect fin items)"

definition writeJSON :: "json \<Rightarrow> int \<Rightarrow> runResp \<Rightarrow> HttpResponse" where
  "writeJSON J code body = \<lparr>StatusCode = code, contentType = ''application/json'', respBody = encResp J body\<rparr>"

definition HandleRun :: "json \<Rightarrow> (string \<Rightarrow> string \<Rightarrow> runItem list) \<Rightarrow> bytes \<Rightarrow> HttpResponse" where
  "HandleRun J runner body =
     (case decReq J body of
        Inl err \<Rightarrow> writeJSON J 400 \<lparr>rpResult = [], rpError = ''invalid JSON: '' @ err\<rparr>
      | Inr q \<Rightarrow>
          if rqSession q = [] \<or> rqInput q = [] then writeJSON J 400 \<lparr>rpResult = [], rpError = ''sessionId and input are required''\<rparr>
          else case collect [] (runner (rqSession q) (rqInput q)) of (fin, errMsg) \<Rightarrow>
            if errMsg \<noteq> [] then writeJSON J 500 \<lparr>rpResult = [], rpError = errMsg\<rparr>
            else writeJSON J 200 \<lparr>rpResult = fin, rpError = []\<rparr>)"

text \<open>
  The paths of the agent's server, which is ready before it listens, and of the tool's: \<open>mcp\<close> is the
  handler of the MCP library.
\<close>

definition okPage :: HttpResponse where
  "okPage = \<lparr>StatusCode = 200, contentType = ''text/plain; charset=utf-8'', respBody = string_bytes (''ok'' @ [CHR 0x0A])\<rparr>"

definition plainError :: "int \<Rightarrow> string \<Rightarrow> HttpResponse" where
  "plainError code msg =
     \<lparr>StatusCode = code, contentType = ''text/plain; charset=utf-8'', respBody = string_bytes (msg @ [CHR 0x0A])\<rparr>"

definition agentServe :: "json \<Rightarrow> (string \<Rightarrow> string \<Rightarrow> runItem list) \<Rightarrow> bool \<Rightarrow> string \<Rightarrow> bytes \<Rightarrow> HttpResponse" where
  "agentServe J runner ready path body =
     (case route [''/run'', ''/readyz''] path of
        Route p \<Rightarrow>
          if p = ''/run'' then HandleRun J runner body
          else if \<not> ready then plainError 503 ''not ready'' else okPage
      | _ \<Rightarrow> plainError 404 ''404 page not found'')"

definition toolServe :: "(bytes \<Rightarrow> HttpResponse) \<Rightarrow> string \<Rightarrow> bytes \<Rightarrow> HttpResponse" where
  "toolServe mcp path body =
     (case route [''/mcp'', ''/mcp/'', ''/readyz''] path of
        Route p \<Rightarrow> if p = ''/readyz'' then okPage else mcp body
      | _ \<Rightarrow> plainError 404 ''404 page not found'')"

section \<open>The interactive client\<close>

text \<open>What the client makes of the answer to its POST: an error of the call, or a status and a body.\<close>

definition callResult :: "json \<Rightarrow> string + (int \<times> bytes) \<Rightarrow> string + runResp" where
  "callResult J resp =
     (case resp of
        Inl err \<Rightarrow> Inl err
      | Inr (code, raw) \<Rightarrow>
          if code \<noteq> 200 then Inl (''status '' @ Itoa code @ '': '' @ bytes_string raw) else decResp J raw)"

definition callAgent ::
  "json \<Rightarrow> (string \<Rightarrow> string option) \<Rightarrow> (string \<Rightarrow> bytes \<Rightarrow> string + (int \<times> bytes)) \<Rightarrow> string \<Rightarrow> string \<Rightarrow> string \<Rightarrow> string + runResp" where
  "callAgent J newRequestErr post ingressAddr sessionID inp =
     (let url = ''http://'' @ ingressAddr @ ''/run''; body = encReq J \<lparr>rqSession = sessionID, rqInput = inp\<rparr>
      in case newRequestErr url of Some err \<Rightarrow> Inl err | None \<Rightarrow> callResult J (post url body))"

text \<open>One turn of the loop per event of its \<^verbatim>\<open>select\<close>; \<open>call n\<close> is the outcome of the \<open>n\<close>-th call.\<close>

datatype clientInput = CtxDone | ScanError | Line string | LinesClosed

datatype screen = PrintError string | PrintAgentError string | PrintResult string

definition show_result :: "string + runResp \<Rightarrow> screen" where
  "show_result r =
     (case r of
        Inl err \<Rightarrow> PrintError err
      | Inr p \<Rightarrow> if rpError p \<noteq> [] then PrintAgentError (rpError p) else PrintResult (rpResult p))"

fun clientLoop :: "(nat \<Rightarrow> string \<Rightarrow> string + runResp) \<Rightarrow> nat \<Rightarrow> clientInput list \<Rightarrow> screen list" where
  "clientLoop call n [] = []"
| "clientLoop call n (Line l # evs) =
     (let line = TrimSpace l
      in if line = [] then clientLoop call n evs
         else if line = ''exit'' then []
         else show_result (call n line) # clientLoop call (n + 1) evs)"
| "clientLoop call n (_ # evs) = []"

text \<open>
  The calls of the lifecycle API over the client's life: create, and once the loop has returned
  suspend and perhaps delete. A failed create ends the program at once.
\<close>

definition cleanup :: "Ref \<Rightarrow> bool \<Rightarrow> ctrlRequest list" where
  "cleanup actor deleteOnExit =
     SuspendActorRequest (Ref.Atespace actor) (Name actor) #
     (if deleteOnExit then [DeleteActorRequest (Ref.Atespace actor) (Name actor)] else [])"

definition clientMain ::
  "ctrl \<Rightarrow> Ref \<Rightarrow> string \<Rightarrow> string \<Rightarrow> bool \<Rightarrow> (nat \<Rightarrow> string \<Rightarrow> string + runResp) \<Rightarrow> clientInput list \<Rightarrow> ctrlRequest list \<times> screen list" where
  "clientMain ctrl actor templateNS templateName deleteOnExit call evs =
     (let create = CreateActorRequest (Ref.Atespace actor) (Name actor) templateNS templateName
      in case CreateActor ctrl actor templateNS templateName of
           Some err \<Rightarrow> ([create], [])
         | None \<Rightarrow> (create # cleanup actor deleteOnExit, clientLoop call 0 evs))"

section \<open>The calculator\<close>

record 'v arith =
  fadd :: "'v \<Rightarrow> 'v \<Rightarrow> 'v"
  fsub :: "'v \<Rightarrow> 'v \<Rightarrow> 'v"
  fmul :: "'v \<Rightarrow> 'v \<Rightarrow> 'v"
  fdiv :: "'v \<Rightarrow> 'v \<Rightarrow> 'v"
  fzero :: 'v
  isZero :: "'v \<Rightarrow> bool"
  quoted :: "string \<Rightarrow> string"

record 'v calcArgs =
  argA :: 'v
  argB :: 'v
  argOp :: string

record 'v calcResult =
  calcValue :: 'v
  calcError :: string

definition calculate :: "'v arith \<Rightarrow> 'v calcArgs \<Rightarrow> 'v calcResult" where
  "calculate F a =
     (if argOp a = ''+'' then \<lparr>calcValue = fadd F (argA a) (argB a), calcError = []\<rparr>
      else if argOp a = ''-'' then \<lparr>calcValue = fsub F (argA a) (argB a), calcError = []\<rparr>
      else if argOp a = ''*'' then \<lparr>calcValue = fmul F (argA a) (argB a), calcError = []\<rparr>
      else if argOp a = ''/'' then
        (if isZero F (argB a) then \<lparr>calcValue = fzero F, calcError = ''division by zero''\<rparr>
         else \<lparr>calcValue = fdiv F (argA a) (argB a), calcError = []\<rparr>)
      else \<lparr>calcValue = fzero F, calcError = ''unsupported operator '' @ quoted F (argOp a)\<rparr>)"

text \<open>The members of the JSON object that the result is sent as: both are \<^verbatim>\<open>omitempty\<close>.\<close>

datatype 'v member = ValueMember 'v | ErrorMember string

definition calcMembers :: "'v arith \<Rightarrow> 'v calcResult \<Rightarrow> 'v member list" where
  "calcMembers F r =
     (if isZero F (calcValue r) then [] else [ValueMember (calcValue r)]) @
     (if calcError r = [] then [] else [ErrorMember (calcError r)])"

section \<open>Properties\<close>

text \<open>
  The texts that count: the non-empty parts of the final events before the first error; and the
  error, empty when there is none.
\<close>

definition is_err :: "runItem \<Rightarrow> bool" where
  "is_err it = (case it of ItemErr _ \<Rightarrow> True | _ \<Rightarrow> False)"

definition finalTexts :: "runItem list \<Rightarrow> string list" where
  "finalTexts items = filter (\<lambda>t. t \<noteq> [])
     (concat (map (\<lambda>it. case it of ItemEvent True (Some parts) \<Rightarrow> parts | _ \<Rightarrow> []) (takeWhile (\<lambda>it. \<not> is_err it) items)))"

definition runError :: "runItem list \<Rightarrow> string" where
  "runError items = (case dropWhile (\<lambda>it. \<not> is_err it) items of ItemErr err # _ \<Rightarrow> err | _ \<Rightarrow> [])"

definition last_or :: "string \<Rightarrow> string list \<Rightarrow> string" where
  "last_or d ts = (if ts = [] then d else last ts)"

lemma lastText_append: "lastText fin (ps @ qs) = lastText (lastText fin ps) qs"
  by (simp add: lastText_def)

lemma lastText_last: "lastText fin ps = last_or fin (filter (\<lambda>t. t \<noteq> []) ps)"
  by (induction ps rule: rev_induct) (auto simp: lastText_def last_or_def)

lemma last_or_append: "last_or (last_or d ps) qs = last_or d (ps @ qs)"
  by (simp add: last_or_def)

lemma collect_spec: "collect fin items = (last_or fin (finalTexts items), runError items)"
proof (induction fin items rule: collect.induct)
  case (4 fin isFinal content items)
  then show ?case
    by (cases content; cases isFinal) (simp_all add: finalTexts_def runError_def is_err_def lastText_last last_or_append)
qed (simp_all add: finalTexts_def runError_def is_err_def last_or_def)

lemma HandleRun_ok:
  assumes "json_ok J V" and "rqSession q \<in> V" "rqInput q \<in> V" "rqSession q \<noteq> []" "rqInput q \<noteq> []"
    and "items = runner (rqSession q) (rqInput q)"
  shows "HandleRun J runner (encReq J q) =
    (if runError items \<noteq> [] then writeJSON J 500 \<lparr>rpResult = [], rpError = runError items\<rparr>
     else writeJSON J 200 \<lparr>rpResult = last_or [] (finalTexts items), rpError = []\<rparr>)"
  using assms by (simp add: HandleRun_def json_ok_def collect_spec)

lemma agentServe_run: "agentServe J runner ready ''/run'' body = HandleRun J runner body"
  by (simp add: agentServe_def route_def)

text \<open>The broker's answer when it takes the reply that the sidecar posts for the agent's response.\<close>

lemma answered_with:
  assumes "PostReply url r st ct body \<in> set (fst (process i e req))" and "agentDo e = Inr resp"
    and "200 \<le> StatusCode resp" "StatusCode resp \<le> 999" and "pendingCh b r = Some ch" "chans b ch = None"
  shows "\<exists>b'. runWait WakeReply ch r (HandleReply r (replyOf st ct body) b) =
    Some (b', HttpReply (StatusCode resp) (contentType resp) (respBody resp))"
proof -
  have a: "agentReply e = resp" using assms(2) by (simp add: agentReply_def)
  note p = process_posts [OF assms(1)]
  have "fst (Atoi st) = StatusCode resp" using p assms(3,4) by (simp add: a Atoi_Itoa)
  then show ?thesis
    using p assms(3-6) by (simp add: a HandleReply_def runWait_def replyOf_def Let_def writeReply_def unregisterReq_def)
qed

text \<open>
  C12. A question gets its answer. The client posts a question for a session; the ingress broker
  parks it and its body reaches the sidecar's ingress, which forwards it to the agent's server and
  posts the agent's response back. When the broker takes that post while the question is pending, what
  the client's loop prints is the last text of the agent's final events; if the agent's run ended
  in an error, it is the server's status 500 with the error in its body.
\<close>

theorem question_answered:
  assumes "json_ok J V" and "{[], sid, line} \<subseteq> V" "set (finalTexts (runner sid line)) \<subseteq> V" and "sid \<noteq> []" "line \<noteq> []"
    and "PostReply url r st ct body \<in> set (fst (process i e req))"
    and "reqBody req = encReq J \<lparr>rqSession = sid, rqInput = line\<rparr>" and "agentDo e = Inr (agentServe J runner rdy ''/run'' (reqBody req))"
    and "pendingCh b r = Some ch" "chans b ch = None"
  shows "\<exists>b' code ct' bs. runWait WakeReply ch r (HandleReply r (replyOf st ct body) b) = Some (b', HttpReply code ct' bs) \<and>
    show_result (callAgent J (\<lambda>_. None) (\<lambda>_ _. Inr (code, bs)) addr sid line) =
      (if runError (runner sid line) = [] then PrintResult (last_or [] (finalTexts (runner sid line)))
       else PrintError (''status 500: '' @ bytes_string (encResp J \<lparr>rpResult = [], rpError = runError (runner sid line)\<rparr>)))"
proof -
  let ?items = "runner sid line"
  let ?fin = "last_or [] (finalTexts ?items)" and ?err = "runError ?items"
  let ?resp = "HandleRun J runner (reqBody req)"
  have resp: "?resp = (if ?err \<noteq> [] then writeJSON J 500 \<lparr>rpResult = [], rpError = ?err\<rparr>
      else writeJSON J 200 \<lparr>rpResult = ?fin, rpError = []\<rparr>)"
    unfolding assms(7) by (rule HandleRun_ok [OF assms(1)]) (use assms(2-5) in simp_all)
  then have "200 \<le> StatusCode ?resp" "StatusCode ?resp \<le> 999" by (auto simp: writeJSON_def)
  from answered_with [OF assms(6,8) [unfolded agentServe_run] this assms(9,10)] obtain b' where
    w: "runWait WakeReply ch r (HandleReply r (replyOf st ct body) b) =
      Some (b', HttpReply (StatusCode ?resp) (contentType ?resp) (respBody ?resp))" by blast
  have "?fin \<in> V" using assms(2,3) last_in_set [of "finalTexts ?items"] by (auto simp: last_or_def)
  have i: "Itoa 500 = ''500''" by code_simp
  have "decResp J (encResp J \<lparr>rpResult = ?fin, rpError = []\<rparr>) = Inr \<lparr>rpResult = ?fin, rpError = []\<rparr>" if "?err = []"
    using assms(1,2) \<open>?fin \<in> V\<close> by (simp add: json_ok_def)
  then have "show_result (callAgent J (\<lambda>_. None) (\<lambda>_ _. Inr (StatusCode ?resp, respBody ?resp)) addr sid line) =
      (if ?err = [] then PrintResult ?fin
       else PrintError (''status 500: '' @ bytes_string (encResp J \<lparr>rpResult = [], rpError = ?err\<rparr>)))"
    by (auto simp: resp writeJSON_def callAgent_def callResult_def show_result_def i)
  then show ?thesis using w by blast
qed


text \<open>A codec that meets the hypothesis on every string, and an agent that answers with a text.\<close>

fun tagged :: "string \<Rightarrow> bytes" where
  "tagged [] = [0]"
| "tagged (c # cs) = 1 # byte_of_char c # tagged cs"

fun untagged :: "bytes \<Rightarrow> string \<times> bytes" where
  "untagged (x # y # bs) = (if x = 0 then ([], y # bs) else case untagged bs of (s, r) \<Rightarrow> (char_of_byte y # s, r))"
| "untagged bs = ([], tl bs)"

lemma untagged_tagged: "untagged (tagged s @ bs) = (s, bs)"
  by (induction s) (auto, cases bs, simp_all)

definition toy_json :: json where
  "toy_json =
     \<lparr>encReq = (\<lambda>q. tagged (rqSession q) @ string_bytes (rqInput q)),
      decReq = (\<lambda>bs. case untagged bs of (s, r) \<Rightarrow> Inr \<lparr>rqSession = s, rqInput = bytes_string r\<rparr>),
      encResp = (\<lambda>p. tagged (rpResult p) @ string_bytes (rpError p)),
      decResp = (\<lambda>bs. case untagged bs of (s, r) \<Rightarrow> Inr \<lparr>rpResult = s, rpError = bytes_string r\<rparr>)\<rparr>"

lemma toy_json_ok: "json_ok toy_json UNIV"
  by (simp add: json_ok_def toy_json_def untagged_tagged)

definition toy_runner :: "string \<Rightarrow> string \<Rightarrow> runItem list" where
  "toy_runner sid line = [ItemEvent False (Some [''thinking'']), ItemNil, ItemEvent True (Some [''7'', []])]"

definition toy_request :: HttpRequest where
  "toy_request = demo_request\<lparr>reqBody := encReq toy_json \<lparr>rqSession = ''s'', rqInput = ''2+5''\<rparr>\<rparr>"

definition toy_env :: ienv where
  "toy_env = demo_env\<lparr>agentDo := Inr (agentServe toy_json toy_runner True ''/run'' (reqBody toy_request))\<rparr>"

lemma toy_posts:
  "PostReply ''http://b:9090/reply'' ''r1'' (Itoa (StatusCode (agentReply toy_env))) (contentType (agentReply toy_env))
     (respBody (agentReply toy_env)) \<in> set (fst (process (NewIngress ''a:8080'' 0) toy_env toy_request))"
  by (simp add: process_def deliver_def Let_def toy_env_def demo_env_def toy_request_def demo_request_def NewIngress_def
      case_prod_unfold eval_nat_numeral)

theorem question_answered_witness:
  "\<exists>b' code ct bs. runWait WakeReply 0 ''r1'' (HandleReply ''r1'' (replyOf (Itoa (StatusCode (agentReply toy_env)))
       (contentType (agentReply toy_env)) (respBody (agentReply toy_env))) (bk (demo_parked True))) = Some (b', HttpReply code ct bs) \<and>
     show_result (callAgent toy_json (\<lambda>_. None) (\<lambda>_ _. Inr (code, bs)) ''b:8000'' ''s'' ''2+5'') = PrintResult ''7''"
proof -
  have "finalTexts (toy_runner ''s'' ''2+5'') = [''7'']" "runError (toy_runner ''s'' ''2+5'') = []"
    by (simp_all add: toy_runner_def finalTexts_def runError_def is_err_def)
  then show ?thesis
    using question_answered [OF toy_json_ok _ _ _ _ toy_posts, of "''s''" "''2+5''" toy_runner True "bk (demo_parked True)" 0 "''b:8000''"]
    by (simp add: toy_env_def toy_request_def demo_parked_def last_or_def)
qed

section \<open>Departures from the expected behaviour\<close>

text \<open>
  The agent's server sends an error only under a status that is not 200, and the client reads the
  body only under 200: its branch for an agent's error is never taken.
\<close>

lemma agent_error_unseen:
  assumes "json_ok J V" and "set (finalTexts (runner (rqSession q) (rqInput q))) \<subseteq> V" and "[] \<in> V" and "decReq J bs = Inr q"
    and "resp = HandleRun J runner bs"
  shows "show_result (callResult J (Inr (StatusCode resp, respBody resp))) \<noteq> PrintAgentError msg"
proof -
  have "last_or [] (finalTexts (runner (rqSession q) (rqInput q))) \<in> V"
    using assms(2,3) last_in_set by (force simp: last_or_def)
  then have "decResp J (encResp J \<lparr>rpResult = last_or [] (finalTexts (runner (rqSession q) (rqInput q))), rpError = []\<rparr>) =
      Inr \<lparr>rpResult = last_or [] (finalTexts (runner (rqSession q) (rqInput q))), rpError = []\<rparr>"
    using assms(1,3) by (simp add: json_ok_def)
  then show ?thesis
    using assms(4,5) by (auto simp: HandleRun_def writeJSON_def callResult_def show_result_def collect_spec)
qed

text \<open>
  A result of zero is omitted from the tool's JSON, so that the model is told nothing at all.
\<close>

lemma zero_result_omitted:
  "isZero F (fsub F a b) \<Longrightarrow> calcMembers F (calculate F \<lparr>argA = a, argB = b, argOp = ''-''\<rparr>) = []"
  by (simp add: calculate_def calcMembers_def)

text \<open>Every other outcome is exactly one member: the value, or the reason there is none.\<close>

lemma nonzero_result_sent:
  assumes "isZero F (fzero F)" and "r = calculate F a" and "calcError r \<noteq> [] \<or> \<not> isZero F (calcValue r)"
  shows "calcMembers F r = [if calcError r = [] then ValueMember (calcValue r) else ErrorMember (calcError r)]"
  using assms by (auto simp: calculate_def calcMembers_def split: if_splits)

end
