(* ===== verification/Demo_Programs.thy ===== *)
theory Demo_Programs
  imports Services Agent_Demo
begin

text \<open>
  The programs of the calculator demo as they start and run: the construction of the agent
  (\<^verbatim>\<open>demos/adk-calc/internal/agent/agent.go\<close>), the agent's server
  (\<^verbatim>\<open>agent-server/main.go\<close>, \<^verbatim>\<open>agentsrv.New\<close>), the ports of the ingress broker and the
  interactive client (\<^verbatim>\<open>client/main.go\<close>), and how the egress programs end. The constructors of
  the agent kit, the model client and the MCP library are parameters.
\<close>

section \<open>The agent\<close>

text \<open>What \<^verbatim>\<open>llmagent.New\<close> gets: the model and the toolset made before, and three texts.\<close>

record ('m, 't) AgentConfig =
  agName :: string
  agModel :: 'm
  agDescription :: string
  agInstruction :: string
  agToolset :: 't

record ('m, 't, 'a) agentKit =
  newModel :: "string \<Rightarrow> string \<Rightarrow> string + 'm"
  newToolset :: "string \<Rightarrow> bool \<Rightarrow> string + 't"
  newAgent :: "('m, 't) AgentConfig \<Rightarrow> string + 'a"

definition instruction :: string where
  "instruction =
     ''You are a helpful assistant.'' @ [CHR 0x0A] @
     ''- If the user's message is a simple two-operand arithmetic expression '' @
     ''(e.g. 'calculate 2+5=' or '10 / 2'), call the `calculator` tool with '' @
     ''operands a, b and operator op (one of +, -, *, /), then reply with ONLY '' @
     ''the numeric result (or the error string the tool returned).'' @ [CHR 0x0A] @
     ''- For any other question, answer directly and concisely from your own '' @
     ''knowledge; do NOT call the calculator tool. If you lack real-time data '' @
     ''(e.g. current weather), say so briefly and give your best general answer.''"

text \<open>The second argument of \<open>newToolset\<close> is \<^verbatim>\<open>DisableStandaloneSSE\<close>.\<close>

definition Build :: "('m, 't, 'a) agentKit \<Rightarrow> (string \<Rightarrow> string) \<Rightarrow> string + 'a" where
  "Build kit env =
     (if env ''GOOGLE_API_KEY'' = [] then Inl ''GOOGLE_API_KEY env var is required''
      else if env ''CALC_MCP_URL'' = [] then Inl ''CALC_MCP_URL env var is required''
      else case newModel kit ''gemini-flash-latest'' (env ''GOOGLE_API_KEY'') of
        Inl err \<Rightarrow> Inl (''gemini.NewModel: '' @ err)
      | Inr m \<Rightarrow>
          (case newToolset kit (env ''CALC_MCP_URL'') True of
             Inl err \<Rightarrow> Inl (''mcptoolset.New: '' @ err)
           | Inr t \<Rightarrow>
               newAgent kit
                 \<lparr>agName = ''calc_agent'', agModel = m,
                  agDescription = ''Answers general questions and evaluates arithmetic via a calculator tool.'',
                  agInstruction = instruction, agToolset = t\<rparr>))"

section \<open>The agent's server\<close>

text \<open>
  \<^verbatim>\<open>agentsrv.New\<close>: the plugin that feeds the tracker, and the runner with that plugin. A tracker is
  made with the time as its last activity.
\<close>

record ('r) Server =
  srvRunner :: 'r
  srvTracker :: Tracker

definition NewServer ::
  "(string \<Rightarrow> string + 'p) \<Rightarrow> (string \<Rightarrow> 'a \<Rightarrow> bool \<Rightarrow> 'p list \<Rightarrow> string + 'r) \<Rightarrow> int \<Rightarrow> 'a \<Rightarrow> string + 'r Server" where
  "NewServer newPlugin newRunner now a =
     (case newPlugin ''activityz'' of
        Inl err \<Rightarrow> Inl (''activityz.New: '' @ err)
      | Inr p \<Rightarrow>
          (case newRunner ''adk-calc'' a True [p] of
             Inl err \<Rightarrow> Inl (''runner.New: '' @ err)
           | Inr r \<Rightarrow> Inr \<lparr>srvRunner = r, srvTracker = newTracker now\<rparr>))"

definition agentMain ::
  "('m, 't, 'a) agentKit \<Rightarrow> (string \<Rightarrow> string + 'p) \<Rightarrow> (string \<Rightarrow> 'a \<Rightarrow> bool \<Rightarrow> 'p list \<Rightarrow> string + 'r) \<Rightarrow> int \<Rightarrow>
   (string \<Rightarrow> string) \<Rightarrow> 'r Server boot" where
  "agentMain kit newPlugin newRunner now env =
     (case Build kit env of
        Inl err \<Rightarrow> Exit 1
      | Inr a \<Rightarrow> (case NewServer newPlugin newRunner now a of Inl err \<Rightarrow> Exit 1 | Inr srv \<Rightarrow> Up srv))"

section \<open>The ports of the ingress broker\<close>

datatype endpoint = RunEndpoint | HealthEndpoint | ReplyEndpoint

definition clientMux :: "string \<Rightarrow> endpoint option" where
  "clientMux path =
     (case route [''/run'', ''/healthz''] path of
        Route p \<Rightarrow> Some (if p = ''/run'' then RunEndpoint else HealthEndpoint)
      | _ \<Rightarrow> None)"

definition replyMux :: "string \<Rightarrow> endpoint option" where
  "replyMux path = (case route [''/reply''] path of Route p \<Rightarrow> Some ReplyEndpoint | _ \<Rightarrow> None)"

section \<open>The interactive client as a program\<close>

record DemoFlags =
  dfAteapi :: string
  dfInsecure :: bool
  dfIngress :: string
  dfAtespace :: string
  dfTemplateNS :: string
  dfTemplateName :: string
  dfDelete :: bool

definition demoFlags :: "cmdline \<Rightarrow> DemoFlags" where
  "demoFlags cl =
     \<lparr>dfAteapi = given (flagString cl ''ateapi'') ''localhost:8080'',
      dfInsecure = given (flagBool cl ''ateapi-insecure'') False,
      dfIngress = given (flagString cl ''ingress'') ''localhost:8000'',
      dfAtespace = given (flagString cl ''atespace'') ''demo'',
      dfTemplateNS = given (flagString cl ''template-namespace'') ''ate-demo-adk-calc'',
      dfTemplateName = given (flagString cl ''template-name'') ''adk-calc'',
      dfDelete = given (flagBool cl ''delete-on-exit'') False\<rparr>"

text \<open>
  What the loop sees of the standard input, which ends with an error or not; an interrupt cancels
  the context after some of these events.
\<close>

definition stdinEvents :: "string list \<Rightarrow> bool \<Rightarrow> clientInput list" where
  "stdinEvents lines failed = map Line lines @ (if failed then [ScanError] else []) @ [LinesClosed]"

definition interrupted :: "nat option \<Rightarrow> clientInput list \<Rightarrow> clientInput list" where
  "interrupted k evs = (case k of None \<Rightarrow> evs | Some n \<Rightarrow> take n evs @ [CtxDone])"

text \<open>\<open>answer n url body\<close> is how the \<open>n\<close>-th POST ends; \<open>uuid\<close> is the fresh session id.\<close>

definition demoMain ::
  "(string \<Rightarrow> transportCreds \<Rightarrow> string + 'conn) \<Rightarrow> ctrl \<Rightarrow> json \<Rightarrow> (string \<Rightarrow> string option) \<Rightarrow>
   (nat \<Rightarrow> string \<Rightarrow> bytes \<Rightarrow> string + (int \<times> bytes)) \<Rightarrow> string \<Rightarrow> clientInput list \<Rightarrow> cmdline \<Rightarrow>
   (ctrlRequest list \<times> screen list) boot" where
  "demoMain newClient ctrl J newRequestErr answer uuid evs cl =
     (let fl = demoFlags cl in
      case Dial newClient \<lparr>Addr = dfAteapi fl, Insecure = dfInsecure fl\<rparr> of
        Inl err \<Rightarrow> Exit 1
      | Inr lc \<Rightarrow>
          Up (clientMain ctrl \<lparr>Ref.Atespace = dfAtespace fl, Name = uuid\<rparr> (dfTemplateNS fl) (dfTemplateName fl) (dfDelete fl)
            (\<lambda>n line. callAgent J newRequestErr (answer n) (dfIngress fl) uuid line) evs))"

section \<open>How the egress programs end\<close>

text \<open>The exit status once the accept loop has returned, \<^const>\<open>None\<close> while it runs.\<close>

definition brokerExit :: "((string + nat) \<times> bool) list \<Rightarrow> int option" where
  "brokerExit arrivals = map_option (\<lambda>r. if r \<noteq> None then 1 else 0) (snd (Broker_Serve arrivals))"

definition sidecarExit :: "((string + nat) \<times> bool) list \<Rightarrow> int option" where
  "sidecarExit arrivals = map_option (\<lambda>r. if r \<noteq> None then 1 else 0) (snd (Proxy_Serve arrivals))"

section \<open>Properties\<close>

text \<open>
  The questions the client asks: the lines of its input up to the first event that is not a line,
  trimmed, without the empty ones, up to the first \<^verbatim>\<open>exit\<close>.
\<close>

definition asked :: "clientInput list \<Rightarrow> string list" where
  "asked evs =
     takeWhile (\<lambda>l. l \<noteq> ''exit'')
       (filter (\<lambda>l. l \<noteq> []) (map (\<lambda>ev. case ev of Line l \<Rightarrow> TrimSpace l | _ \<Rightarrow> [])
         (takeWhile (\<lambda>ev. case ev of Line _ \<Rightarrow> True | _ \<Rightarrow> False) evs)))"

lemma clientLoop_asks:
  "clientLoop call n evs = map (\<lambda>(k, l). show_result (call k l)) (enumerate n (asked evs))"
  by (induction call n evs rule: clientLoop.induct) (simp_all add: asked_def Let_def)

lemma asked_stdin: "asked (stdinEvents lines failed) = takeWhile (\<lambda>l. l \<noteq> ''exit'') (filter (\<lambda>l. l \<noteq> []) (map TrimSpace lines))"
proof -
  have "takeWhile (\<lambda>ev. case ev of Line _ \<Rightarrow> True | _ \<Rightarrow> False) (stdinEvents lines failed) = map Line lines"
    by (induction lines) (simp_all add: stdinEvents_def)
  then show ?thesis by (simp add: asked_def o_def)
qed

lemma asked_interrupted: "prefix (asked (interrupted k evs)) (asked evs)"
proof (cases k)
  case (Some n)
  let ?line = "\<lambda>ev. case ev of Line _ \<Rightarrow> True | _ \<Rightarrow> False" and ?f = "\<lambda>ev. case ev of Line l \<Rightarrow> TrimSpace l | _ \<Rightarrow> []"
  have "prefix (takeWhile ?line (take n evs @ [CtxDone])) (takeWhile ?line evs)"
    by (induction evs arbitrary: n) (auto simp: take_Cons' split: clientInput.splits)
  then obtain zs where "takeWhile ?line evs = takeWhile ?line (take n evs @ [CtxDone]) @ zs" by (auto simp: prefix_def)
  moreover have "prefix (takeWhile P xs) (takeWhile P (xs @ ys))" for P :: "string \<Rightarrow> bool" and xs ys
    by (induction xs) auto
  ultimately show ?thesis using Some by (simp add: asked_def interrupted_def)
qed (simp add: interrupted_def)

text \<open>
  C38. The demo client asks what it is told and cleans up after itself. Once connected to the
  platform, it makes the calls for one actor only, whose name is its session id: a create; if that
  succeeds a suspend after the loop, whichever way it ended; and a delete after that just when it
  was asked for. Without an interrupt it asks each non-empty line up to \<^verbatim>\<open>exit\<close> exactly once and in
  order, and prints one answer each; an interrupt only cuts this off.
\<close>

theorem demo_client_lifecycle:
  assumes "demoMain newClient ctrl J reqErr answer uuid (interrupted k (stdinEvents lines failed)) cl = Up (qs, scr)"
    and "fl = demoFlags cl" and "create = CreateActorRequest (dfAtespace fl) uuid (dfTemplateNS fl) (dfTemplateName fl)"
    and "qsts = takeWhile (\<lambda>l. l \<noteq> ''exit'') (filter (\<lambda>l. l \<noteq> []) (map TrimSpace lines))"
    and "ans = map (\<lambda>(n, l). show_result (callAgent J reqErr (answer n) (dfIngress fl) uuid l)) (enumerate 0 qsts)"
  shows "(ctrl create \<noteq> None \<longrightarrow> qs = [create] \<and> scr = []) \<and>
    (ctrl create = None \<longrightarrow>
       qs = [create, SuspendActorRequest (dfAtespace fl) uuid] @ (if dfDelete fl then [DeleteActorRequest (dfAtespace fl) uuid] else []) \<and>
       prefix scr ans \<and> (k = None \<longrightarrow> scr = ans))"
proof -
  let ?evs = "interrupted k (stdinEvents lines failed)"
  have run: "(qs, scr) = clientMain ctrl \<lparr>Ref.Atespace = dfAtespace fl, Name = uuid\<rparr> (dfTemplateNS fl) (dfTemplateName fl) (dfDelete fl)
      (\<lambda>n line. callAgent J reqErr (answer n) (dfIngress fl) uuid line) ?evs"
    using assms(1,2) by (auto simp: demoMain_def Let_def split: sum.splits)
  obtain zs where "qsts = asked ?evs @ zs" using asked_interrupted [of k "stdinEvents lines failed"] assms(4) by (auto simp: asked_stdin prefix_def)
  then have p: "prefix (map (\<lambda>(n, l). show_result (callAgent J reqErr (answer n) (dfIngress fl) uuid l)) (enumerate 0 (asked ?evs))) ans"
    using assms(5) by (simp add: enumerate_append_eq)
  have e: "k = None \<Longrightarrow> asked ?evs = qsts" using assms(4) by (simp add: interrupted_def asked_stdin)
  show ?thesis
    using run p e assms(3,5) by (auto simp: clientMain_def CreateActor_def cleanup_def Let_def clientLoop_asks split: option.splits)
qed

definition bare_cl :: cmdline where
  "bare_cl = plain_cl\<lparr>flagString := \<lambda>_. None, flagBool := \<lambda>_. None\<rparr>"

theorem demo_client_lifecycle_witness:
  "\<exists>qs scr. demoMain (\<lambda>_ _. Inr ()) (\<lambda>_. None) toy_json (\<lambda>_. None) (\<lambda>_ _ _. Inl ''down'') ''u''
     (interrupted None (stdinEvents [''  2+5'', [], ''exit'', ''3''] False)) bare_cl = Up (qs, scr) \<and>
   qs = [CreateActorRequest ''demo'' ''u'' ''ate-demo-adk-calc'' ''adk-calc'', SuspendActorRequest ''demo'' ''u''] \<and>
   scr = [PrintError ''down'']"
proof -
  let ?m = "demoMain (\<lambda>_ _. Inr ()) (\<lambda>_. None) toy_json (\<lambda>_. None) (\<lambda>_ _ _. Inl ''down'') ''u''
     (interrupted None (stdinEvents [''  2+5'', [], ''exit'', ''3''] False)) bare_cl"
  have fl: "demoFlags bare_cl = \<lparr>dfAteapi = ''localhost:8080'', dfInsecure = False, dfIngress = ''localhost:8000'', dfAtespace = ''demo'',
      dfTemplateNS = ''ate-demo-adk-calc'', dfTemplateName = ''adk-calc'', dfDelete = False\<rparr>"
    by (simp add: demoFlags_def bare_cl_def given_def)
  obtain qs scr where m: "?m = Up (qs, scr)"
    by (cases "clientMain (\<lambda>_. None) \<lparr>Ref.Atespace = ''demo'', Name = ''u''\<rparr> ''ate-demo-adk-calc'' ''adk-calc'' False
      (\<lambda>n line. callAgent toy_json (\<lambda>_. None) ((\<lambda>_ _ _. Inl ''down'') n) ''localhost:8000'' ''u'' line)
      (interrupted None (stdinEvents [''  2+5'', [], ''exit'', ''3''] False))") (simp add: demoMain_def fl Dial_def)
  have t: "TrimSpace ''  2+5'' = ''2+5''" "TrimSpace [] = []" "TrimSpace ''exit'' = ''exit''" by code_simp+
  show ?thesis
    using demo_client_lifecycle [OF m refl refl refl refl]
    by (simp add: m fl t callAgent_def callResult_def show_result_def)
qed


text \<open>The agent's server starts just when both settings are there and every constructor succeeds.\<close>

lemma agentMain_starts_iff:
  "(\<exists>srv. agentMain kit newPlugin newRunner now env = Up srv) \<longleftrightarrow>
     env ''GOOGLE_API_KEY'' \<noteq> [] \<and> env ''CALC_MCP_URL'' \<noteq> [] \<and>
     (\<exists>a p r. Build kit env = Inr a \<and> newPlugin ''activityz'' = Inr p \<and> newRunner ''adk-calc'' a True [p] = Inr r)"
proof -
  have "Build kit env = Inr a \<Longrightarrow> env ''GOOGLE_API_KEY'' \<noteq> [] \<and> env ''CALC_MCP_URL'' \<noteq> []" for a
    by (auto simp: Build_def split: if_splits)
  then show ?thesis by (auto simp: agentMain_def NewServer_def split: sum.splits)
qed

text \<open>What it then reports to the poller before its first run: nothing in flight, idle since the start.\<close>

lemma agentMain_reports_idle:
  assumes "agentMain kit newPlugin newRunner now env = Up srv"
  shows "statusHandler enc later (srvTracker srv) ''/statusz'' =
    Some (enc \<lparr>InvocationsInFlight = 0, ToolCallsInFlight = 0, ToolCallsStarted = 0, ModelCallsInFlight = 0, ModelCallsStarted = 0,
      ToolBlockedMillis = 0, ModelBlockedMillis = 0, IdleMillis = Milliseconds (later - now)\<rparr>)"
proof -
  have "srvTracker srv = newTracker now"
    using assms by (auto simp: agentMain_def NewServer_def split: sum.splits)
  then show ?thesis by (simp add: statusHandler_def route_def Snapshot_def newTracker_def)
qed

text \<open>A reply is taken on its own port only, and a run only on the client's.\<close>

lemma ingress_ports_separate: "clientMux path \<noteq> Some ReplyEndpoint" "replyMux path \<noteq> Some RunEndpoint"
  by (simp_all add: clientMux_def replyMux_def split: routed.splits)

text \<open>Both egress programs end with status 0 just when their accept loop failed after the cancellation.\<close>

lemma egress_exit_clean:
  assumes "rest = dropWhile (\<lambda>x. isl (fst x) = False) arrivals"
  shows "brokerExit arrivals = Some 0 \<longleftrightarrow> (\<exists>err later. rest = (Inl err, True) # later)"
    and "sidecarExit arrivals = brokerExit arrivals"
proof -
  have x: "isl (fst x)" if "rest = x # xs" for x xs using that assms by (metis dropWhile_eq_Cons_conv)
  have "snd (Broker_Serve arrivals) = (case rest of [] \<Rightarrow> None | (x, cancelled) # _ \<Rightarrow> Some (if cancelled then None else Some (projl x)))"
    unfolding assms by (simp add: Broker_Serve_def acceptLoop_spec)
  then show "brokerExit arrivals = Some 0 \<longleftrightarrow> (\<exists>err later. rest = (Inl err, True) # later)"
    using x by (auto simp: brokerExit_def isl_def split: list.splits if_splits)
  show "sidecarExit arrivals = brokerExit arrivals"
    by (simp add: brokerExit_def sidecarExit_def Broker_Serve_def Proxy_Serve_def split_beta)
qed

end
