(* ===== verification/Loopback_Wire.thy ===== *)
theory Loopback_Wire
  imports Prelude
begin

text \<open>
  The framed protocol of the loopback experiment,
  \<^verbatim>\<open>demos/loopback-survival/internal/wire/wire.go\<close>: data frames with a sequence number and a
  checksum, acknowledgements with a running checksum, and the deterministic payloads. The
  checksum is CRC-32 (IEEE) as \<^verbatim>\<open>hash/crc32\<close> computes it, byte by byte from its table.
\<close>

section \<open>CRC-32\<close>

definition crc_bit :: "u32 \<Rightarrow> u32" where
  "crc_bit c = (if bit c 0 then drop_bit 1 c XOR 0xEDB88320 else drop_bit 1 c)"

definition crc_table :: "u8 \<Rightarrow> u32" where
  "crc_table b = (crc_bit ^^ 8) (ucast b)"

definition crc_step :: "u32 \<Rightarrow> u8 \<Rightarrow> u32" where
  "crc_step c b = crc_table (ucast c XOR b) XOR drop_bit 8 c"

definition UpdateCRC :: "u32 \<Rightarrow> bytes \<Rightarrow> u32" where
  "UpdateCRC crc payload = NOT (foldl crc_step (NOT crc) payload)"

definition ChecksumIEEE :: "bytes \<Rightarrow> u32" where
  "ChecksumIEEE payload = UpdateCRC 0 payload"

section \<open>Frames and acknowledgements\<close>

definition lbMaxPayload :: nat where
  "lbMaxPayload = 2 ^ 20"

definition lbWriteFrame :: "u64 \<Rightarrow> bytes \<Rightarrow> bytes" where
  "lbWriteFrame seq payload =
     be_put 4 (of_nat (length payload) :: u32) @ be_put 8 seq @ payload @ be_put 4 (ChecksumIEEE payload)"

text \<open>
  The outcomes of \<^verbatim>\<open>ReadFrame\<close>: a read error, a length over the limit, a checksum mismatch
  (the frame has been consumed), or a frame.
\<close>

datatype lb_result =
    LbError read_error
  | LbTooBig u32
  | LbCorrupt u64 bytes reader
  | LbFrame u64 bytes reader

definition lbReadFrame :: "reader \<Rightarrow> lb_result" where
  "lbReadFrame r =
     (case ReadFull 12 r of
        Inl e \<Rightarrow> LbError e
      | Inr (hdr, r1) \<Rightarrow>
          (let n = be_get (take 4 hdr) :: u32; seq = be_get (drop 4 hdr) :: u64
           in if unat n > lbMaxPayload then LbTooBig n
              else case ReadFull (unat n) r1 of
                     Inl e \<Rightarrow> LbError e
                   | Inr (payload, r2) \<Rightarrow>
                       (case ReadFull 4 r2 of
                          Inl e \<Rightarrow> LbError e
                        | Inr (tail, r3) \<Rightarrow>
                            if be_get tail \<noteq> ChecksumIEEE payload then LbCorrupt seq payload r3
                            else LbFrame seq payload r3)))"

definition lbWriteAck :: "u64 \<Rightarrow> u64 \<Rightarrow> u32 \<Rightarrow> bytes" where
  "lbWriteAck seq totalBytes runningCRC = be_put 8 seq @ be_put 8 totalBytes @ be_put 4 runningCRC"

definition lbReadAck :: "reader \<Rightarrow> read_error + (u64 \<times> u64 \<times> u32 \<times> reader)" where
  "lbReadAck r =
     bindE (ReadFull 20 r) (\<lambda>(b, r1).
       Inr (be_get (take 8 b), be_get (take 8 (drop 8 b)), be_get (drop 16 b), r1))"

text \<open>\<^verbatim>\<open>FillPayload\<close>: the xorshift stream, one byte per step.\<close>

definition xorshift :: "u64 \<Rightarrow> u64" where
  "xorshift x0 =
     (let x1 = x0 XOR push_bit 13 x0; x2 = x1 XOR drop_bit 7 x1 in x2 XOR push_bit 17 x2)"

fun fill :: "nat \<Rightarrow> u64 \<Rightarrow> bytes" where
  "fill 0 x = []"
| "fill (Suc n) x = (let x' = xorshift x in ucast x' # fill n x')"

definition FillPayload :: "nat \<Rightarrow> u64 \<Rightarrow> bytes" where
  "FillPayload n seq = fill n (seq * 0x9E3779B97F4A7C15 + 1)"

section \<open>Lemmas\<close>

lemma UpdateCRC_append: "UpdateCRC crc (xs @ ys) = UpdateCRC (UpdateCRC crc xs) ys"
  by (simp add: UpdateCRC_def)

lemma UpdateCRC_Nil [simp]: "UpdateCRC crc [] = crc"
  by (simp add: UpdateCRC_def)

lemma length_FillPayload [simp]: "length (FillPayload n seq) = n"
proof -
  have "length (fill n x) = n" for x by (induction n x rule: fill.induct) (simp_all add: Let_def)
  then show ?thesis by (simp add: FillPayload_def)
qed

lemma ReadFull_split:
  "length bs = n \<Longrightarrow> avail r = bs @ cs \<Longrightarrow> ReadFull n r = Inr (bs, r\<lparr>avail := cs\<rparr>)"
  by (simp add: ReadFull_def)

lemma lbReadFrame_write:
  assumes "length payload \<le> lbMaxPayload" and "avail r = lbWriteFrame seq payload @ cs"
  shows "lbReadFrame r = LbFrame seq payload (r\<lparr>avail := cs\<rparr>)"
proof -
  have n: "unat (of_nat (length payload) :: u32) = length payload"
    using assms(1) by (simp add: unat_of_nat lbMaxPayload_def)
  have "ReadFull 12 r = Inr (be_put 4 (of_nat (length payload) :: u32) @ be_put 8 seq,
      r\<lparr>avail := payload @ be_put 4 (ChecksumIEEE payload) @ cs\<rparr>)"
    using assms(2) by (intro ReadFull_split) (simp_all add: lbWriteFrame_def)
  then show ?thesis using assms(1) n by (simp add: lbReadFrame_def Let_def)
qed

lemma lbReadAck_write:
  assumes "avail r = lbWriteAck seq tot crc @ cs"
  shows "lbReadAck r = Inr (seq, tot, crc, r\<lparr>avail := cs\<rparr>)"
proof -
  have "ReadFull 20 r = Inr (lbWriteAck seq tot crc, r\<lparr>avail := cs\<rparr>)"
    using assms by (intro ReadFull_split) (simp_all add: lbWriteAck_def)
  then show ?thesis by (simp add: lbReadAck_def lbWriteAck_def)
qed

end
