(* ===== verification/Loopback.thy ===== *)
theory Loopback
  imports Loopback_Wire Strconv
begin

text \<open>
  The loopback-survival experiment: the server (\<^verbatim>\<open>demos/loopback-survival/server/main.go\<close>) and
  the client (\<^verbatim>\<open>demos/loopback-survival/client/main.go\<close>) that stream over one connection inside an
  actor and decide whether it survived every suspend. Times are nanoseconds; the zero
  \<^verbatim>\<open>time.Time\<close> is \<^const>\<open>None\<close>.
\<close>

section \<open>The server\<close>

record srv_stats =
  ConnectionsAccepted :: int
  FramesReceived :: u64
  BytesReceived :: u64
  LastSeqReceived :: u64
  RunningCRC :: u32
  SeqViolations :: int
  CRCViolations :: int
  LastConnError :: string

record pendingAck =
  ackSeq :: u64
  ackTotal :: u64
  ackCRC :: u32
  notBefore :: int

definition srv_stats0 :: srv_stats where
  "srv_stats0 = \<lparr>ConnectionsAccepted = 0, FramesReceived = 0, BytesReceived = 0, LastSeqReceived = 0,
     RunningCRC = 0, SeqViolations = 0, CRCViolations = 0, LastConnError = []\<rparr>"

definition acceptConn :: "srv_stats \<Rightarrow> srv_stats" where
  "acceptConn s = s\<lparr>ConnectionsAccepted := ConnectionsAccepted s + 1\<rparr>"

text \<open>
  One turn of \<^verbatim>\<open>handleConn\<close>'s reader on the outcome of \<^verbatim>\<open>ReadFrame\<close>: the next state, the
  acknowledgement to queue, and whether the loop goes on. \<open>queueFull\<close> says that the queue of 1024
  takes no more, \<open>errText\<close> gives the text of an error.
\<close>

definition recordConnError :: "(lb_result \<Rightarrow> string) \<Rightarrow> lb_result \<Rightarrow> srv_stats \<Rightarrow> srv_stats" where
  "recordConnError errText res s = (if res = LbError EOF then s else s\<lparr>LastConnError := errText res\<rparr>)"

definition takeFrame :: "u64 \<Rightarrow> bytes \<Rightarrow> srv_stats \<Rightarrow> srv_stats" where
  "takeFrame seq payload s =
     s\<lparr>SeqViolations := (if FramesReceived s > 0 \<and> seq \<noteq> LastSeqReceived s + 1 then SeqViolations s + 1 else SeqViolations s),
       LastSeqReceived := seq, FramesReceived := FramesReceived s + 1,
       BytesReceived := BytesReceived s + of_nat (length payload),
       RunningCRC := UpdateCRC (RunningCRC s) payload\<rparr>"

definition serverTurn :: "(lb_result \<Rightarrow> string) \<Rightarrow> int \<Rightarrow> bool \<Rightarrow> lb_result \<Rightarrow> srv_stats \<Rightarrow> srv_stats \<times> pendingAck option \<times> bool" where
  "serverTurn errText due queueFull res s =
     (case res of
        LbCorrupt seq payload r \<Rightarrow> (s\<lparr>CRCViolations := CRCViolations s + 1\<rparr>, None, True)
      | LbFrame seq payload r \<Rightarrow>
          (let s' = takeFrame seq payload s
           in if queueFull then (s', None, False)
              else (s', Some \<lparr>ackSeq = seq, ackTotal = BytesReceived s', ackCRC = RunningCRC s', notBefore = due\<rparr>, True))
      | _ \<Rightarrow> (recordConnError errText res s, None, False))"

section \<open>The client\<close>

record clockGap =
  DetectedAt :: int
  WallGap :: int
  MonoGap :: int

record extEvent =
  At :: int
  Kind :: string
  Probe :: u64
  ErrorText :: string
  SinceLastOK :: int

record cl_stats =
  LoopbackEstablishedAt :: "int option"
  FramesSent :: u64
  BytesSent :: u64
  LastSeqSent :: u64
  AcksReceived :: u64
  LastSeqAcked :: u64
  SendRunningCRC :: u32
  AckOrderViolations :: int
  AckCRCMismatches :: int
  AckBytesMismatches :: int
  LoopbackBroken :: bool
  LoopbackError :: string
  pendingCRC :: "u64 \<Rightarrow> (u64 \<times> u64) option"
  ClockGaps :: "clockGap list"
  ExternalProbesSent :: u64
  ExternalEchoesOK :: u64
  ExternalReconnects :: int
  ExternalEvents :: "extEvent list"
  externalLastOK :: "int option"

definition cl_stats0 :: cl_stats where
  "cl_stats0 = \<lparr>LoopbackEstablishedAt = None, FramesSent = 0, BytesSent = 0, LastSeqSent = 0, AcksReceived = 0,
     LastSeqAcked = 0, SendRunningCRC = 0, AckOrderViolations = 0, AckCRCMismatches = 0, AckBytesMismatches = 0,
     LoopbackBroken = False, LoopbackError = [], pendingCRC = Map.empty, ClockGaps = [], ExternalProbesSent = 0,
     ExternalEchoesOK = 0, ExternalReconnects = 0, ExternalEvents = [], externalLastOK = None\<rparr>"

definition maxEvents :: nat where
  "maxEvents = 200"

definition established_at :: "int \<Rightarrow> cl_stats \<Rightarrow> cl_stats" where
  "established_at now c = c\<lparr>LoopbackEstablishedAt := Some now\<rparr>"

text \<open>One tick of the send loop: the counters, and the frame written to the connection.\<close>

definition sendTurn :: "nat \<Rightarrow> u64 \<Rightarrow> cl_stats \<Rightarrow> cl_stats \<times> bytes" where
  "sendTurn payloadSize seq c =
     (let payload = FillPayload payloadSize seq;
          crc = UpdateCRC (SendRunningCRC c) payload;
          tot = BytesSent c + of_nat (length payload)
      in (c\<lparr>SendRunningCRC := crc, BytesSent := tot, pendingCRC := (pendingCRC c)(seq \<mapsto> (ucast crc, tot)),
            FramesSent := FramesSent c + 1, LastSeqSent := seq\<rparr>,
          lbWriteFrame seq payload))"

definition failLoopback :: "string \<Rightarrow> string \<Rightarrow> cl_stats \<Rightarrow> cl_stats" where
  "failLoopback phase err c =
     (if LoopbackBroken c then c else c\<lparr>LoopbackBroken := True, LoopbackError := phase @ '': '' @ err\<rparr>)"

text \<open>One turn of \<^verbatim>\<open>readAcks\<close> on an acknowledgement that was read.\<close>

definition ackTurn :: "u64 \<Rightarrow> u64 \<Rightarrow> u32 \<Rightarrow> cl_stats \<Rightarrow> cl_stats" where
  "ackTurn seq totalBytes runningCRC c0 =
     (let c = c0\<lparr>AcksReceived := AcksReceived c0 + 1,
                 AckOrderViolations := (if LastSeqAcked c0 \<noteq> 0 \<and> seq \<noteq> LastSeqAcked c0 + 1
                                        then AckOrderViolations c0 + 1 else AckOrderViolations c0),
                 LastSeqAcked := seq\<rparr>
      in case pendingCRC c seq of
           None \<Rightarrow> c
         | Some (wantCRC, wantBytes) \<Rightarrow>
             c\<lparr>AckCRCMismatches := (if (ucast wantCRC :: u32) \<noteq> runningCRC then AckCRCMismatches c + 1 else AckCRCMismatches c),
               AckBytesMismatches := (if wantBytes \<noteq> totalBytes then AckBytesMismatches c + 1 else AckBytesMismatches c),
               pendingCRC := (pendingCRC c)(seq := None)\<rparr>)"

text \<open>One sample of the clock monitor: the gaps of the two clocks since the last one.\<close>

definition monitorTick :: "int \<Rightarrow> int \<Rightarrow> int \<Rightarrow> int \<Rightarrow> int \<Rightarrow> cl_stats \<Rightarrow> cl_stats" where
  "monitorTick gapMin sampleInt now wallGap monoGap c =
     (if wallGap - monoGap > gapMin \<or> monoGap > gapMin + sampleInt
      then if length (ClockGaps c) < maxEvents
           then c\<lparr>ClockGaps := ClockGaps c @ [\<lparr>DetectedAt = now, WallGap = wallGap, MonoGap = monoGap\<rparr>]\<rparr> else c
      else c)"

definition recordExtEvent :: "extEvent \<Rightarrow> cl_stats \<Rightarrow> cl_stats" where
  "recordExtEvent ev c =
     (if length (ExternalEvents c) < maxEvents then c\<lparr>ExternalEvents := ExternalEvents c @ [ev]\<rparr> else c)"

definition recordExtFailure :: "int \<Rightarrow> int \<Rightarrow> string \<Rightarrow> u64 \<Rightarrow> string \<Rightarrow> cl_stats \<Rightarrow> cl_stats" where
  "recordExtFailure now later kind probe err c =
     recordExtEvent \<lparr>At = now, Kind = kind, Probe = probe, ErrorText = err,
       SinceLastOK = (case externalLastOK c of None \<Rightarrow> 0 | Some t \<Rightarrow> later - t)\<rparr> c"

text \<open>
  One probe on an open external connection, by how it ends: the line came back, or one of the
  three failures with its error text, after which the connection is dropped.
\<close>

datatype probe_end = EchoOK | WriteError string | ReadError string | CorruptEcho string

definition probeTurn :: "int \<Rightarrow> int \<Rightarrow> u64 \<Rightarrow> probe_end \<Rightarrow> cl_stats \<Rightarrow> cl_stats \<times> bool" where
  "probeTurn now later probe res c0 =
     (let c = c0\<lparr>ExternalProbesSent := ExternalProbesSent c0 + 1\<rparr>;
          drop' = (\<lambda>kind err. let c1 = recordExtFailure now later kind probe err c
                             in (c1\<lparr>ExternalReconnects := ExternalReconnects c1 + 1\<rparr>, False))
      in case res of
           EchoOK \<Rightarrow> (c\<lparr>ExternalEchoesOK := ExternalEchoesOK c + 1, externalLastOK := Some now\<rparr>, True)
         | WriteError err \<Rightarrow> drop' ''write-error'' err
         | ReadError err \<Rightarrow> drop' ''read-error'' err
         | CorruptEcho err \<Rightarrow> drop' ''corrupt-echo'' err)"

section \<open>The verdict\<close>

datatype verdict = PASS | FAIL | NO_SUSPEND_OBSERVED

text \<open>
  \<^verbatim>\<open>buildReport\<close>: the verdict and the number of its details. \<open>srv\<close> is what the server's stats
  say when they could be fetched and decoded: its two violation counts.
\<close>

definition buildReport :: "(int \<times> int) option \<Rightarrow> cl_stats \<Rightarrow> verdict \<times> nat" where
  "buildReport srv c =
     (let (srvSeq, srvCRC) = (case srv of None \<Rightarrow> (0, 0) | Some v \<Rightarrow> v);
          fails = (if LoopbackEstablishedAt c = None \<or> LoopbackBroken c then 1 else 0 :: nat) +
                  (if AckOrderViolations c + AckCRCMismatches c + AckBytesMismatches c > 0 then 1 else 0) +
                  (if srvSeq + srvCRC > 0 then 1 else 0)
      in if fails > 0 then (FAIL, fails)
         else (if ClockGaps c = [] then NO_SUSPEND_OBSERVED else PASS, 1))"

section \<open>The experiment\<close>

text \<open>
  The two processes and the connection between them: bytes on their way to the server, the
  server's queue of acknowledgements, bytes on their way to the client. The kernel delivers both
  streams complete and in order; the suspends are not visible to them. \<open>sent\<close> counts the frames.
\<close>

record lbsys =
  cl :: cl_stats
  sv :: srv_stats
  sent :: nat
  upStream :: bytes
  ackQueue :: "pendingAck list"
  downStream :: bytes

inductive lbstep :: "nat \<Rightarrow> lbsys \<Rightarrow> lbsys \<Rightarrow> bool" for sz where
  sends: "sendTurn sz (of_nat (Suc (sent s))) (cl s) = (c', bs) \<Longrightarrow>
     lbstep sz s (s\<lparr>cl := c', sent := Suc (sent s), upStream := upStream s @ bs\<rparr>)"
| serves: "lbReadFrame \<lparr>avail = upStream s, final = NetError\<rparr> = LbFrame seq p r \<Longrightarrow> length (ackQueue s) < 1024 \<Longrightarrow>
     serverTurn errText due False (LbFrame seq p r) (sv s) = (v', Some a, True) \<Longrightarrow>
     lbstep sz s (s\<lparr>sv := v', upStream := avail r, ackQueue := ackQueue s @ [a]\<rparr>)"
| corrupt: "lbReadFrame \<lparr>avail = upStream s, final = NetError\<rparr> = LbCorrupt seq p r \<Longrightarrow>
     serverTurn errText due full (LbCorrupt seq p r) (sv s) = (v', None, True) \<Longrightarrow>
     lbstep sz s (s\<lparr>sv := v', upStream := avail r\<rparr>)"
| acks: "ackQueue s = a # q \<Longrightarrow>
     lbstep sz s (s\<lparr>ackQueue := q, downStream := downStream s @ lbWriteAck (ackSeq a) (ackTotal a) (ackCRC a)\<rparr>)"
| reads: "lbReadAck \<lparr>avail = downStream s, final = NetError\<rparr> = Inr (seq, tot, crc, r) \<Longrightarrow>
     lbstep sz s (s\<lparr>cl := ackTurn seq tot crc (cl s), downStream := avail r\<rparr>)"
| clock: "lbstep sz s (s\<lparr>cl := monitorTick gapMin sampleInt now wallGap monoGap (cl s)\<rparr>)"
| probe: "lbstep sz s (s\<lparr>cl := fst (probeTurn now later n res (cl s))\<rparr>)"

definition lbsys0 :: "int \<Rightarrow> lbsys" where
  "lbsys0 t = \<lparr>cl = established_at t cl_stats0, sv = acceptConn srv_stats0, sent = 0, upStream = [], ackQueue = [], downStream = []\<rparr>"

inductive lbreach :: "nat \<Rightarrow> lbsys \<Rightarrow> bool" for sz where
  start: "lbreach sz (lbsys0 t)"
| step: "lbreach sz s \<Longrightarrow> lbstep sz s s' \<Longrightarrow> lbreach sz s'"

section \<open>Invariant\<close>

text \<open>
  The running checksum after \<open>k\<close> frames, and the \<open>k\<close>-th frame and acknowledgement. In the
  invariant, \<open>r\<close> frames have been received, \<open>w\<close> acknowledgements written and \<open>a\<close> of them read.
\<close>

fun crcAfter :: "nat \<Rightarrow> nat \<Rightarrow> u32" where
  "crcAfter sz 0 = 0"
| "crcAfter sz (Suc k) = UpdateCRC (crcAfter sz k) (FillPayload sz (of_nat (Suc k)))"

definition frameNo :: "nat \<Rightarrow> nat \<Rightarrow> bytes" where
  "frameNo sz k = lbWriteFrame (of_nat k) (FillPayload sz (of_nat k))"

definition ackNo :: "nat \<Rightarrow> nat \<Rightarrow> u64 \<times> u64 \<times> u32" where
  "ackNo sz k = (of_nat k, of_nat (k * sz), crcAfter sz k)"

definition ackBytes :: "u64 \<times> u64 \<times> u32 \<Rightarrow> bytes" where
  "ackBytes = (\<lambda>(q, t, c). lbWriteAck q t c)"

definition ackData :: "pendingAck \<Rightarrow> u64 \<times> u64 \<times> u32" where
  "ackData p = (ackSeq p, ackTotal p, ackCRC p)"

definition srv_ok :: "nat \<Rightarrow> nat \<Rightarrow> srv_stats \<Rightarrow> bool" where
  "srv_ok sz r v \<longleftrightarrow> FramesReceived v = of_nat r \<and> LastSeqReceived v = of_nat r \<and>
     BytesReceived v = of_nat (r * sz) \<and> RunningCRC v = crcAfter sz r \<and> SeqViolations v = 0 \<and> CRCViolations v = 0"

definition cl_ok :: "nat \<Rightarrow> nat \<Rightarrow> nat \<Rightarrow> cl_stats \<Rightarrow> bool" where
  "cl_ok sz n a c \<longleftrightarrow> LoopbackEstablishedAt c \<noteq> None \<and> \<not> LoopbackBroken c \<and>
     BytesSent c = of_nat (n * sz) \<and> SendRunningCRC c = crcAfter sz n \<and> LastSeqAcked c = of_nat a \<and>
     AckOrderViolations c = 0 \<and> AckCRCMismatches c = 0 \<and> AckBytesMismatches c = 0 \<and>
     (\<forall>k\<in>{a<..n}. pendingCRC c (of_nat k) = Some (ucast (crcAfter sz k), of_nat (k * sz)))"

definition lb_inv :: "nat \<Rightarrow> nat \<Rightarrow> nat \<Rightarrow> nat \<Rightarrow> lbsys \<Rightarrow> bool" where
  "lb_inv sz r w a s \<longleftrightarrow> a \<le> w \<and> w \<le> r \<and> r \<le> sent s \<and>
     upStream s = concat (map (frameNo sz) [Suc r..<Suc (sent s)]) \<and>
     map ackData (ackQueue s) = map (ackNo sz) [Suc w..<Suc r] \<and>
     downStream s = concat (map (ackBytes \<circ> ackNo sz) [Suc a..<Suc w]) \<and>
     srv_ok sz r (sv s) \<and> cl_ok sz (sent s) a (cl s)"

lemma of_nat_u64_eq: "j < 2 ^ 64 \<Longrightarrow> k < 2 ^ 64 \<Longrightarrow> (of_nat j :: u64) = of_nat k \<longleftrightarrow> j = k"
  by (simp add: word_unat_eq_iff unat_of_nat)

lemma takeFrame_ok:
  assumes "srv_ok sz r v" and "Suc r < 2 ^ 64"
  shows "srv_ok sz (Suc r) (takeFrame (of_nat (Suc r)) (FillPayload sz (of_nat (Suc r))) v)"
  using assms by (simp add: srv_ok_def takeFrame_def algebra_simps)

lemma sendTurn_ok:
  assumes "cl_ok sz n a c" and "a \<le> n" and "Suc n < 2 ^ 64"
  shows "cl_ok sz (Suc n) a (fst (sendTurn sz (of_nat (Suc n)) c))"
proof -
  have "(of_nat k :: u64) \<noteq> of_nat (Suc n)" if "k \<le> n" for k
    using that assms(3) by (subst of_nat_u64_eq) auto
  then show ?thesis
    using assms by (auto simp: cl_ok_def sendTurn_def Let_def algebra_simps le_Suc_eq)
qed

lemma ackTurn_ok:
  assumes "cl_ok sz n a c" and "a < n" and "n < 2 ^ 64"
  shows "cl_ok sz n (Suc a) (ackTurn (of_nat (Suc a)) (of_nat (Suc a * sz)) (crcAfter sz (Suc a)) c)"
proof -
  have p: "pendingCRC c (of_nat (Suc a)) = Some (ucast (crcAfter sz (Suc a)), of_nat (Suc a * sz))"
  proof -
    have "Suc a \<in> {a<..n}" using assms(2) by simp
    then show ?thesis using assms(1) unfolding cl_ok_def by blast
  qed
  have "(of_nat k :: u64) \<noteq> of_nat (Suc a)" if "Suc a < k" "k \<le> n" for k
    using that assms(2,3) by (subst of_nat_u64_eq) auto
  moreover have "(ucast (ucast (crcAfter sz (Suc a)) :: u64) :: u32) = crcAfter sz (Suc a)"
    by (simp add: ucast_down_ucast_id is_down del: crcAfter.simps)
  moreover have "(of_nat (Suc a) :: u64) = of_nat a + 1" by simp
  ultimately show ?thesis
    using assms p by (auto simp: cl_ok_def ackTurn_def Let_def simp del: crcAfter.simps of_nat_Suc)
qed

lemma other_ok:
  "cl_ok sz n a c \<Longrightarrow> cl_ok sz n a (monitorTick gapMin sampleInt now wallGap monoGap c)"
  "cl_ok sz n a c \<Longrightarrow> cl_ok sz n a (fst (probeTurn now later q res c))"
  by (auto simp: cl_ok_def monitorTick_def probeTurn_def recordExtFailure_def recordExtEvent_def Let_def split: probe_end.splits)

lemma next_frame:
  assumes "lb_inv sz r w a s" and "sz \<le> lbMaxPayload"
  shows "if r = sent s then upStream s = []
    else lbReadFrame \<lparr>avail = upStream s, final = e\<rparr> = LbFrame (of_nat (Suc r)) (FillPayload sz (of_nat (Suc r)))
           \<lparr>avail = concat (map (frameNo sz) [Suc (Suc r)..<Suc (sent s)]), final = e\<rparr>"
proof (cases "r = sent s")
  case False
  then have "[Suc r..<Suc (sent s)] = Suc r # [Suc (Suc r)..<Suc (sent s)]"
    using assms(1) by (intro upt_conv_Cons) (auto simp: lb_inv_def)
  then have "upStream s = frameNo sz (Suc r) @ concat (map (frameNo sz) [Suc (Suc r)..<Suc (sent s)])"
    using assms(1) by (simp add: lb_inv_def del: upt_Suc)
  then have "lbReadFrame \<lparr>avail = upStream s, final = e\<rparr> = LbFrame (of_nat (Suc r)) (FillPayload sz (of_nat (Suc r)))
      (\<lparr>avail = upStream s, final = e\<rparr>\<lparr>avail := concat (map (frameNo sz) [Suc (Suc r)..<Suc (sent s)])\<rparr>)"
    using assms(2) by (intro lbReadFrame_write) (simp_all add: frameNo_def)
  then show ?thesis using False by simp
qed (use assms in \<open>simp add: lb_inv_def\<close>)

lemma next_ack:
  assumes "lb_inv sz r w a s"
  shows "if a = w then downStream s = []
    else lbReadAck \<lparr>avail = downStream s, final = e\<rparr> =
           Inr (of_nat (Suc a), of_nat (Suc a * sz), crcAfter sz (Suc a),
             \<lparr>avail = concat (map (ackBytes \<circ> ackNo sz) [Suc (Suc a)..<Suc w]), final = e\<rparr>)"
proof (cases "a = w")
  case False
  then have "[Suc a..<Suc w] = Suc a # [Suc (Suc a)..<Suc w]"
    using assms(1) by (intro upt_conv_Cons) (auto simp: lb_inv_def)
  then have "downStream s = ackBytes (ackNo sz (Suc a)) @ concat (map (ackBytes \<circ> ackNo sz) [Suc (Suc a)..<Suc w])"
    using assms(1) by (simp add: lb_inv_def del: upt_Suc)
  then show ?thesis
    using False lbReadAck_write [of "\<lparr>avail = downStream s, final = e\<rparr>" "of_nat (Suc a)" "of_nat (Suc a * sz)" "crcAfter sz (Suc a)"]
    by (simp add: ackBytes_def ackNo_def del: crcAfter.simps of_nat_Suc)
qed (use assms in \<open>simp add: lb_inv_def\<close>)

lemma no_frame: "lbReadFrame \<lparr>avail = [], final = e\<rparr> = LbError e" "lbReadAck \<lparr>avail = [], final = e\<rparr> = Inl e"
  by (simp_all add: lbReadFrame_def lbReadAck_def ReadFull_def)

lemma upt_snoc: "r \<le> n \<Longrightarrow> [Suc r..<Suc (Suc n)] = [Suc r..<Suc n] @ [Suc n]"
  by simp

lemma lb_inv_step:
  assumes "lbstep sz s s'" and "lb_inv sz r w a s" and "sz \<le> lbMaxPayload" and "sent s' < 2 ^ 64"
  shows "\<exists>r w a. lb_inv sz r w a s'"
  using assms(1)
proof cases
  case (sends c' bs)
  have "bs = frameNo sz (Suc (sent s))" and c': "c' = fst (sendTurn sz (of_nat (Suc (sent s))) (cl s))"
    using sends(2) by (auto simp: sendTurn_def Let_def frameNo_def)
  then have "lb_inv sz r w a s'"
    using assms(2,4) sends sendTurn_ok [of sz "sent s" a "cl s"] upt_snoc [of r "sent s"]
    by (auto simp: lb_inv_def simp del: upt_Suc of_nat_Suc)
  then show ?thesis by blast
next
  case (serves seq p rd errText due v' ack)
  have lt: "r \<noteq> sent s" using next_frame [OF assms(2,3), of NetError] serves(2) no_frame by (auto split: if_splits)
  have f: "seq = of_nat (Suc r)" "p = FillPayload sz (of_nat (Suc r))"
    "avail rd = concat (map (frameNo sz) [Suc (Suc r)..<Suc (sent s)])"
    using next_frame [OF assms(2,3), of NetError] serves(2) lt by auto
  have v: "v' = takeFrame seq p (sv s)" "ackSeq ack = seq" "ackTotal ack = BytesReceived v'" "ackCRC ack = RunningCRC v'"
    using serves(4) by (auto simp: serverTurn_def Let_def)
  have ok: "srv_ok sz (Suc r) v'" using takeFrame_ok [of sz r "sv s"] assms(2,4) lt serves(1) v f by (auto simp: lb_inv_def)
  have "ackData ack = ackNo sz (Suc r)"
    using ok v f by (auto simp: srv_ok_def ackData_def ackNo_def simp del: crcAfter.simps of_nat_Suc)
  moreover have "w \<le> r" "Suc r \<le> sent s" using assms(2) lt by (auto simp: lb_inv_def)
  ultimately have "lb_inv sz (Suc r) w a s'"
    using assms(2) ok f(3) serves(1) upt_snoc [of w r] by (auto simp: lb_inv_def simp del: upt_Suc crcAfter.simps of_nat_Suc)
  then show ?thesis by blast
next
  case (corrupt seq p rd errText due full v')
  then show ?thesis using next_frame [OF assms(2,3), of NetError] no_frame by (auto split: if_splits)
next
  case (acks ack q)
  have "w \<noteq> r" using assms(2) acks by (auto simp: lb_inv_def)
  then have "[Suc w..<Suc r] = Suc w # [Suc (Suc w)..<Suc r]"
    using assms(2) by (intro upt_conv_Cons) (auto simp: lb_inv_def)
  then have "ackData ack = ackNo sz (Suc w)" "map ackData q = map (ackNo sz) [Suc (Suc w)..<Suc r]"
    using assms(2) acks by (auto simp: lb_inv_def simp del: upt_Suc)
  moreover from this have "lbWriteAck (ackSeq ack) (ackTotal ack) (ackCRC ack) = ackBytes (ackNo sz (Suc w))"
    by (simp add: ackBytes_def ackData_def flip: \<open>ackData ack = ackNo sz (Suc w)\<close>)
  moreover have "a \<le> w" "Suc w \<le> r" using assms(2) \<open>w \<noteq> r\<close> by (auto simp: lb_inv_def)
  ultimately have "lb_inv sz r (Suc w) a s'"
    using assms(2) acks upt_snoc [of a w] by (auto simp: lb_inv_def simp del: upt_Suc)
  then show ?thesis by blast
next
  case (reads seq tot crc rd)
  have lt: "a \<noteq> w" using next_ack [OF assms(2), of NetError] reads(2) no_frame by (auto split: if_splits)
  have f: "seq = of_nat (Suc a)" "tot = of_nat (Suc a * sz)" "crc = crcAfter sz (Suc a)"
    "avail rd = concat (map (ackBytes \<circ> ackNo sz) [Suc (Suc a)..<Suc w])"
    using next_ack [OF assms(2), of NetError] reads(2) lt by (auto simp del: crcAfter.simps of_nat_Suc)
  have "a < sent s" "Suc a \<le> w" using assms(2) lt by (auto simp: lb_inv_def)
  then have "lb_inv sz r w (Suc a) s'"
    using assms(2,4) reads(1) f ackTurn_ok [of sz "sent s" a "cl s"]
    by (auto simp: lb_inv_def simp del: upt_Suc crcAfter.simps of_nat_Suc)
  then show ?thesis by blast
next
  case clock
  then have "lb_inv sz r w a s'" using assms(2) other_ok(1) by (auto simp: lb_inv_def)
  then show ?thesis by blast
next
  case probe
  then have "lb_inv sz r w a s'" using assms(2) other_ok(2) by (auto simp: lb_inv_def)
  then show ?thesis by blast
qed

lemma lbstep_sent: "lbstep sz s s' \<Longrightarrow> sent s \<le> sent s'"
  by (induction rule: lbstep.induct) auto

lemma lb_inv_reach: "lbreach sz s \<Longrightarrow> sz \<le> lbMaxPayload \<Longrightarrow> sent s < 2 ^ 64 \<Longrightarrow> \<exists>r w a. lb_inv sz r w a s"
proof (induction rule: lbreach.induct)
  case (start t)
  have "lb_inv sz 0 0 0 (lbsys0 t)"
    by (simp add: lb_inv_def lbsys0_def srv_ok_def cl_ok_def acceptConn_def srv_stats0_def established_at_def cl_stats0_def)
  then show ?case by blast
next
  case (step s s')
  then have "sent s < 2 ^ 64" using lbstep_sent [of sz s s'] by simp
  then show ?case using step lb_inv_step by blast
qed

section \<open>Properties\<close>


text \<open>One empty frame sent, and a suspend of an hour seen by the clocks.\<close>

definition demo_sent :: lbsys where
  "demo_sent = (lbsys0 0)\<lparr>cl := fst (sendTurn 0 1 (cl (lbsys0 0))), sent := 1, upStream := snd (sendTurn 0 1 (cl (lbsys0 0)))\<rparr>"

definition demo_resumed :: lbsys where
  "demo_resumed = demo_sent\<lparr>cl := monitorTick 2000000000 100000000 5 3600000000000 100000000 (cl demo_sent)\<rparr>"


end
