(* ===== verification/Loopback_Run.thy ===== *)
theory Loopback_Run
  imports Loopback Go_Strings
begin

text \<open>
  The programs of the loopback-survival experiment as they run: the client's loops over dial, send,
  acknowledgements, clock and external probe with their failure paths, its endpoints, the server's
  connection handler with its writer of acknowledgements, and the external echo service
  (\<^verbatim>\<open>demos/loopback-survival/\<close>).
\<close>

section \<open>The client\<close>

text \<open>
  Its state: the counters, the readiness flag, the number of the last frame, and which of the two
  goroutines on the connection still run.
\<close>

record lbclient =
  lcStats :: cl_stats
  lcReady :: bool
  lcSeq :: u64
  lcSending :: bool
  lcReading :: bool

definition lbclient0 :: lbclient where
  "lbclient0 = \<lparr>lcStats = cl_stats0, lcReady = False, lcSeq = 0, lcSending = False, lcReading = False\<rparr>"

datatype sendEnd = SendOK | WriteFails string | FlushFails string

text \<open>The dial loop: a failed dial is retried, a successful one establishes the connection for good.\<close>

definition dialed :: "int \<Rightarrow> lbclient \<Rightarrow> lbclient" where
  "dialed now s =
     (if LoopbackEstablishedAt (lcStats s) \<noteq> None then s
      else s\<lparr>lcStats := established_at now (lcStats s), lcReady := True, lcSending := True, lcReading := True\<rparr>)"

definition sendTick :: "nat \<Rightarrow> sendEnd \<Rightarrow> lbclient \<Rightarrow> lbclient \<times> bytes" where
  "sendTick sz r s =
     (if \<not> lcSending s then (s, [])
      else let seq = lcSeq s + 1; (c, bs) = sendTurn sz seq (lcStats s); s1 = s\<lparr>lcSeq := seq, lcStats := c\<rparr>
           in case r of
                SendOK \<Rightarrow> (s1, bs)
              | WriteFails err \<Rightarrow> (s1\<lparr>lcStats := failLoopback ''write'' err c, lcSending := False\<rparr>, [])
              | FlushFails err \<Rightarrow> (s1\<lparr>lcStats := failLoopback ''flush'' err c, lcSending := False\<rparr>, []))"

definition ackRead :: "string + (u64 \<times> u64 \<times> u32) \<Rightarrow> lbclient \<Rightarrow> lbclient" where
  "ackRead r s =
     (if \<not> lcReading s then s
      else case r of
        Inl err \<Rightarrow> s\<lparr>lcStats := failLoopback ''read-ack'' err (lcStats s), lcReading := False\<rparr>
      | Inr (seq, tot, crc) \<Rightarrow> s\<lparr>lcStats := ackTurn seq tot crc (lcStats s)\<rparr>)"

text \<open>
  The external probe: its line, how an attempt ends by what the socket does with it, and a whole
  connection from its dial to its close. \<open>mismatch\<close> is the text of a corrupt echo's error.
\<close>

definition probeLine :: "u64 \<Rightarrow> int \<Rightarrow> string" where
  "probeLine probe nano = ''probe '' @ digits (unat probe) @ '' '' @ Itoa nano @ [CHR 0x0A]"

definition probeEnd :: "(string \<Rightarrow> string \<Rightarrow> string) \<Rightarrow> string \<Rightarrow> string option \<Rightarrow> string + string \<Rightarrow> probe_end" where
  "probeEnd mismatch line writeErr echo =
     (case writeErr of
        Some err \<Rightarrow> WriteError err
      | None \<Rightarrow>
          (case echo of
             Inl err \<Rightarrow> ReadError err
           | Inr got \<Rightarrow> if got \<noteq> line then CorruptEcho (mismatch line got) else EchoOK))"

fun probeLoop :: "(int \<times> int \<times> probe_end) list \<Rightarrow> u64 \<Rightarrow> cl_stats \<Rightarrow> u64 \<times> cl_stats \<times> bool" where
  "probeLoop [] probe c = (probe, c, False)"
| "probeLoop ((now, later, res) # rest) probe c =
     (case probeTurn now later (probe + 1) res c of
        (c', True) \<Rightarrow> probeLoop rest (probe + 1) c'
      | (c', False) \<Rightarrow> (probe + 1, c', True))"

text \<open>
  One turn of the outer loop: a failed dial, or the time of the connect and the probes on it. The
  next dial comes only after the connection has ended.
\<close>

fun runExternalProbe :: "(int \<times> (int \<times> int \<times> probe_end) list) option list \<Rightarrow> u64 \<Rightarrow> cl_stats \<Rightarrow> u64 \<times> cl_stats" where
  "runExternalProbe [] probe c = (probe, c)"
| "runExternalProbe (None # rest) probe c = runExternalProbe rest probe c"
| "runExternalProbe (Some (now, turns) # rest) probe c =
     (case probeLoop turns probe
             (recordExtEvent \<lparr>At = now, Kind = ''connected'', Probe = 0, ErrorText = [], SinceLastOK = 0\<rparr> c) of
        (probe', c', ended) \<Rightarrow> if ended then runExternalProbe rest probe' c' else (probe', c'))"

text \<open>
  The endpoints: \<^verbatim>\<open>/readyz\<close> and the report on every other path. \<open>json\<close> prints the report.
\<close>

definition statusPage :: "(verdict \<times> nat \<Rightarrow> string) \<Rightarrow> (int \<times> int) option \<Rightarrow> lbclient \<Rightarrow> string \<Rightarrow> int \<times> string" where
  "statusPage json srv s path =
     (case route [''/'', ''/readyz''] path of
        Route p \<Rightarrow>
          if p = ''/readyz''
          then (if \<not> lcReady s then (503, ''loopback connection not yet established'' @ [CHR 0x0A]) else (200, ''ok'' @ [CHR 0x0A]))
          else (200, json (buildReport srv (lcStats s)))
      | Redirect p \<Rightarrow> (301, p)
      | NoRoute \<Rightarrow> (404, ''404 page not found'' @ [CHR 0x0A]))"

text \<open>Everything that happens to the client.\<close>

datatype lbEvent =
    DialOK int
  | DialFails
  | Tick sendEnd
  | AckRead "string + (u64 \<times> u64 \<times> u32)"
  | ClockSample int int int
  | ProbeConnected int
  | ProbeTried int int u64 probe_end

fun lbStep :: "nat \<Rightarrow> int \<Rightarrow> int \<Rightarrow> lbEvent \<Rightarrow> lbclient \<Rightarrow> lbclient" where
  "lbStep sz gapMin sampleInt (DialOK now) s = dialed now s"
| "lbStep sz gapMin sampleInt DialFails s = s"
| "lbStep sz gapMin sampleInt (Tick r) s = fst (sendTick sz r s)"
| "lbStep sz gapMin sampleInt (AckRead r) s = ackRead r s"
| "lbStep sz gapMin sampleInt (ClockSample now wallGap monoGap) s =
     s\<lparr>lcStats := monitorTick gapMin sampleInt now wallGap monoGap (lcStats s)\<rparr>"
| "lbStep sz gapMin sampleInt (ProbeConnected now) s =
     s\<lparr>lcStats := recordExtEvent \<lparr>At = now, Kind = ''connected'', Probe = 0, ErrorText = [], SinceLastOK = 0\<rparr> (lcStats s)\<rparr>"
| "lbStep sz gapMin sampleInt (ProbeTried now later probe res) s =
     s\<lparr>lcStats := fst (probeTurn now later probe res (lcStats s))\<rparr>"

fun lbRun :: "nat \<Rightarrow> int \<Rightarrow> int \<Rightarrow> lbEvent list \<Rightarrow> lbclient \<Rightarrow> lbclient" where
  "lbRun sz gapMin sampleInt [] s = s"
| "lbRun sz gapMin sampleInt (ev # evs) s = lbRun sz gapMin sampleInt evs (lbStep sz gapMin sampleInt ev s)"

section \<open>The server and the echo\<close>

text \<open>
  The reader of a connection on the results of its reads (each with the due time of its
  acknowledgement and whether the queue is full): the counters, the acknowledgements queued, and
  whether it has returned.
\<close>

fun handleConn :: "(lb_result \<Rightarrow> string) \<Rightarrow> (lb_result \<times> int \<times> bool) list \<Rightarrow> srv_stats \<Rightarrow> srv_stats \<times> pendingAck list \<times> bool" where
  "handleConn errText [] s = (s, [], False)"
| "handleConn errText ((res, due, full) # rest) s =
     (case serverTurn errText due full res s of
        (s', ack, True) \<Rightarrow>
          (case handleConn errText rest s' of (s'', acks, ended) \<Rightarrow> ((s'', (case ack of None \<Rightarrow> acks | Some a \<Rightarrow> a # acks), ended)))
      | (s', ack, False) \<Rightarrow> (s', [], True))"

text \<open>The writer: each acknowledgement at its due time or later, in order, until a write fails.\<close>

fun writeAcks :: "(nat \<Rightarrow> bool) \<Rightarrow> nat \<Rightarrow> int \<Rightarrow> pendingAck list \<Rightarrow> (int \<times> bytes) list" where
  "writeAcks ok n now [] = []"
| "writeAcks ok n now (a # acks) =
     (let t = max now (notBefore a)
      in if ok n then (t, lbWriteAck (ackSeq a) (ackTotal a) (ackCRC a)) # writeAcks ok (n + 1) t acks else [])"

text \<open>
  The accept loop takes one connection at a time; a failed accept ends the program. A reader that
  has returned waits for its writer before the next connection is accepted.
\<close>

fun serverMain :: "(lb_result \<Rightarrow> string) \<Rightarrow> (lb_result \<times> int \<times> bool) list option list \<Rightarrow> srv_stats \<Rightarrow> srv_stats \<times> bool" where
  "serverMain errText [] s = (s, False)"
| "serverMain errText (None # rest) s = (s, True)"
| "serverMain errText (Some turns # rest) s =
     (case handleConn errText turns (acceptConn s) of
        (s', acks, ended) \<Rightarrow> if ended then serverMain errText rest s' else (s', False))"

text \<open>The echo service on one connection: lines read, each with whether writing it back succeeds.\<close>

fun echoLoop :: "(string option \<times> bool) list \<Rightarrow> string list" where
  "echoLoop [] = []"
| "echoLoop ((None, ok) # rest) = []"
| "echoLoop ((Some line, ok) # rest) = (if ok then line # echoLoop rest else [])"

text \<open>
  The programs, which end at once when their address cannot be bound, and when an accept fails.
  The echo serves its connections side by side.
\<close>

definition serverProgram :: "bool \<Rightarrow> (lb_result \<Rightarrow> string) \<Rightarrow> (lb_result \<times> int \<times> bool) list option list \<Rightarrow> srv_stats \<times> bool" where
  "serverProgram listens errText arrivals = (if \<not> listens then (srv_stats0, True) else serverMain errText arrivals srv_stats0)"

definition echoMain :: "bool \<Rightarrow> (string option \<times> bool) list option list \<Rightarrow> string list list \<times> bool" where
  "echoMain listens arrivals =
     (if \<not> listens then ([], True)
      else (map (\<lambda>a. echoLoop (the a)) (takeWhile (\<lambda>a. a \<noteq> None) arrivals), None \<in> set arrivals))"

section \<open>Lemmas\<close>

text \<open>What no event takes back: the connection, the breach, and the count of violations.\<close>

definition violations :: "cl_stats \<Rightarrow> int" where
  "violations c = AckOrderViolations c + AckCRCMismatches c + AckBytesMismatches c"

definition no_better :: "cl_stats \<Rightarrow> cl_stats \<Rightarrow> bool" where
  "no_better c c' \<longleftrightarrow> (LoopbackEstablishedAt c \<noteq> None \<longrightarrow> LoopbackEstablishedAt c' \<noteq> None) \<and>
     (LoopbackBroken c \<longrightarrow> LoopbackBroken c') \<and> violations c \<le> violations c'"

lemma no_better_refl [simp]: "no_better c c"
  by (simp add: no_better_def)

lemma no_better_trans: "no_better a b \<Longrightarrow> no_better b c \<Longrightarrow> no_better a c"
  by (auto simp: no_better_def)

lemma no_better_fail: "no_better c (failLoopback phase err c)" "no_better c c' \<Longrightarrow> no_better c (failLoopback phase err c')"
  by (auto simp: no_better_def failLoopback_def violations_def)

lemma no_better_turns:
  "no_better c (fst (sendTurn sz seq c))" "no_better c (ackTurn seq tot crc c)"
  "no_better c (monitorTick gapMin sampleInt now wallGap monoGap c)" "no_better c (recordExtEvent ev c)"
  "no_better c (fst (probeTurn now later probe res c))" "no_better c (established_at now c)"
  by (auto simp: no_better_def violations_def sendTurn_def ackTurn_def monitorTick_def recordExtEvent_def probeTurn_def
      recordExtFailure_def established_at_def Let_def split: option.splits prod.splits probe_end.splits)

lemma no_better_step: "no_better (lcStats s) (lcStats (lbStep sz gapMin sampleInt ev s))"
proof (cases ev)
  case (Tick r)
  then show ?thesis
    using no_better_turns(1) [of "lcStats s" sz "lcSeq s + 1"]
    by (auto simp: sendTick_def Let_def split_beta intro: no_better_fail split: sendEnd.splits)
next
  case (AckRead r)
  then show ?thesis by (auto simp: ackRead_def no_better_turns no_better_fail split: sum.splits)
qed (simp_all add: dialed_def no_better_turns)

lemma no_better_run: "no_better (lcStats s) (lcStats (lbRun sz gapMin sampleInt evs s))"
  by (induction evs arbitrary: s) (auto intro: no_better_trans no_better_step)

lemma FAIL_iff:
  "fst (buildReport srv c) = FAIL \<longleftrightarrow> LoopbackEstablishedAt c = None \<or> LoopbackBroken c \<or> violations c > 0 \<or>
     (\<exists>q r. srv = Some (q, r) \<and> q + r > 0)"
  by (auto simp: buildReport_def violations_def Let_def split: option.splits prod.splits if_splits)

lemma ready_established_step:
  "(lcReady s \<longleftrightarrow> LoopbackEstablishedAt (lcStats s) \<noteq> None) \<Longrightarrow>
   (lcReady (lbStep sz gapMin sampleInt ev s) \<longleftrightarrow> LoopbackEstablishedAt (lcStats (lbStep sz gapMin sampleInt ev s)) \<noteq> None)"
  by (cases ev) (auto simp: dialed_def sendTick_def ackRead_def sendTurn_def ackTurn_def failLoopback_def monitorTick_def recordExtEvent_def
      probeTurn_def recordExtFailure_def established_at_def Let_def split: option.splits prod.splits probe_end.splits sendEnd.splits sum.splits)

lemma ready_established:
  "(lcReady s \<longleftrightarrow> LoopbackEstablishedAt (lcStats s) \<noteq> None) \<Longrightarrow>
   (lcReady (lbRun sz gapMin sampleInt evs s) \<longleftrightarrow> LoopbackEstablishedAt (lcStats (lbRun sz gapMin sampleInt evs s)) \<noteq> None)"
  by (induction evs arbitrary: s) (simp_all add: ready_established_step del: lbStep.simps)

section \<open>Properties\<close>

text \<open>
  C36. The experiment has no second chances. In every state the client reaches, it is ready just when
  the connection is established; a failed write, flush or read of an acknowledgement makes the
  verdict FAIL; and a FAIL after the connection was established is the verdict of every later
  report, whatever the network, the clocks and the probe do, and whatever the server's counters say.
\<close>

theorem failure_is_final:
  assumes "s = lbRun sz gapMin sampleInt evs lbclient0"
  shows "(fst (statusPage json srv s ''/readyz'') = 200 \<longleftrightarrow> LoopbackEstablishedAt (lcStats s) \<noteq> None) \<and>
    (\<forall>err r. lcSending s \<and> r \<in> {WriteFails err, FlushFails err} \<longrightarrow> fst (buildReport srv (lcStats (fst (sendTick sz r s)))) = FAIL) \<and>
    (\<forall>err. lcReading s \<longrightarrow> fst (buildReport srv (lcStats (ackRead (Inl err) s))) = FAIL) \<and>
    (LoopbackEstablishedAt (lcStats s) \<noteq> None \<and> fst (buildReport None (lcStats s)) = FAIL \<longrightarrow>
      (\<forall>evs' srv'. fst (buildReport srv' (lcStats (lbRun sz gapMin sampleInt evs' s))) = FAIL))"
proof (intro conjI allI impI)
  have "lcReady s \<longleftrightarrow> LoopbackEstablishedAt (lcStats s) \<noteq> None"
    unfolding assms by (rule ready_established) (simp add: lbclient0_def cl_stats0_def)
  then show "fst (statusPage json srv s ''/readyz'') = 200 \<longleftrightarrow> LoopbackEstablishedAt (lcStats s) \<noteq> None"
    by (simp add: statusPage_def route_def)
next
  fix err r
  assume "lcSending s \<and> r \<in> {WriteFails err, FlushFails err}"
  then show "fst (buildReport srv (lcStats (fst (sendTick sz r s)))) = FAIL"
    by (auto simp: FAIL_iff sendTick_def failLoopback_def Let_def split_beta)
next
  fix err
  assume "lcReading s"
  then show "fst (buildReport srv (lcStats (ackRead (Inl err) s))) = FAIL"
    by (auto simp: FAIL_iff ackRead_def failLoopback_def)
next
  fix evs' srv'
  assume "LoopbackEstablishedAt (lcStats s) \<noteq> None \<and> fst (buildReport None (lcStats s)) = FAIL"
  then show "fst (buildReport srv' (lcStats (lbRun sz gapMin sampleInt evs' s))) = FAIL"
    using no_better_run [of s sz gapMin sampleInt evs'] by (auto simp: FAIL_iff no_better_def)
qed

definition lb_cut :: lbclient where
  "lb_cut = lbRun 8 2 1 [DialFails, DialOK 5, AckRead (Inl ''reset'')] lbclient0"

theorem failure_is_final_witness:
  "lcSending lb_cut \<and> fst (buildReport None (lcStats lb_cut)) = FAIL \<and>
   fst (buildReport (Some (0, 0)) (lcStats (lbRun 8 2 1 [DialOK 9, ClockSample 20 15 1, ProbeConnected 21] lb_cut))) = FAIL"
proof -
  have s: "lcSending lb_cut" "LoopbackEstablishedAt (lcStats lb_cut) \<noteq> None" "fst (buildReport None (lcStats lb_cut)) = FAIL"
    by (simp_all add: lb_cut_def lbclient0_def dialed_def cl_stats0_def established_at_def ackRead_def failLoopback_def FAIL_iff)
  then have "\<forall>evs' srv'. fst (buildReport srv' (lcStats (lbRun 8 2 1 evs' lb_cut))) = FAIL"
    using failure_is_final [OF lb_cut_def, THEN conjunct2, THEN conjunct2, THEN conjunct2] by blast
  then show ?thesis using s by blast
qed

text \<open>The server's acknowledgements leave in the order of the frames, none before its time.\<close>

lemma writeAcks_in_order:
  "map snd (writeAcks ok n now acks) = map (\<lambda>a. lbWriteAck (ackSeq a) (ackTotal a) (ackCRC a)) (take (length (writeAcks ok n now acks)) acks)
   \<and> (\<forall>k < length (writeAcks ok n now acks). notBefore (acks ! k) \<le> fst (writeAcks ok n now acks ! k))"
proof (induction acks arbitrary: n now)
  case (Cons a acks)
  then show ?case by (auto simp: Let_def nth_Cons split: nat.splits)
qed simp

text \<open>A probe line over a socket that works comes back from the echo service as it was sent.\<close>

lemma probe_echoed: "probeEnd mismatch line None (Inr (hd (echoLoop [(Some line, True)]))) = EchoOK"
  by (simp add: probeEnd_def)

text \<open>
  The counters of the server only grow, over any connections: a violation once counted is in every
  later answer of its stats endpoint.
\<close>

lemma serverTurn_grows:
  "SeqViolations s \<le> SeqViolations (fst (serverTurn errText due full res s)) \<and>
   CRCViolations s \<le> CRCViolations (fst (serverTurn errText due full res s))"
  by (cases res) (auto simp: serverTurn_def takeFrame_def recordConnError_def Let_def)

lemma handleConn_grows:
  "SeqViolations s \<le> SeqViolations (fst (handleConn errText turns s)) \<and>
   CRCViolations s \<le> CRCViolations (fst (handleConn errText turns s))"
proof (induction turns arbitrary: s)
  case (Cons x turns)
  obtain res due full where x: "x = (res, due, full)" by (metis prod_cases3)
  show ?case
    using Cons.IH [of "fst (serverTurn errText due full res s)"] serverTurn_grows [of s errText due full res]
    by (auto simp: x split: prod.splits bool.splits)
qed simp

lemma serverMain_grows:
  "SeqViolations s \<le> SeqViolations (fst (serverMain errText arrivals s)) \<and>
   CRCViolations s \<le> CRCViolations (fst (serverMain errText arrivals s))"
proof (induction errText arrivals s rule: serverMain.induct)
  case (3 errText turns rest s)
  then show ?case
    using handleConn_grows [of "acceptConn s" errText turns] by (fastforce simp: acceptConn_def split: prod.splits)
qed simp_all

end
