(* ===== verification/Loopback_Report.thy ===== *)
theory Loopback_Report
  imports Loopback_Run
begin

text \<open>
  The report of the loopback experiment in full (\<^verbatim>\<open>buildReport\<close> in
  \<^verbatim>\<open>demos/loopback-survival/client/main.go\<close>): the fetch of the server's counters from its
  \<^verbatim>\<open>/statz\<close> endpoint, the verdict and the texts that explain it. JSON documents are of a
  type \<open>'j\<close>; the encoders and decoders are parameters.
\<close>

section \<open>The endpoint of the server and its fetch\<close>

definition serveStats :: "(srv_stats \<Rightarrow> 'j) \<Rightarrow> srv_stats \<Rightarrow> string \<Rightarrow> 'j option" where
  "serveStats enc s path = (case route [''/statz''] path of Route p \<Rightarrow> Some (enc s) | _ \<Rightarrow> None)"

text \<open>
  What the fetch adds to a report: the text of the error of the exchange or of the decoder of the
  body, the document, and the two counts, which stay zero when the document is not of their form.
\<close>

record 'j fetched_stats =
  fsErr :: string
  fsRaw :: "'j option"
  fsSeq :: int
  fsCRC :: int

definition fetchStats :: "('b \<Rightarrow> string + 'j) \<Rightarrow> ('j \<Rightarrow> (int \<times> int) option) \<Rightarrow> string + 'b \<Rightarrow> 'j fetched_stats" where
  "fetchStats decode unmarshal resp =
     (case resp of
        Inl err \<Rightarrow> \<lparr>fsErr = err, fsRaw = None, fsSeq = 0, fsCRC = 0\<rparr>
      | Inr body \<Rightarrow>
          (case decode body of
             Inl err \<Rightarrow> \<lparr>fsErr = err, fsRaw = None, fsSeq = 0, fsCRC = 0\<rparr>
           | Inr raw \<Rightarrow>
               (case unmarshal raw of
                  None \<Rightarrow> \<lparr>fsErr = [], fsRaw = Some raw, fsSeq = 0, fsCRC = 0\<rparr>
                | Some (q, r) \<Rightarrow> \<lparr>fsErr = [], fsRaw = Some raw, fsSeq = q, fsCRC = r\<rparr>)))"

section \<open>The report\<close>

record 'j report =
  Verdict :: string
  VerdictDetail :: "string list"
  RestoresObserved :: nat
  ClientDoc :: 'j
  ServerDoc :: "'j option"
  ServerStatsErr :: string

definition fail :: "string \<Rightarrow> 'j report \<Rightarrow> 'j report" where
  "fail msg rep = rep\<lparr>Verdict := ''FAIL'', VerdictDetail := VerdictDetail rep @ [msg]\<rparr>"

text \<open>The three checks, in the order of the code; then the verdict when none has failed.\<close>

definition checkConnection :: "cl_stats \<Rightarrow> 'j report \<Rightarrow> 'j report" where
  "checkConnection c rep =
     (if LoopbackEstablishedAt c = None then fail ''loopback connection never established'' rep
      else if LoopbackBroken c then fail ''loopback connection broke after establishment'' rep else rep)"

definition checkClient :: "cl_stats \<Rightarrow> 'j report \<Rightarrow> 'j report" where
  "checkClient c rep =
     (if violations c > 0 then fail (Itoa (violations c) @ '' client-side ack/CRC/byte-count violations'') rep else rep)"

definition checkServer :: "'j fetched_stats \<Rightarrow> 'j report \<Rightarrow> 'j report" where
  "checkServer fs rep =
     (if fsSeq fs + fsCRC fs > 0
      then fail (''server reported '' @ Itoa (fsSeq fs) @ '' seq and '' @ Itoa (fsCRC fs) @ '' CRC violations'') rep else rep)"

definition passText :: "cl_stats \<Rightarrow> string" where
  "passText c =
     ''loopback stream intact across '' @ Itoa (int (length (ClockGaps c))) @ '' restore(s); '' @
     digits (unat (LastSeqSent c)) @ '' frames sent, '' @ digits (unat (LastSeqAcked c)) @ '' acked, zero violations''"

definition waitText :: string where
  "waitText = ''stream healthy, but no suspend/resume boundary detected yet '' @ [CHR 0xE2, CHR 0x80, CHR 0x94] @
     '' suspend the actor and query again''"

definition conclude :: "cl_stats \<Rightarrow> 'j report \<Rightarrow> 'j report" where
  "conclude c rep =
     (if Verdict rep \<noteq> [] then rep
      else if ClockGaps c = []
      then rep\<lparr>Verdict := ''NO_SUSPEND_OBSERVED'', VerdictDetail := VerdictDetail rep @ [waitText]\<rparr>
      else rep\<lparr>Verdict := ''PASS'', VerdictDetail := VerdictDetail rep @ [passText c]\<rparr>)"

definition fullReport ::
  "(cl_stats \<Rightarrow> 'j) \<Rightarrow> ('b \<Rightarrow> string + 'j) \<Rightarrow> ('j \<Rightarrow> (int \<times> int) option) \<Rightarrow> string + 'b \<Rightarrow> cl_stats \<Rightarrow> 'j report" where
  "fullReport encode decode unmarshal resp c =
     (let fs = fetchStats decode unmarshal resp;
          rep = \<lparr>Verdict = [], VerdictDetail = [], RestoresObserved = length (ClockGaps c), ClientDoc = encode c,
                 ServerDoc = fsRaw fs, ServerStatsErr = fsErr fs\<rparr>
      in conclude c (checkServer fs (checkClient c (checkConnection c rep))))"

section \<open>Properties\<close>

definition verdictText :: "verdict \<Rightarrow> string" where
  "verdictText v = (case v of PASS \<Rightarrow> ''PASS'' | FAIL \<Rightarrow> ''FAIL'' | NO_SUSPEND_OBSERVED \<Rightarrow> ''NO_SUSPEND_OBSERVED'')"

text \<open>The report with its texts implements the verdict with its number of details.\<close>

lemma fullReport_refines:
  fixes unmarshal :: "'j \<Rightarrow> (int \<times> int) option"
  assumes "rep = fullReport encode decode unmarshal resp c" and "fs = fetchStats decode unmarshal resp"
  shows "(Verdict rep, length (VerdictDetail rep)) =
    (case buildReport (Some (fsSeq fs, fsCRC fs)) c of (v, n) \<Rightarrow> (verdictText v, n))"
  using assms
  by (simp add: fullReport_def Let_def conclude_def checkServer_def checkClient_def checkConnection_def fail_def
      buildReport_def verdictText_def violations_def)



text \<open>A client that was never connected, and one that lost its connection while the server saw a gap.\<close>

definition lost_stats :: cl_stats where
  "lost_stats = failLoopback ''flush'' ''EPIPE'' (established_at 1 cl_stats0)"


text \<open>
  The two programs together: when the client reaches the server's endpoint and JSON keeps the two
  counts, a violation that the server has counted is in the verdict.
\<close>

lemma server_violation_reported:
  assumes "serveStats enc s ''/statz'' = Some body" and "decode body = Inr raw"
    and "unmarshal raw = Some (SeqViolations s, CRCViolations s)" and "SeqViolations s + CRCViolations s > 0"
  shows "Verdict (fullReport encode decode unmarshal (Inr body) c) = ''FAIL''"
proof -
  have "fetchStats decode unmarshal (Inr body) = \<lparr>fsErr = [], fsRaw = Some raw, fsSeq = SeqViolations s, fsCRC = CRCViolations s\<rparr>"
    using assms(2,3) by (simp add: fetchStats_def)
  then show ?thesis
    using fullReport_refines [OF refl refl, of encode decode unmarshal "Inr body" c] assms(4)
    by (simp add: buildReport_def verdictText_def split: prod.splits)
qed

section \<open>Departures from the expected behaviour\<close>

text \<open>
  When the server's counters cannot be fetched, the report passes all the same and says that there
  were zero violations, whatever the server has counted.
\<close>

lemma unreachable_server_passes:
  assumes "LoopbackEstablishedAt c \<noteq> None" "\<not> LoopbackBroken c" "violations c = 0" "ClockGaps c \<noteq> []"
  shows "Verdict (fullReport encode decode unmarshal (Inl err) c) = ''PASS'' \<and>
    VerdictDetail (fullReport encode decode unmarshal (Inl err) c) = [passText c]"
  using assms
  by (auto simp: fullReport_def fetchStats_def Let_def conclude_def checkServer_def checkClient_def checkConnection_def)

end
