(* ===== verification/Frame_Text.thy ===== *)
theory Frame_Text
  imports Wire Strconv
begin

text \<open>
  \<^verbatim>\<open>Frame.String\<close> of \<^verbatim>\<open>internal/tunnel/wire.go\<close>, the text of a frame in the logs. \<open>quote\<close> is the
  verb \<^verbatim>\<open>%q\<close>.
\<close>

definition decimal :: "'w::len word \<Rightarrow> string" where
  "decimal w = digits (unat w)"

definition Frame_String :: "(string \<Rightarrow> string) \<Rightarrow> frame \<Rightarrow> string" where
  "Frame_String quote f =
     (if ftype f = TypeHello then ''HELLO(actor='' @ ActorID f @ '')''
      else if ftype f = TypeOpen then ''OPEN(sid='' @ decimal (SessionID f) @ '' target='' @ Target f @ '')''
      else if ftype f = TypeAttach then
        ''ATTACH(sid='' @ decimal (SessionID f) @ '' delivered='' @ decimal (Offset f) @ '' target='' @ Target f @ '')''
      else if ftype f = TypeAttachOK then ''ATTACH_OK(sid='' @ decimal (SessionID f) @ '' written='' @ decimal (Offset f) @ '')''
      else if ftype f = TypeData then
        ''DATA(sid='' @ decimal (SessionID f) @ '' off='' @ decimal (Offset f) @ '' len='' @ digits (length (Payload f)) @ '')''
      else if ftype f = TypeAck then ''ACK(sid='' @ decimal (SessionID f) @ '' off='' @ decimal (Offset f) @ '')''
      else if ftype f = TypeClose then
        ''CLOSE(sid='' @ decimal (SessionID f) @ '' dir='' @ decimal (Dir f) @ '' reason='' @ quote (Reason f) @ '')''
      else if ftype f = TypePing then ''PING('' @ decimal (Nonce f) @ '')''
      else if ftype f = TypePong then ''PONG('' @ decimal (Nonce f) @ '')''
      else ''UNKNOWN('' @ decimal (ftype f) @ '')'')"

section \<open>Properties\<close>

text \<open>The decimal digits of a number determine it, and end where something else begins.\<close>

lemma digits_value: "c \<in> set (digits n) \<Longrightarrow> digit_value c \<noteq> None"
proof (induction n rule: digits.induct)
  case (1 n)
  then show ?case by (cases "n < 10") (auto simp: digits.simps [of n])
qed

lemma digits_inj: "digits n = digits m \<Longrightarrow> n = m"
proof (induction n arbitrary: m rule: digits.induct)
  case (1 n)
  have d: "digit (a mod 10) = digit (b mod 10) \<Longrightarrow> a mod 10 = b mod 10" for a b
    by (metis digit_value_digit mod_less_divisor option.inject zero_less_numeral)
  have len: "length (digits k) = 1 \<longleftrightarrow> k < 10" for k
    by (subst digits.simps) (use digits_nonempty [of "k div 10"] in auto)
  show ?case
  proof (cases "n < 10")
    case True
    then have "m < 10" using len 1(2) by metis
    then show ?thesis using True 1(2) d [of n m] by (simp add: digits.simps)
  next
    case False
    then have m: "\<not> m < 10" using len 1(2) by metis
    then have "digits (n div 10) = digits (m div 10)" "digit (n mod 10) = digit (m mod 10)"
      using False 1(2) by (simp_all add: digits.simps [of n] digits.simps [of m])
    then have "n div 10 = m div 10" "n mod 10 = m mod 10" using 1(1) [OF False] d by blast+
    then show ?thesis by (metis div_mult_mod_eq)
  qed
qed

lemma decimal_ends:
  fixes v w :: "'w::len word"
  assumes "decimal v @ x # xs = decimal w @ y # ys" and "digit_value x = None" "digit_value y = None"
  shows "v = w \<and> x # xs = y # ys"
proof -
  have t: "takeWhile (\<lambda>c. digit_value c \<noteq> None) (decimal u @ z # zs) = decimal u" if "digit_value z = None" for u :: "'w word" and z zs
    using that digits_value by (subst takeWhile_append2) (auto simp: decimal_def)
  have "decimal v = decimal w" using t assms by metis
  moreover from this have "unat v = unat w" using digits_inj by (simp add: decimal_def)
  ultimately show ?thesis using assms(1) by (simp add: unsigned_word_eqI)
qed

text \<open>A line of the log identifies the kind of its frame, and the session for a frame of a session.\<close>

lemma Frame_String_identifies:
  assumes "Frame_String quote f = Frame_String quote g" and "known_type f" "known_type g"
  shows "ftype f = ftype g \<and> (ftype f \<notin> {TypeHello, TypePing, TypePong} \<longrightarrow> SessionID f = SessionID g)"
proof -
  have k: "digit_value CHR '' '' = None" "digit_value CHR '')'' = None" by code_simp+
  have t: "ftype f = ftype g" using assms by (auto simp: Frame_String_def known_type_def)
  have "SessionID f = SessionID g" if "ftype f \<notin> {TypeHello, TypePing, TypePong}"
    using that assms k t by (auto simp: Frame_String_def known_type_def dest: decimal_ends)
  then show ?thesis using t by blast
qed

end
