(* ===== verification/Spec2Isabelle.thy ===== *)
theory Spec2Isabelle
  imports Recovery Demo_Programs Loopback_Report Frame_Text
begin

text \<open>
  \<^bold>\<open>The program.\<close> An agent runs in an actor that is checkpointed and suspended while it waits, and
  woken when there is something for it. Connections do not survive a suspend, except those on the
  loopback inside the actor. The program keeps the agent unaware of this. A sidecar in the actor
  proxies the agent's outgoing connections as numbered sessions over one tunnel to a broker
  outside. The broker holds the real upstream connections, buffers what arrives while the tunnel
  is down and asks the platform to resume the actor. Both ends keep the bytes the other has not
  confirmed, so that a fresh tunnel continues every stream where it stopped. The sidecar decides
  when to suspend. Client requests come in through an ingress broker that parks the client and gets
  the response back on a connection the actor opens.

  \<^bold>\<open>Theories, in import order.\<close>

  \<^item> \<open>Prelude\<close>: machine integers, bytes, big-endian codecs, the buffered reader, list and word facts.
  \<^item> \<open>Wire\<close> (\<^verbatim>\<open>internal/tunnel/wire.go\<close>): frames, the encoder on a buffered connection, the decoder.
  Frames round-trip; a write succeeds exactly on the encodable frames; a refused one leaves a
  partial header behind that breaks the connection.
  \<^item> \<open>Replay_Buffer\<close> (\<^verbatim>\<open>internal/tunnel/buffer.go\<close>): the buffer refines the stream of accepted bytes.
  The interface is the locale \<open>retained_stream\<close>, interpreted as \<open>rb\<close>.
  \<^item> \<open>Stream_Receiver\<close>: the locale \<open>offset_receiver\<close> of a receiver that skips what it has and ignores
  gaps. It is interpreted on \<^const>\<open>onData\<close> before and after the dial and on \<^const>\<open>deliverDown\<close>.
  \<^item> \<open>Broker_Session\<close> (\<^verbatim>\<open>internal/broker/session.go\<close>): the record \<^typ>\<open>session\<close>, one definition per
  method, mapping the state to a state and a list of effects; the results of I/O are in the
  record \<^typ>\<open>env\<close>. Shown: no response is stranded on a suspended actor, an idle session never wakes
  it, an ATTACH replays the undelivered rest, the reader loses nothing.
  \<^item> \<open>Sidecar_Session\<close> (\<^verbatim>\<open>internal/sidecar/session.go\<close>): the same for \<^typ>\<open>csession\<close>.
  \<^item> \<open>Tunnel_System\<close>: one session end to end. Two sessions and two networks, sets of frames that
  only grow, so that a frame may be lost, repeated, delayed or reordered, in a step relation
  with its inductive invariants: stream integrity, retention of the undelivered, completion by
  one resume. \<open>Deployment\<close> and \<open>Recovery\<close> lift them to whole programs.
  \<^item> \<open>Resumer\<close> (\<^verbatim>\<open>internal/broker/resumer.go\<close>, \<^verbatim>\<open>internal/ateapi\<close>): single flight, the retry loop with its
  backoff and deadline, actor references.
  \<^item> \<open>Broker\<close> (\<^verbatim>\<open>internal/broker/broker.go\<close>, \<^verbatim>\<open>tunnelconn.go\<close>): session objects in a heap, the registry,
  the tunnels' bindings, every frame handler, a tunnel from HELLO to its end. Reachable brokers
  have an exact registry; frames of one actor leave the others alone.
  \<^item> \<open>Sidecar_Client\<close> (\<^verbatim>\<open>internal/sidecar/client.go\<close>): sessions, reconnect, dispatch, the PING loop.
  \<^item> \<open>Activity\<close> (\<^verbatim>\<open>internal/activityz\<close>, \<^verbatim>\<open>internal/activitystatus\<close>): the tracker equals its definition over
  the history of callbacks.
  \<^item> \<open>Suspender\<close> (\<^verbatim>\<open>internal/sidecar/suspender.go\<close>): a tick of the poller. With \<open>Activity\<close>: a call is
  suspended at most once, suspends are justified and spaced, a resumed actor gets its grace. What
  the poller relies on are the locales \<open>call_counter\<close>, interpreted on the tracker, and \<open>idle_source\<close>,
  interpreted on the ingress.
  \<^item> \<open>Strconv\<close>: \<^verbatim>\<open>strconv.Itoa\<close> and \<^verbatim>\<open>strconv.Atoi\<close>, with their round trip.
  \<^item> \<open>Ingress\<close> (\<^verbatim>\<open>internal/sidecar/ingress.go\<close>): handlers and the in-flight count. With \<open>Suspender\<close>: no
  idle suspend during a request.
  \<^item> \<open>Ingress_Broker\<close> (\<^verbatim>\<open>demos/adk-calc/internal/ingressbroker/broker.go\<close>): the parked requests, the
  forward, the replies. With \<open>Ingress\<close>: the client gets exactly the agent's response.
  \<^item> \<open>Proxy\<close> (\<^verbatim>\<open>internal/sidecar/proxy.go\<close>): the handlers, as the actions they take, and the target's
  normalisation with the library functions it uses.
  \<^item> \<open>Loopback_Wire\<close>, \<open>Loopback\<close> (\<^verbatim>\<open>demos/loopback-survival\<close>): the experiment that shows that a
  loopback connection survives suspends. Its protocol round-trips, on an intact connection it never
  reports a failure, and a broken connection or a missing frame makes it do so.
  \<^item> \<open>Loopback_Run\<close>: the experiment's programs as they run, with dials, failure paths, endpoints, the
  writer of acknowledgements and the external echo. A failure, once seen, is in every later report.
  \<^item> \<open>Loopback_Report\<close>: the report with its texts and the fetch of the server's counters, which
  implements the verdict of \<open>Loopback\<close>.
  \<^item> \<open>Frame_Text\<close>: \<^verbatim>\<open>Frame.String\<close>; a line of the log identifies the kind and the session of its frame.
  \<^item> \<open>Deployment\<close>: the whole broker, with the sessions of every actor, beside one actor's whole
  client. Each session of the client with its object at the broker is simulated by a
  \<open>Tunnel_System\<close> (the relation \<^const>\<open>sim\<close>, kept by every step in the invariant \<^const>\<open>deploy_inv\<close>),
  so that integrity and retention hold for all sessions at once, among the frames of the others.
  \<^item> \<open>Reconnect\<close> (\<^verbatim>\<open>Client.Run\<close>, \<^verbatim>\<open>connectOnce\<close>): after any failed or cut attempts, the next tunnel
  gets the HELLO and the ATTACH of every live session.
  \<^item> \<open>Recovery\<close>: one reconnect of the whole client over an undisturbed tunnel, in which the broker
  serves all ATTACH frames, the client reads all answers and the broker serves what the client then
  wrote. Seen from one session the frames of the others change nothing (\<^const>\<open>concerns\<close>), so that
  both streams of every live session are completed.
  \<^item> \<open>Go_Strings\<close>: the library functions of the programs on strings (\<^verbatim>\<open>TrimSpace\<close>, \<^verbatim>\<open>ParseBool\<close>,
  \<^verbatim>\<open>ParseDuration\<close>) and the routing of \<^verbatim>\<open>http.ServeMux\<close>.
  \<^item> \<open>Lifecycle\<close> (\<^verbatim>\<open>internal/ateapi\<close>, \<^verbatim>\<open>serveDebug\<close> of the egress broker): the calls of the platform's
  API and the endpoints by which an operator makes them.
  \<^item> \<open>Programs\<close> (\<^verbatim>\<open>cmd/egress-broker\<close>, \<^verbatim>\<open>cmd/egress-sidecar\<close>, the ingress broker's \<^verbatim>\<open>main\<close>): settings, the
  actor's identity, start-up. With \<open>Deployment\<close>: what the programs start keeps its streams; a
  restored sidecar names the actor it has become.
  \<^item> \<open>Services\<close>: the accept loops, the status endpoint, the poller's fetch and suspend. With \<open>Programs\<close>,
  \<open>Suspender\<close> and \<open>Activity\<close>: a sidecar suspends only its own actor and only when its agent waits.
  \<^item> \<open>Agent_Demo\<close> (\<^verbatim>\<open>demos/adk-calc\<close>): the agent's run endpoint, the calculator, the interactive client.
  With \<open>Ingress\<close> and \<open>Ingress_Broker\<close>: a question typed at the client gets the agent's answer.
  \<^item> \<open>Demo_Programs\<close>: the construction of the agent, its server's start-up, the ports of the ingress
  broker, the client as a program with its actor's life cycle, and the exit status of the egress
  programs.

  \<^bold>\<open>Conventions.\<close> Stream offsets, ids and counters are 64-bit words; a theorem that needs a bound
  below the wrap-around states it. Go's \<^verbatim>\<open>int\<close> counters and times (nanoseconds) are integers. A
  critical section is one step; where a method releases its lock in between, and it matters, the
  sections are also separate definitions (\<^const>\<open>dialPublish\<close>, \<^const>\<open>dialFlush\<close>, \<^const>\<open>onDataAdmit\<close>).
  Loops that may wait end with a result that says so and are resumed by a later step. No fuel is
  used: every loop is structural or has a termination proof.

  \<^bold>\<open>Departures.\<close> Sections with this title at the end of a theory prove behaviour that differs from
  what a comment or the code's purpose says.

  \<^bold>\<open>Not modelled.\<close> Third-party code is a parameter of the definitions that use it: HTTP parsing, JSON,
  the gRPC stubs, the flag library, the agent kit, the MCP handler; so are floating-point operations
  and the texts of library errors. Left out are signals other than as a
  cancelled context, the shutdown of the debug server, the HTTP servers behind the listeners of the
  demo programs, the registration of the calculator with the MCP library, and logging. Wrappers that
  only pass a call to a socket or to the gRPC library (\<^verbatim>\<open>Close\<close>, \<^verbatim>\<open>RemoteAddr\<close>, \<^verbatim>\<open>SetReadDeadline\<close>) have no
  definition of their own. The environment helpers, which each program has a copy of, are modelled
  once. What is then left of the sources are comments, imports, constants and declarations.
\<close>

end
